(* ===== verification/Rust_Prelude.thy ===== *)
theory Rust_Prelude
  imports Main "HOL-Library.Word" "HOL-Library.Char_ord" "HOL-Library.List_Lexorder"
begin

unbundle bit_operations_syntax

text \<open>
  Shared vocabulary of the development: Rust's fixed-width integers as words, \<open>Result\<close> as a sum
  (\<open>Inl\<close> the error), saturating and wrapping arithmetic, iteration over a \<open>for\<close> loop that may
  return early, and the generic facts on lists and sums that the component theories use.  \<open>usize\<close>
  values are lengths and counts and are modelled by \<^typ>\<open>nat\<close>.
\<close>

section \<open>Integers and results\<close>

type_synonym u8 = "8 word"
type_synonym u16 = "16 word"
type_synonym u32 = "32 word"
type_synonym u64 = "64 word"
type_synonym bytes = "8 word list"

text \<open>The pattern \<open>r?\<close> of Rust: an error is returned at once, a value is passed on.\<close>

fun and_then :: "'e + 'a \<Rightarrow> ('a \<Rightarrow> 'e + 'b) \<Rightarrow> 'e + 'b" where
  "and_then (Inl e) f = Inl e"
| "and_then (Inr x) f = f x"

text \<open>\<open>Option::ok_or\<close> and \<open>saturating_add(1)\<close>.\<close>

definition ok_or :: "'a option \<Rightarrow> 'e \<Rightarrow> 'e + 'a" where
  "ok_or x e = (case x of None \<Rightarrow> Inl e | Some v \<Rightarrow> Inr v)"

definition saturating_succ :: "'a::len word \<Rightarrow> 'a word" where
  "saturating_succ x = (if x = - 1 then x else x + 1)"

text \<open>Decimal printing of an unsigned number, as \<open>format!\<close> does it.\<close>

fun decimal :: "nat \<Rightarrow> string" where
  "decimal n = (if n < 10 then [char_of (48 + n)] else decimal (n div 10) @ [char_of (48 + n mod 10)])"

declare decimal.simps [simp del]

section \<open>Proof collections\<close>

text \<open>
  \<open>err_simps\<close> unfolds the error plumbing, \<open>frame_simps\<close> holds the facts that an operation leaves a
  field unchanged.
\<close>

named_theorems err_simps \<open>unfolding of the error-passing combinators\<close>
named_theorems frame_simps \<open>fields an operation does not change\<close>

lemma and_then_eq_Inr [err_simps]:
  "and_then r f = Inr y \<longleftrightarrow> (\<exists>x. r = Inr x \<and> f x = Inr y)"
  by (cases r) auto

lemma and_then_eq_Inl [err_simps]:
  "and_then r f = Inl e \<longleftrightarrow> r = Inl e \<or> (\<exists>x. r = Inr x \<and> f x = Inl e)"
  by (cases r) auto

lemma ok_or_eq_Inr [err_simps]: "ok_or x e = Inr v \<longleftrightarrow> x = Some v"
  by (simp add: ok_or_def split: option.splits)

lemma ok_or_eq_Inl [err_simps]: "ok_or x e = Inl e' \<longleftrightarrow> x = None \<and> e = e'"
  by (auto simp: ok_or_def split: option.splits)

lemma ok_or_simps [simp]: "ok_or None e = Inl e" "ok_or (Some v) e = Inr v"
  by (simp_all add: ok_or_def)

section \<open>Lists\<close>

lemma find_Some_iff_first:
  "List.find P xs = Some x \<longleftrightarrow> (\<exists>ys zs. xs = ys @ x # zs \<and> P x \<and> (\<forall>y \<in> set ys. \<not> P y))"
proof (induction xs)
  case Nil
  then show ?case by simp
next
  case (Cons a xs)
  show ?case
  proof (cases "P a")
    case True
    then show ?thesis by (auto simp: Cons_eq_append_conv)
  next
    case False
    have "(\<exists>ys zs. xs = ys @ x # zs \<and> P x \<and> (\<forall>y \<in> set ys. \<not> P y)) \<longleftrightarrow>
      (\<exists>ys zs. a # xs = ys @ x # zs \<and> P x \<and> (\<forall>y \<in> set ys. \<not> P y))"
      (is "?l \<longleftrightarrow> ?r")
    proof
      assume ?l
      then obtain ys zs where "xs = ys @ x # zs" "P x" "\<forall>y \<in> set ys. \<not> P y" by blast
      with False have "a # xs = (a # ys) @ x # zs \<and> P x \<and> (\<forall>y \<in> set (a # ys). \<not> P y)" by simp
      then show ?r by blast
    next
      assume ?r
      with False show ?l by (auto simp: Cons_eq_append_conv)
    qed
    with False Cons.IH show ?thesis by simp
  qed
qed

lemma find_SomeD: "List.find P xs = Some x \<Longrightarrow> x \<in> set xs \<and> P x"
  by (auto simp: find_Some_iff_first)

lemma map_filter_commute_fst:
  "map fst (filter (\<lambda>p. P (fst p)) xs) = filter P (map fst xs)"
  by (induction xs) auto

lemma sum_list_map_zero: "(\<And>x. x \<in> set xs \<Longrightarrow> f x = (0::nat)) \<Longrightarrow> sum_list (map f xs) = 0"
  by (induction xs) auto

lemma sum_list_concat_length: "sum_list (map length xss) = length (concat xss)"
  by (induction xss) auto

section \<open>Words\<close>

lemma of_nat_inject_word:
  assumes "m < 2 ^ LENGTH('a)" "n < 2 ^ LENGTH('a::len)"
  shows "(of_nat m :: 'a word) = of_nat n \<longleftrightarrow> m = n"
  using assms by (metis mod_less unat_of_nat)

lemma unat_saturating_succ:
  "unat (saturating_succ (x :: 'a::len word)) = min (unat x + 1) (2 ^ LENGTH('a) - 1)"
proof (cases "x = - 1")
  case True
  then show ?thesis
    by (simp add: saturating_succ_def unsigned_minus_1_eq_mask mask_eq_exp_minus_1)
next
  case False
  then have "1 + x \<noteq> 0"
    by (metis add_eq_0_iff)
  then have "unat (x + 1) = unat x + 1"
    using unatSuc [of x] by (simp add: add.commute)
  moreover have "unat (x + 1) < 2 ^ LENGTH('a)"
    by (rule unsigned_less)
  ultimately show ?thesis
    using False by (simp add: saturating_succ_def)
qed

lemma less_succ_word: "x \<noteq> - 1 \<Longrightarrow> x < x + (1 :: 'a::len word)"
proof -
  assume "x \<noteq> - 1"
  then have "1 + x \<noteq> 0" by (metis add_eq_0_iff)
  then show ?thesis using unatSuc [of x] by (simp add: add.commute word_less_nat_alt)
qed

section \<open>Systems of guarded operations\<close>

text \<open>
  A component is used through a sequence of operations, each enabled in the state it is applied to.
  An invariant of single operations holds after every such run; the components below are instances
  of this locale.
\<close>

fun valid_run :: "('e \<Rightarrow> 's \<Rightarrow> bool) \<Rightarrow> ('e \<Rightarrow> 's \<Rightarrow> 's) \<Rightarrow> 's \<Rightarrow> 'e list \<Rightarrow> bool" where
  "valid_run enabled step s [] = True"
| "valid_run enabled step s (e # es) = (enabled e s \<and> valid_run enabled step (step e s) es)"

locale guarded_system =
  fixes init :: 's
    and enabled :: "'e \<Rightarrow> 's \<Rightarrow> bool"
    and step :: "'e \<Rightarrow> 's \<Rightarrow> 's"
    and inv :: "'s \<Rightarrow> bool"
  assumes init_inv: "inv init"
    and step_inv: "inv s \<Longrightarrow> enabled e s \<Longrightarrow> inv (step e s)"
begin

lemma run_inv_from: "inv s \<Longrightarrow> valid_run enabled step s es \<Longrightarrow> inv (fold step es s)"
  by (induction es arbitrary: s) (auto intro: step_inv)

lemma run_inv: "valid_run enabled step init es \<Longrightarrow> inv (fold step es init)"
  by (rule run_inv_from [OF init_inv])

end

end
