(* ===== verification/BTree_Map.thy ===== *)
theory BTree_Map
  imports Rust_Prelude
begin

text \<open>
  Rust's \<open>BTreeMap\<close>, the container every component keeps its state in: a finite map whose iteration
  order is the order of the keys.  It is the type of association lists with strictly increasing
  keys, so that two maps with the same lookups are equal and iteration (\<open>bt_entries\<close>,
  \<open>bt_values\<close>, \<open>bt_keys\<close>) is determined by the contents.  The operations are those the kernel
  calls: \<open>get\<close>, \<open>insert\<close>, \<open>remove\<close>, \<open>contains_key\<close>, \<open>len\<close>, \<open>retain\<close>, \<open>values_mut\<close> and \<open>get_mut\<close>.
\<close>

section \<open>Association lists with increasing keys\<close>

abbreviation increasing :: "('k::linorder \<times> 'v) list \<Rightarrow> bool" where
  "increasing xs \<equiv> sorted_wrt (<) (map fst xs)"

fun al_insert :: "'k::linorder \<Rightarrow> 'v \<Rightarrow> ('k \<times> 'v) list \<Rightarrow> ('k \<times> 'v) list" where
  "al_insert k v [] = [(k, v)]"
| "al_insert k v ((a, b) # xs) =
     (if k < a then (k, v) # (a, b) # xs
      else if k = a then (k, v) # xs
      else (a, b) # al_insert k v xs)"

definition al_remove :: "'k \<Rightarrow> ('k \<times> 'v) list \<Rightarrow> ('k \<times> 'v) list" where
  "al_remove k xs = filter (\<lambda>p. fst p \<noteq> k) xs"

lemma al_remove_simps [simp]:
  "al_remove k [] = []"
  "al_remove k ((a, b) # xs) = (if a = k then al_remove k xs else (a, b) # al_remove k xs)"
  by (simp_all add: al_remove_def)

lemma set_keys_al_insert [simp]: "fst ` set (al_insert k v xs) = insert k (fst ` set xs)"
  by (induction k v xs rule: al_insert.induct) auto

lemma increasing_al_insert: "increasing xs \<Longrightarrow> increasing (al_insert k v xs)"
proof (induction k v xs rule: al_insert.induct)
  case (1 k v)
  then show ?case by simp
next
  case (2 k v a b xs)
  then have IH: "increasing (al_insert k v xs)" if "a < k"
    using that by auto
  have below: "\<forall>y \<in> fst ` set xs. a < y" using "2.prems" by auto
  consider "k < a" | "k = a" | "a < k" by (metis linorder_neqE)
  then show ?case
  proof cases
    case 1
    then show ?thesis using "2.prems" by auto
  next
    case 2
    then show ?thesis using "2.prems" by auto
  next
    case 3
    have "\<forall>y \<in> fst ` set (al_insert k v xs). a < y"
      using below 3 by (simp only: set_keys_al_insert) auto
    then show ?thesis using 3 IH by auto
  qed
qed

lemma sorted_wrt_map_filter: "sorted_wrt R (map f xs) \<Longrightarrow> sorted_wrt R (map f (filter P xs))"
  by (induction xs) auto

lemma increasing_al_remove: "increasing xs \<Longrightarrow> increasing (al_remove k xs)"
  by (simp add: al_remove_def sorted_wrt_map_filter)

lemma map_of_al_insert: "map_of (al_insert k v xs) = (map_of xs)(k \<mapsto> v)"
  by (induction k v xs rule: al_insert.induct) (auto simp: fun_eq_iff)

lemma map_of_al_remove: "map_of (al_remove k xs) = (map_of xs)(k := None)"
  by (induction xs) (auto simp: fun_eq_iff)

lemma map_of_filter_distinct:
  "distinct (map fst xs) \<Longrightarrow> map_of (filter (\<lambda>(k, v). P k v) xs) k =
     (case map_of xs k of None \<Rightarrow> None | Some v \<Rightarrow> if P k v then Some v else None)"
  by (induction xs) (auto simp: map_of_eq_None_iff image_iff split: option.splits)

lemma map_of_map_entries:
  "map_of (map (\<lambda>(k, v). (k, f k v)) xs) k = map_option (f k) (map_of xs k)"
  by (induction xs) auto

lemma increasing_distinct: "increasing xs \<Longrightarrow> distinct (map fst xs)"
  by (simp add: strict_sorted_iff)

section \<open>The type of ordered maps and its operations\<close>

typedef (overloaded) ('k::linorder, 'v) btreemap =
  "{xs :: ('k \<times> 'v) list. increasing xs}"
  morphisms bt_entries Btreemap
  by (rule exI [of _ "[]"]) simp

setup_lifting type_definition_btreemap

lift_definition bt_empty :: "('k::linorder, 'v) btreemap" is "[]"
  by simp

lift_definition bt_get :: "('k::linorder, 'v) btreemap \<Rightarrow> 'k \<Rightarrow> 'v option" is map_of .

lift_definition bt_insert :: "'k::linorder \<Rightarrow> 'v \<Rightarrow> ('k, 'v) btreemap \<Rightarrow> ('k, 'v) btreemap"
  is al_insert by (rule increasing_al_insert)

lift_definition bt_remove :: "'k::linorder \<Rightarrow> ('k, 'v) btreemap \<Rightarrow> ('k, 'v) btreemap"
  is al_remove by (rule increasing_al_remove)

lift_definition bt_filter ::
  "('k::linorder \<Rightarrow> 'v \<Rightarrow> bool) \<Rightarrow> ('k, 'v) btreemap \<Rightarrow> ('k, 'v) btreemap"
  is "\<lambda>P xs. filter (\<lambda>(k, v). P k v) xs"
  by (rule sorted_wrt_map_filter)

lift_definition bt_map ::
  "('k::linorder \<Rightarrow> 'v \<Rightarrow> 'w) \<Rightarrow> ('k, 'v) btreemap \<Rightarrow> ('k, 'w) btreemap"
  is "\<lambda>f xs. map (\<lambda>(k, v). (k, f k v)) xs"
  by (simp add: comp_def case_prod_unfold)

definition bt_contains :: "('k::linorder, 'v) btreemap \<Rightarrow> 'k \<Rightarrow> bool" where
  "bt_contains m k \<longleftrightarrow> bt_get m k \<noteq> None"

definition bt_keys :: "('k::linorder, 'v) btreemap \<Rightarrow> 'k list" where
  "bt_keys m = map fst (bt_entries m)"

definition bt_values :: "('k::linorder, 'v) btreemap \<Rightarrow> 'v list" where
  "bt_values m = map snd (bt_entries m)"

definition bt_len :: "('k::linorder, 'v) btreemap \<Rightarrow> nat" where
  "bt_len m = length (bt_entries m)"

text \<open>\<open>if let Some(v) = m.get_mut(&k) { *v = f(v) }\<close>: nothing happens when the key is absent.\<close>

definition bt_adjust :: "'k::linorder \<Rightarrow> ('v \<Rightarrow> 'v) \<Rightarrow> ('k, 'v) btreemap \<Rightarrow> ('k, 'v) btreemap" where
  "bt_adjust k f m = (case bt_get m k of None \<Rightarrow> m | Some v \<Rightarrow> bt_insert k (f v) m)"

text \<open>A sum over the entries, as \<open>m.values().map(f).sum()\<close> computes it.\<close>

definition bt_sum :: "('v \<Rightarrow> nat) \<Rightarrow> ('k::linorder, 'v) btreemap \<Rightarrow> nat" where
  "bt_sum f m = sum_list (map f (bt_values m))"

instantiation btreemap :: (linorder, equal) equal
begin

definition equal_btreemap :: "('a, 'b) btreemap \<Rightarrow> ('a, 'b) btreemap \<Rightarrow> bool" where
  "equal_btreemap m n \<longleftrightarrow> bt_entries m = bt_entries n"

instance
  by standard (simp add: equal_btreemap_def bt_entries_inject)

end

section \<open>Laws\<close>

lemma increasing_entries [simp]: "increasing (bt_entries m)"
  using bt_entries [of m] by simp

lemma distinct_keys [simp]: "distinct (bt_keys m)"
  by (simp add: bt_keys_def increasing_distinct)

lemma sorted_keys [simp]: "sorted_wrt (<) (bt_keys m)"
  by (simp add: bt_keys_def)

lemma bt_get_empty [simp]: "bt_get bt_empty k = None"
  by transfer simp

lemma bt_get_insert [simp]: "bt_get (bt_insert k v m) k' = (if k' = k then Some v else bt_get m k')"
  by transfer (simp add: map_of_al_insert)

lemma bt_get_remove [simp]: "bt_get (bt_remove k m) k' = (if k' = k then None else bt_get m k')"
  by transfer (simp add: map_of_al_remove)

lemma bt_get_filter [simp]:
  "bt_get (bt_filter P m) k =
     (case bt_get m k of None \<Rightarrow> None | Some v \<Rightarrow> if P k v then Some v else None)"
  by transfer (simp add: map_of_filter_distinct increasing_distinct)

lemma bt_get_map [simp]: "bt_get (bt_map f m) k = map_option (f k) (bt_get m k)"
  by transfer (rule map_of_map_entries)

lemma bt_get_adjust [simp]:
  "bt_get (bt_adjust k f m) k' = (if k' = k then map_option f (bt_get m k) else bt_get m k')"
  by (simp add: bt_adjust_def split: option.splits)

lemma bt_contains_simps [simp]:
  "\<not> bt_contains bt_empty k"
  "bt_contains (bt_insert k v m) k' \<longleftrightarrow> k' = k \<or> bt_contains m k'"
  "bt_contains (bt_remove k m) k' \<longleftrightarrow> k' \<noteq> k \<and> bt_contains m k'"
  "bt_contains (bt_adjust k f m) k' \<longleftrightarrow> bt_contains m k'"
  "bt_contains (bt_map g m) k' \<longleftrightarrow> bt_contains m k'"
  by (auto simp: bt_contains_def)

lemma bt_contains_iff: "bt_contains m k \<longleftrightarrow> (\<exists>v. bt_get m k = Some v)"
  by (auto simp: bt_contains_def)

lemma set_entries_iff: "(k, v) \<in> set (bt_entries m) \<longleftrightarrow> bt_get m k = Some v"
  by transfer (simp add: increasing_distinct)

lemma set_keys_iff [simp]: "k \<in> set (bt_keys m) \<longleftrightarrow> bt_contains m k"
  by (force simp: bt_keys_def bt_contains_def image_iff simp flip: set_entries_iff)

lemma set_values_iff: "v \<in> set (bt_values m) \<longleftrightarrow> (\<exists>k. bt_get m k = Some v)"
  by (force simp: bt_values_def image_iff simp flip: set_entries_iff)

lemma bt_values_get: "bt_get m k = Some v \<Longrightarrow> v \<in> set (bt_values m)"
  by (auto simp: set_values_iff)

lemma bt_eqI: "(\<And>k. bt_get m k = bt_get n k) \<Longrightarrow> m = n"
proof (transfer)
  fix m n :: "('a \<times> 'b) list"
  assume inc: "increasing m" "increasing n" and eq: "\<And>k. map_of m k = map_of n k"
  then have "set m = set n"
    by (metis (no_types, opaque_lifting) increasing_distinct map_of_eq_Some_iff subrelI subset_antisym)
  moreover have "sorted (map fst m)" "sorted (map fst n)"
    using inc by (simp_all add: strict_sorted_iff)
  moreover have "inj_on fst (set m \<union> set n)"
    using \<open>set m = set n\<close> increasing_distinct [OF inc(1)] by (simp add: distinct_map)
  ultimately show "m = n"
    using inc map_sorted_distinct_set_unique [of fst m n] by (simp add: strict_sorted_iff)
qed

lemma bt_insert_same [simp]: "bt_insert k w (bt_insert k v m) = bt_insert k w m"
  by (rule bt_eqI) simp

lemma bt_insert_idem: "bt_get m k = Some v \<Longrightarrow> bt_insert k v m = m"
  by (rule bt_eqI) auto

lemma bt_remove_insert: "bt_get m k = None \<Longrightarrow> bt_remove k (bt_insert k v m) = m"
  by (rule bt_eqI) auto

lemma bt_insert_remove: "bt_get m k = Some v \<Longrightarrow> bt_insert k v (bt_remove k m) = m"
  by (rule bt_eqI) auto

lemma bt_remove_absent: "bt_get m k = None \<Longrightarrow> bt_remove k m = m"
  by (rule bt_eqI) auto

lemma bt_insert_commute: "k \<noteq> l \<Longrightarrow> bt_insert k v (bt_insert l w m) = bt_insert l w (bt_insert k v m)"
  by (rule bt_eqI) simp

section \<open>Lengths and sums\<close>

lemma bt_len_keys: "bt_len m = length (bt_keys m)"
  by (simp add: bt_len_def bt_keys_def)

lemma bt_len_card: "bt_len m = card {k. bt_contains m k}"
proof -
  have "bt_len m = card (set (bt_keys m))"
    by (simp only: bt_len_keys distinct_card [OF distinct_keys])
  then show ?thesis
    by (metis (no_types, lifting) Collect_cong Collect_mem_eq set_keys_iff)
qed

lemma finite_contains [simp]: "finite {k. bt_contains m k}"
  by (metis (no_types, lifting) Collect_cong Collect_mem_eq List.finite_set set_keys_iff)

lemma sum_al_insert:
  fixes f :: "'v \<Rightarrow> nat"
  assumes "increasing xs"
  shows "sum_list (map f (map snd (al_insert k v xs))) + (case map_of xs k of None \<Rightarrow> 0 | Some w \<Rightarrow> f w)
    = sum_list (map f (map snd xs)) + f v"
  using assms
proof (induction k v xs rule: al_insert.induct)
  case (1 k v)
  then show ?case by simp
next
  case (2 k v a b xs)
  have "map_of xs k = None" if "k \<le> a"
    using "2.prems" that by (force simp: map_of_eq_None_iff)
  with 2 show ?case by (auto split: option.splits)
qed

lemma sum_al_remove:
  fixes f :: "'v \<Rightarrow> nat"
  assumes "distinct (map fst xs)"
  shows "sum_list (map f (map snd (al_remove k xs))) + (case map_of xs k of None \<Rightarrow> 0 | Some w \<Rightarrow> f w)
    = sum_list (map f (map snd xs))"
  using assms
proof (induction xs)
  case Nil
  then show ?case by simp
next
  case (Cons p xs)
  obtain a b where p: "p = (a, b)" by (cases p)
  have "map_of xs a = None" using Cons.prems p by (simp add: map_of_eq_None_iff)
  with Cons p show ?case by (auto split: option.splits if_splits)
qed

lemma bt_sum_empty [simp]: "bt_sum f bt_empty = 0"
  by (simp add: bt_sum_def bt_values_def bt_empty.rep_eq)

lemma bt_sum_insert:
  "bt_sum f (bt_insert k v m) + (case bt_get m k of None \<Rightarrow> 0 | Some w \<Rightarrow> f w) = bt_sum f m + f v"
  unfolding bt_sum_def bt_values_def by transfer (rule sum_al_insert)

lemma bt_sum_remove:
  "bt_sum f (bt_remove k m) + (case bt_get m k of None \<Rightarrow> 0 | Some w \<Rightarrow> f w) = bt_sum f m"
  unfolding bt_sum_def bt_values_def by transfer (rule sum_al_remove, rule increasing_distinct)

lemma bt_sum_insert_new: "bt_get m k = None \<Longrightarrow> bt_sum f (bt_insert k v m) = bt_sum f m + f v"
  using bt_sum_insert [of f k v m] by simp

lemma bt_sum_insert_old:
  "bt_get m k = Some w \<Longrightarrow> bt_sum f (bt_insert k v m) + f w = bt_sum f m + f v"
  using bt_sum_insert [of f k v m] by simp

lemma bt_sum_remove_old: "bt_get m k = Some w \<Longrightarrow> bt_sum f (bt_remove k m) + f w = bt_sum f m"
  using bt_sum_remove [of f k m] by simp

lemma bt_sum_ge: "bt_get m k = Some v \<Longrightarrow> f v \<le> bt_sum f m"
  using bt_sum_remove_old [of m k v f] by linarith

lemma bt_sum_eq_0_iff: "bt_sum f m = 0 \<longleftrightarrow> (\<forall>k v. bt_get m k = Some v \<longrightarrow> f v = 0)"
  by (auto simp: bt_sum_def sum_list_eq_0_iff set_values_iff)

lemma bt_len_sum: "bt_len m = bt_sum (\<lambda>_. 1) m"
  by (simp add: bt_len_def bt_sum_def bt_values_def comp_def sum_list_triv)

lemma bt_len_empty [simp]: "bt_len bt_empty = 0"
  by (simp add: bt_len_sum)

lemma bt_len_insert: "bt_len (bt_insert k v m) = (if bt_contains m k then bt_len m else Suc (bt_len m))"
  using bt_sum_insert [of "\<lambda>_. 1" k v m]
  by (auto simp: bt_len_sum bt_contains_def split: option.splits)

lemma bt_len_remove: "bt_len (bt_remove k m) = (if bt_contains m k then bt_len m - 1 else bt_len m)"
  using bt_sum_remove [of "\<lambda>_. 1" k m]
  by (auto simp: bt_len_sum bt_contains_def split: option.splits)

lemma bt_len_adjust [simp]: "bt_len (bt_adjust k f m) = bt_len m"
  by (simp add: bt_adjust_def bt_len_insert bt_contains_def split: option.splits)

lemma bt_len_map [simp]: "bt_len (bt_map f m) = bt_len m"
  by (simp add: bt_len_def bt_map.rep_eq)

lemma bt_keys_map [simp]: "bt_keys (bt_map f m) = bt_keys m"
  by (simp add: bt_keys_def bt_map.rep_eq comp_def case_prod_unfold)

text \<open>Evaluation on closed maps: the entries of a map built by insertions.\<close>

lemmas bt_eval = bt_keys_def bt_values_def bt_len_def bt_empty.rep_eq bt_insert.rep_eq
  bt_remove.rep_eq bt_filter.rep_eq bt_map.rep_eq

end
