(* ===== verification/Fd_Table.thy ===== *)
theory Fd_Table
  imports BTree_Map
begin

text \<open>
  The per-process file descriptor tables of \<open>crates/kernel/src/fd_table.rs\<close>.  A \<open>FileDescription\<close>
  is shared (\<open>Arc\<close>) between descriptors of one or several processes and is mutated through every
  one of them, so descriptions live in an explicit store of cells and an \<open>FdEntry\<close> holds a
  location.  The counter of the \<open>DescriptionFactory\<close>, shared by all tables of a manager, is a field
  of the same store.  Operations return the new store and the new table.
\<close>

section \<open>Constants and errors\<close>

definition MAX_FDS_PER_PROCESS :: nat where "MAX_FDS_PER_PROCESS = 256"

definition O_RDONLY :: u32 where "O_RDONLY = 0"
definition O_WRONLY :: u32 where "O_WRONLY = 1"
definition O_RDWR :: u32 where "O_RDWR = 2"
definition O_CREAT :: u32 where "O_CREAT = 0x40"
definition O_EXCL :: u32 where "O_EXCL = 0x80"
definition O_TRUNC :: u32 where "O_TRUNC = 0x200"
definition O_APPEND :: u32 where "O_APPEND = 0x400"
definition O_NONBLOCK :: u32 where "O_NONBLOCK = 0x800"
definition F_DUPFD :: u32 where "F_DUPFD = 0"
definition F_GETFD :: u32 where "F_GETFD = 1"
definition F_SETFD :: u32 where "F_SETFD = 2"
definition F_GETFL :: u32 where "F_GETFL = 3"
definition F_SETFL :: u32 where "F_SETFL = 4"
definition FD_CLOEXEC :: u32 where "FD_CLOEXEC = 1"

definition FILETYPE_CHARACTER_DEVICE :: u8 where "FILETYPE_CHARACTER_DEVICE = 2"
definition FILETYPE_REGULAR_FILE :: u8 where "FILETYPE_REGULAR_FILE = 4"
definition FILETYPE_PIPE :: u8 where "FILETYPE_PIPE = 6"

definition SHARED_STATUS_FLAG_MASK :: u32 where "SHARED_STATUS_FLAG_MASK = O_APPEND"
definition ENTRY_STATUS_FLAG_MASK :: u32 where "ENTRY_STATUS_FLAG_MASK = O_NONBLOCK"

lemmas fd_consts = O_RDONLY_def O_WRONLY_def O_RDWR_def O_CREAT_def O_EXCL_def O_TRUNC_def
  O_APPEND_def O_NONBLOCK_def F_DUPFD_def F_GETFD_def F_SETFD_def F_GETFL_def F_SETFL_def
  FD_CLOEXEC_def FILETYPE_CHARACTER_DEVICE_def FILETYPE_REGULAR_FILE_def FILETYPE_PIPE_def
  SHARED_STATUS_FLAG_MASK_def ENTRY_STATUS_FLAG_MASK_def

text \<open>
  \<open>FdTableError\<close>: the constructors are the constructor functions of the source, with what the
  message mentions as their argument; \<open>fd_error_code\<close> is the \<open>code\<close> field.
\<close>

datatype fd_error =
    Bad_file_descriptor u32
  | Too_many_open_files
  | Fd_exceeds_limit u32
  | Unsupported_fcntl u32
  | Invalid_flock u32
  | Lock_unavailable

fun fd_error_code :: "fd_error \<Rightarrow> string" where
  "fd_error_code (Bad_file_descriptor fd) = ''EBADF''"
| "fd_error_code Too_many_open_files = ''EMFILE''"
| "fd_error_code (Fd_exceeds_limit fd) = ''EINVAL''"
| "fd_error_code (Unsupported_fcntl c) = ''EINVAL''"
| "fd_error_code (Invalid_flock op) = ''EINVAL''"
| "fd_error_code Lock_unavailable = ''EWOULDBLOCK''"

section \<open>Shared file descriptions\<close>

type_synonym loc = nat
type_synonym lock_target = u64

record file_description =
  desc_id :: u64
  desc_path :: string
  desc_lock_target :: "lock_target option"
  desc_cursor :: u64
  desc_flags :: u32
  desc_ref_count :: nat

definition with_ref_count_and_lock ::
  "u64 \<Rightarrow> string \<Rightarrow> u32 \<Rightarrow> nat \<Rightarrow> lock_target option \<Rightarrow> file_description" where
  "with_ref_count_and_lock i path flags rc lt =
     \<lparr>desc_id = i, desc_path = path, desc_lock_target = lt, desc_cursor = 0, desc_flags = flags,
      desc_ref_count = rc\<rparr>"

definition new_with_lock :: "u64 \<Rightarrow> string \<Rightarrow> u32 \<Rightarrow> lock_target option \<Rightarrow> file_description" where
  "new_with_lock i path flags lt = with_ref_count_and_lock i path flags 1 lt"

definition with_ref_count :: "u64 \<Rightarrow> string \<Rightarrow> u32 \<Rightarrow> nat \<Rightarrow> file_description" where
  "with_ref_count i path flags rc = with_ref_count_and_lock i path flags rc None"

record desc_store =
  cells :: "(loc, file_description) btreemap"
  next_loc :: loc
  next_description_id :: u64

definition new_store :: "u64 \<Rightarrow> desc_store" where
  "new_store starting_id = \<lparr>cells = bt_empty, next_loc = 0, next_description_id = starting_id\<rparr>"

text \<open>\<open>Arc::new\<close>: a fresh cell.\<close>

definition arc_new :: "file_description \<Rightarrow> desc_store \<Rightarrow> loc \<times> desc_store" where
  "arc_new d s =
     (next_loc s, s\<lparr>cells := bt_insert (next_loc s) d (cells s), next_loc := Suc (next_loc s)\<rparr>)"

definition allocate_with_lock ::
  "string \<Rightarrow> u32 \<Rightarrow> lock_target option \<Rightarrow> desc_store \<Rightarrow> loc \<times> desc_store" where
  "allocate_with_lock path flags lt s =
     arc_new (new_with_lock (next_description_id s) path flags lt)
       (s\<lparr>next_description_id := next_description_id s + 1\<rparr>)"

definition allocate :: "string \<Rightarrow> u32 \<Rightarrow> desc_store \<Rightarrow> loc \<times> desc_store" where
  "allocate path flags s = allocate_with_lock path flags None s"

definition increment_ref_count :: "loc \<Rightarrow> desc_store \<Rightarrow> desc_store" where
  "increment_ref_count l s =
     s\<lparr>cells := bt_adjust l (\<lambda>d. d\<lparr>desc_ref_count := desc_ref_count d + 1\<rparr>) (cells s)\<rparr>"

definition decrement_ref_count :: "loc \<Rightarrow> desc_store \<Rightarrow> desc_store" where
  "decrement_ref_count l s =
     s\<lparr>cells := bt_adjust l (\<lambda>d. d\<lparr>desc_ref_count := desc_ref_count d - 1\<rparr>) (cells s)\<rparr>"

definition update_flags :: "loc \<Rightarrow> u32 \<Rightarrow> u32 \<Rightarrow> desc_store \<Rightarrow> desc_store" where
  "update_flags l msk flags s =
     s\<lparr>cells := bt_adjust l
        (\<lambda>d. d\<lparr>desc_flags := (desc_flags d AND NOT msk) OR (flags AND msk)\<rparr>) (cells s)\<rparr>"

definition set_cursor :: "loc \<Rightarrow> u64 \<Rightarrow> desc_store \<Rightarrow> desc_store" where
  "set_cursor l c s = s\<lparr>cells := bt_adjust l (\<lambda>d. d\<lparr>desc_cursor := c\<rparr>) (cells s)\<rparr>"

text \<open>Reads through a location.  Every location an entry holds is allocated (\<open>wf_table\<close> below).\<close>

definition ref_count :: "desc_store \<Rightarrow> loc \<Rightarrow> nat" where
  "ref_count s l = (case bt_get (cells s) l of None \<Rightarrow> 0 | Some d \<Rightarrow> desc_ref_count d)"

definition id_of :: "desc_store \<Rightarrow> loc \<Rightarrow> u64" where
  "id_of s l = (case bt_get (cells s) l of None \<Rightarrow> 0 | Some d \<Rightarrow> desc_id d)"

definition flags_of :: "desc_store \<Rightarrow> loc \<Rightarrow> u32" where
  "flags_of s l = (case bt_get (cells s) l of None \<Rightarrow> 0 | Some d \<Rightarrow> desc_flags d)"

section \<open>One process's table\<close>

record fd_entry =
  fde_fd :: u32
  fde_description :: loc
  fde_status_flags :: u32
  fde_fd_flags :: u32
  fde_rights :: u64
  fde_filetype :: u8

record fd_stat =
  stat_filetype :: u8
  stat_flags :: u32
  stat_rights :: u64

record process_fd_table =
  pft_entries :: "(u32, fd_entry) btreemap"
  pft_next_fd :: u32
  pft_max_fds :: nat

definition new_table :: "nat \<Rightarrow> process_fd_table" where
  "new_table max_fds = \<lparr>pft_entries = bt_empty, pft_next_fd = 3, pft_max_fds = max_fds\<rparr>"

definition stdio_entry :: "u32 \<Rightarrow> loc \<Rightarrow> u8 \<Rightarrow> fd_entry" where
  "stdio_entry fd l ty = \<lparr>fde_fd = fd, fde_description = l, fde_status_flags = 0, fde_fd_flags = 0,
     fde_rights = 0, fde_filetype = ty\<rparr>"

definition init_stdio :: "loc \<Rightarrow> loc \<Rightarrow> loc \<Rightarrow> process_fd_table \<Rightarrow> process_fd_table" where
  "init_stdio stdin_desc stdout_desc stderr_desc t =
     t\<lparr>pft_entries :=
        bt_insert 2 (stdio_entry 2 stderr_desc FILETYPE_CHARACTER_DEVICE)
       (bt_insert 1 (stdio_entry 1 stdout_desc FILETYPE_CHARACTER_DEVICE)
       (bt_insert 0 (stdio_entry 0 stdin_desc FILETYPE_CHARACTER_DEVICE) (pft_entries t)))\<rparr>"

definition init_stdio_with_types ::
  "loc \<Rightarrow> u8 \<Rightarrow> loc \<Rightarrow> u8 \<Rightarrow> loc \<Rightarrow> u8 \<Rightarrow> desc_store \<Rightarrow> process_fd_table \<Rightarrow>
     desc_store \<times> process_fd_table" where
  "init_stdio_with_types stdin_desc stdin_type stdout_desc stdout_type stderr_desc stderr_type s t =
     (increment_ref_count stderr_desc (increment_ref_count stdout_desc
        (increment_ref_count stdin_desc s)),
      t\<lparr>pft_entries :=
        bt_insert 2 (stdio_entry 2 stderr_desc stderr_type)
       (bt_insert 1 (stdio_entry 1 stdout_desc stdout_type)
       (bt_insert 0 (stdio_entry 0 stdin_desc stdin_type) (pft_entries t)))\<rparr>)"

definition status_flags :: "u32 \<Rightarrow> u32" where
  "status_flags flags = flags AND ENTRY_STATUS_FLAG_MASK"

definition description_flags :: "u32 \<Rightarrow> u32" where
  "description_flags flags = flags AND NOT (status_flags flags)"

definition visible_fd_flags :: "u32 \<Rightarrow> u32 \<Rightarrow> u32" where
  "visible_fd_flags dflags eflags =
     (dflags AND (3 OR SHARED_STATUS_FLAG_MASK)) OR (eflags AND ENTRY_STATUS_FLAG_MASK)"

text \<open>The cyclic search: \<open>for offset in 0..max_fds\<close> with an early return is a \<open>find\<close>.\<close>

definition fd_candidates :: "process_fd_table \<Rightarrow> u32 list" where
  "fd_candidates t = map (\<lambda>offset. of_nat ((unat (pft_next_fd t) mod pft_max_fds t + offset)
     mod pft_max_fds t)) [0..<pft_max_fds t]"

definition allocate_fd :: "process_fd_table \<Rightarrow> fd_error + (u32 \<times> process_fd_table)" where
  "allocate_fd t =
     (if bt_len (pft_entries t) \<ge> pft_max_fds t then Inl Too_many_open_files
      else case List.find (\<lambda>c. \<not> bt_contains (pft_entries t) c) (fd_candidates t) of
        Some c \<Rightarrow> Inr (c, t\<lparr>pft_next_fd := saturating_succ c\<rparr>)
      | None \<Rightarrow> Inl Too_many_open_files)"

definition allocate_fd_from :: "u32 \<Rightarrow> process_fd_table \<Rightarrow> fd_error + (u32 \<times> process_fd_table)" where
  "allocate_fd_from min_fd t =
     (if bt_len (pft_entries t) \<ge> pft_max_fds t then Inl Too_many_open_files
      else if unat min_fd \<ge> pft_max_fds t then Inl (Fd_exceeds_limit min_fd)
      else case List.find (\<lambda>c. \<not> bt_contains (pft_entries t) c)
             (map of_nat [unat min_fd..<unat (of_nat (pft_max_fds t) :: u32)]) of
        Some c \<Rightarrow> Inr (c, t\<lparr>pft_next_fd := saturating_succ c\<rparr>)
      | None \<Rightarrow> Inl Too_many_open_files)"

definition validate_fd_bounds :: "u32 \<Rightarrow> process_fd_table \<Rightarrow> fd_error + unit" where
  "validate_fd_bounds fd t =
     (if unat fd \<ge> pft_max_fds t then Inl (Bad_file_descriptor fd) else Inr ())"

definition validate_fcntl_dup_min :: "u32 \<Rightarrow> process_fd_table \<Rightarrow> fd_error + u32" where
  "validate_fcntl_dup_min min_fd t =
     (if unat min_fd \<ge> pft_max_fds t then Inl (Fd_exceeds_limit min_fd) else Inr min_fd)"

type_synonym fd_outcome = "(fd_error + u32) \<times> desc_store \<times> process_fd_table"

definition open_with_details ::
  "string \<Rightarrow> u32 \<Rightarrow> u8 \<Rightarrow> lock_target option \<Rightarrow> desc_store \<Rightarrow> process_fd_table \<Rightarrow> fd_outcome" where
  "open_with_details path flags filetype lt s t =
     (case allocate_fd t of
        Inl e \<Rightarrow> (Inl e, s, t)
      | Inr (fd, t') \<Rightarrow>
          let (l, s') = allocate_with_lock path (description_flags flags) lt s in
          (Inr fd, s', t'\<lparr>pft_entries := bt_insert fd
             \<lparr>fde_fd = fd, fde_description = l, fde_status_flags = status_flags flags,
              fde_fd_flags = 0, fde_rights = 0, fde_filetype = filetype\<rparr> (pft_entries t')\<rparr>))"

definition open_fd :: "string \<Rightarrow> u32 \<Rightarrow> desc_store \<Rightarrow> process_fd_table \<Rightarrow> fd_outcome" where
  "open_fd path flags s t = open_with_details path flags FILETYPE_REGULAR_FILE None s t"

definition open_with_filetype ::
  "string \<Rightarrow> u32 \<Rightarrow> u8 \<Rightarrow> desc_store \<Rightarrow> process_fd_table \<Rightarrow> fd_outcome" where
  "open_with_filetype path flags filetype s t = open_with_details path flags filetype None s t"

definition open_with ::
  "loc \<Rightarrow> u8 \<Rightarrow> u32 option \<Rightarrow> desc_store \<Rightarrow> process_fd_table \<Rightarrow> fd_outcome" where
  "open_with l filetype target_fd s t =
     (case (case target_fd of
              Some fd \<Rightarrow> (case validate_fd_bounds fd t of Inl e \<Rightarrow> Inl e | Inr _ \<Rightarrow> Inr (fd, t))
            | None \<Rightarrow> allocate_fd t) of
        Inl e \<Rightarrow> (Inl e, s, t)
      | Inr (fd, t') \<Rightarrow>
          (Inr fd, increment_ref_count l s,
           t'\<lparr>pft_entries := bt_insert fd (stdio_entry fd l filetype) (pft_entries t')\<rparr>))"

definition close :: "u32 \<Rightarrow> desc_store \<Rightarrow> process_fd_table \<Rightarrow> bool \<times> desc_store \<times> process_fd_table"
  where
  "close fd s t =
     (case bt_get (pft_entries t) fd of
        None \<Rightarrow> (False, s, t)
      | Some e \<Rightarrow> (True, decrement_ref_count (fde_description e) s,
                   t\<lparr>pft_entries := bt_remove fd (pft_entries t)\<rparr>))"

definition duplicate_entry ::
  "fd_entry \<Rightarrow> u32 \<Rightarrow> u32 \<Rightarrow> u32 \<Rightarrow> desc_store \<Rightarrow> process_fd_table \<Rightarrow> fd_outcome" where
  "duplicate_entry e new_fd st_flags fl s t =
     (Inr new_fd, increment_ref_count (fde_description e) s,
      t\<lparr>pft_entries := bt_insert new_fd
         \<lparr>fde_fd = new_fd, fde_description = fde_description e, fde_status_flags = st_flags,
          fde_fd_flags = fl, fde_rights = fde_rights e, fde_filetype = fde_filetype e\<rparr>
         (pft_entries t)\<rparr>)"

definition dup_with_status_flags ::
  "u32 \<Rightarrow> u32 option \<Rightarrow> desc_store \<Rightarrow> process_fd_table \<Rightarrow> fd_outcome" where
  "dup_with_status_flags fd override s t =
     (case bt_get (pft_entries t) fd of
        None \<Rightarrow> (Inl (Bad_file_descriptor fd), s, t)
      | Some e \<Rightarrow>
          (case allocate_fd t of
             Inl err \<Rightarrow> (Inl err, s, t)
           | Inr (new_fd, t') \<Rightarrow>
               duplicate_entry e new_fd
                 (case override of None \<Rightarrow> fde_status_flags e | Some f \<Rightarrow> f) 0 s t'))"

definition dup :: "u32 \<Rightarrow> desc_store \<Rightarrow> process_fd_table \<Rightarrow> fd_outcome" where
  "dup fd s t = dup_with_status_flags fd None s t"

definition dup2 :: "u32 \<Rightarrow> u32 \<Rightarrow> desc_store \<Rightarrow> process_fd_table \<Rightarrow>
    (fd_error + unit) \<times> desc_store \<times> process_fd_table" where
  "dup2 old_fd new_fd s t =
     (case bt_get (pft_entries t) old_fd of
        None \<Rightarrow> (Inl (Bad_file_descriptor old_fd), s, t)
      | Some e \<Rightarrow>
          (case validate_fd_bounds new_fd t of
             Inl err \<Rightarrow> (Inl err, s, t)
           | Inr _ \<Rightarrow>
               if old_fd = new_fd then (Inr (), s, t)
               else
                 let (s1, t1) = (if bt_contains (pft_entries t) new_fd
                                 then snd (close new_fd s t) else (s, t));
                     (r, s2, t2) = duplicate_entry e new_fd (fde_status_flags e) 0 s1 t1
                 in (case r of Inl err \<Rightarrow> Inl err | Inr _ \<Rightarrow> Inr (), s2, t2)))"

definition stat_fd :: "u32 \<Rightarrow> desc_store \<Rightarrow> process_fd_table \<Rightarrow> fd_error + fd_stat" where
  "stat_fd fd s t =
     (case bt_get (pft_entries t) fd of
        None \<Rightarrow> Inl (Bad_file_descriptor fd)
      | Some e \<Rightarrow> Inr \<lparr>stat_filetype = fde_filetype e,
          stat_flags = visible_fd_flags (flags_of s (fde_description e)) (fde_status_flags e),
          stat_rights = fde_rights e\<rparr>)"

definition fcntl :: "u32 \<Rightarrow> u32 \<Rightarrow> u32 \<Rightarrow> desc_store \<Rightarrow> process_fd_table \<Rightarrow> fd_outcome" where
  "fcntl fd command arg s t =
     (if command = F_DUPFD then
        (case bt_get (pft_entries t) fd of
           None \<Rightarrow> (Inl (Bad_file_descriptor fd), s, t)
         | Some e \<Rightarrow>
             (case validate_fcntl_dup_min arg t of
                Inl err \<Rightarrow> (Inl err, s, t)
              | Inr min_fd \<Rightarrow>
                  (case allocate_fd_from min_fd t of
                     Inl err \<Rightarrow> (Inl err, s, t)
                   | Inr (new_fd, t') \<Rightarrow> duplicate_entry e new_fd (fde_status_flags e) 0 s t')))
      else if command = F_GETFD then
        (case bt_get (pft_entries t) fd of
           None \<Rightarrow> (Inl (Bad_file_descriptor fd), s, t)
         | Some e \<Rightarrow> (Inr (fde_fd_flags e AND FD_CLOEXEC), s, t))
      else if command = F_SETFD then
        (case bt_get (pft_entries t) fd of
           None \<Rightarrow> (Inl (Bad_file_descriptor fd), s, t)
         | Some e \<Rightarrow> (Inr 0, s, t\<lparr>pft_entries :=
             bt_insert fd (e\<lparr>fde_fd_flags := arg AND FD_CLOEXEC\<rparr>) (pft_entries t)\<rparr>))
      else if command = F_GETFL then
        (case bt_get (pft_entries t) fd of
           None \<Rightarrow> (Inl (Bad_file_descriptor fd), s, t)
         | Some e \<Rightarrow>
             (Inr (visible_fd_flags (flags_of s (fde_description e)) (fde_status_flags e)), s, t))
      else if command = F_SETFL then
        (case bt_get (pft_entries t) fd of
           None \<Rightarrow> (Inl (Bad_file_descriptor fd), s, t)
         | Some e \<Rightarrow>
             (Inr 0, update_flags (fde_description e) SHARED_STATUS_FLAG_MASK arg s,
              t\<lparr>pft_entries := bt_insert fd
                  (e\<lparr>fde_status_flags := arg AND ENTRY_STATUS_FLAG_MASK\<rparr>) (pft_entries t)\<rparr>))
      else (Inl (Unsupported_fcntl command), s, t))"

text \<open>\<open>fork\<close>: every entry is copied and the description it shares gains one reference.\<close>

definition fork_table :: "desc_store \<Rightarrow> process_fd_table \<Rightarrow> desc_store \<times> process_fd_table" where
  "fork_table s t =
     (fold (\<lambda>e. increment_ref_count (fde_description e)) (bt_values (pft_entries t)) s,
      (new_table (pft_max_fds t))\<lparr>pft_next_fd := pft_next_fd t,
         pft_entries := bt_map (\<lambda>fd e. e\<lparr>fde_fd := fd\<rparr>) (pft_entries t)\<rparr>)"

definition close_all :: "desc_store \<Rightarrow> process_fd_table \<Rightarrow> desc_store \<times> process_fd_table" where
  "close_all s t = fold (\<lambda>fd (s, t). snd (close fd s t)) (bt_keys (pft_entries t)) (s, t)"

section \<open>The manager of all tables\<close>

record stdio_override =
  so_description :: loc
  so_filetype :: u8

record fd_table_manager =
  ftm_tables :: "(u32, process_fd_table) btreemap"
  ftm_max_fds :: nat

definition with_max_fds :: "nat \<Rightarrow> fd_table_manager" where
  "with_max_fds max_fds = \<lparr>ftm_tables = bt_empty, ftm_max_fds = max_fds\<rparr>"

definition new_manager :: fd_table_manager where
  "new_manager = with_max_fds MAX_FDS_PER_PROCESS"

definition remove :: "u32 \<Rightarrow> desc_store \<Rightarrow> fd_table_manager \<Rightarrow> desc_store \<times> fd_table_manager" where
  "remove pid s m =
     (case bt_get (ftm_tables m) pid of
        None \<Rightarrow> (s, m)
      | Some t \<Rightarrow> (fst (close_all s t), m\<lparr>ftm_tables := bt_remove pid (ftm_tables m)\<rparr>))"

definition create :: "u32 \<Rightarrow> desc_store \<Rightarrow> fd_table_manager \<Rightarrow> desc_store \<times> fd_table_manager" where
  "create pid s m =
     (let t = new_table (ftm_max_fds m);
          (i, s) = allocate ''/dev/stdin'' O_RDONLY s;
          (out, s) = allocate ''/dev/stdout'' O_WRONLY s;
          (err, s) = allocate ''/dev/stderr'' O_WRONLY s;
          t = init_stdio i out err t;
          (s, m) = remove pid s m
      in (s, m\<lparr>ftm_tables := bt_insert pid t (ftm_tables m)\<rparr>))"

definition stdio_source ::
  "stdio_override option \<Rightarrow> string \<Rightarrow> u32 \<Rightarrow> desc_store \<Rightarrow> loc \<times> desc_store" where
  "stdio_source ov path flags s =
     (case ov of Some o' \<Rightarrow> (so_description o', s) | None \<Rightarrow> allocate path flags s)"

definition stdio_type :: "stdio_override option \<Rightarrow> u8" where
  "stdio_type ov =
     (case ov of Some o' \<Rightarrow> so_filetype o' | None \<Rightarrow> FILETYPE_CHARACTER_DEVICE)"

definition create_with_stdio ::
  "u32 \<Rightarrow> stdio_override option \<Rightarrow> stdio_override option \<Rightarrow> stdio_override option \<Rightarrow>
     desc_store \<Rightarrow> fd_table_manager \<Rightarrow> desc_store \<times> fd_table_manager" where
  "create_with_stdio pid stdin_ov stdout_ov stderr_ov s m =
     (let t = new_table (ftm_max_fds m);
          (i, s) = stdio_source stdin_ov ''/dev/stdin'' O_RDONLY s;
          (out, s) = stdio_source stdout_ov ''/dev/stdout'' O_WRONLY s;
          (err, s) = stdio_source stderr_ov ''/dev/stderr'' O_WRONLY s;
          (s, t) = init_stdio_with_types i (stdio_type stdin_ov) out (stdio_type stdout_ov)
                     err (stdio_type stderr_ov) s t;
          (s, m) = remove pid s m
      in (s, m\<lparr>ftm_tables := bt_insert pid t (ftm_tables m)\<rparr>))"

definition fork :: "u32 \<Rightarrow> u32 \<Rightarrow> desc_store \<Rightarrow> fd_table_manager \<Rightarrow> desc_store \<times> fd_table_manager"
  where
  "fork parent_pid child_pid s m =
     (case bt_get (ftm_tables m) parent_pid of
        None \<Rightarrow> create child_pid s m
      | Some parent \<Rightarrow>
          let (s, child) = fork_table s parent;
              (s, m) = remove child_pid s m
          in (s, m\<lparr>ftm_tables := bt_insert child_pid child (ftm_tables m)\<rparr>))"

definition total_open_fds :: "fd_table_manager \<Rightarrow> nat" where
  "total_open_fds m = bt_sum (\<lambda>t. bt_len (pft_entries t)) (ftm_tables m)"

text \<open>An operation on the table of process \<open>pid\<close>, obtained with \<open>get_mut\<close>.\<close>

definition with_table ::
  "u32 \<Rightarrow> (desc_store \<Rightarrow> process_fd_table \<Rightarrow> desc_store \<times> process_fd_table) \<Rightarrow>
     desc_store \<Rightarrow> fd_table_manager \<Rightarrow> desc_store \<times> fd_table_manager" where
  "with_table pid op s m =
     (case bt_get (ftm_tables m) pid of
        None \<Rightarrow> (s, m)
      | Some t \<Rightarrow> let (s', t') = op s t in (s', m\<lparr>ftm_tables := bt_insert pid t' (ftm_tables m)\<rparr>))"

section \<open>Allocation of descriptors\<close>

lemma fd_candidates_bound:
  assumes "pft_max_fds t \<le> 2 ^ 32" "c \<in> set (fd_candidates t)"
  shows "unat c < pft_max_fds t"
proof -
  obtain k where k: "k < pft_max_fds t"
    and c: "c = of_nat ((unat (pft_next_fd t) mod pft_max_fds t + k) mod pft_max_fds t)"
    using assms(2) by (auto simp: fd_candidates_def)
  let ?r = "(unat (pft_next_fd t) mod pft_max_fds t + k) mod pft_max_fds t"
  have "?r < pft_max_fds t" using k by simp
  with assms(1) show ?thesis by (simp add: c unat_of_nat)
qed

text \<open>The cyclic walk starting anywhere meets every descriptor below the limit.\<close>

lemma cyclic_walk_complete:
  fixes n :: nat
  assumes "start < n" "c < n"
  shows "\<exists>k < n. (start + k) mod n = c"
proof (cases "start \<le> c")
  case True
  with assms have "c - start < n \<and> (start + (c - start)) mod n = c" by simp
  then show ?thesis by blast
next
  case False
  with assms have "n - start + c < n \<and> (start + (n - start + c)) mod n = c" by simp
  then show ?thesis by blast
qed

lemma fd_candidates_complete:
  assumes "unat c < pft_max_fds t"
  shows "c \<in> set (fd_candidates t)"
proof -
  have "unat (pft_next_fd t) mod pft_max_fds t < pft_max_fds t" using assms by simp
  then obtain k where "k < pft_max_fds t"
    and "(unat (pft_next_fd t) mod pft_max_fds t + k) mod pft_max_fds t = unat c"
    using cyclic_walk_complete assms by blast
  then show ?thesis
    by (auto simp: fd_candidates_def image_iff intro!: bexI [of _ k])
qed

text \<open>Pigeonhole: a table with fewer entries than the limit has a free descriptor below it.\<close>

lemma free_fd_below_limit:
  assumes "pft_max_fds t \<le> 2 ^ 32" "bt_len (pft_entries t) < pft_max_fds t"
  shows "\<exists>c. unat c < pft_max_fds t \<and> \<not> bt_contains (pft_entries t) c"
proof (rule ccontr)
  assume *: "\<not> ?thesis"
  let ?below = "(of_nat :: nat \<Rightarrow> u32) ` {..<pft_max_fds t}"
  have "?below \<subseteq> {k. bt_contains (pft_entries t) k}"
    using * assms(1) by (auto simp: unat_of_nat)
  then have "card ?below \<le> bt_len (pft_entries t)"
    by (simp add: bt_len_card card_mono)
  moreover have "inj_on (of_nat :: nat \<Rightarrow> u32) {..<pft_max_fds t}"
    using assms(1) by (intro inj_onI) (simp add: of_nat_inject_word)
  then have "card ?below = pft_max_fds t" by (simp add: card_image)
  ultimately show False using assms(2) by simp
qed

lemma allocate_fd_Inr:
  assumes "allocate_fd t = Inr (fd, t')"
  shows "\<not> bt_contains (pft_entries t) fd" "fd \<in> set (fd_candidates t)"
    "t' = t\<lparr>pft_next_fd := saturating_succ fd\<rparr>"
  using assms by (auto simp: allocate_fd_def dest!: find_SomeD split: if_splits option.splits)

lemma allocate_fd_from_Inr:
  assumes "allocate_fd_from min_fd t = Inr (fd, t')"
  shows "\<not> bt_contains (pft_entries t) fd" "t' = t\<lparr>pft_next_fd := saturating_succ fd\<rparr>"
  using assms by (auto simp: allocate_fd_from_def dest!: find_SomeD split: if_splits option.splits)

lemma allocate_fd_InrD:
  "allocate_fd t = Inr (fd, t') \<Longrightarrow>
     \<not> bt_contains (pft_entries t) fd \<and> t' = t\<lparr>pft_next_fd := saturating_succ fd\<rparr>"
  "allocate_fd_from m t = Inr (fd, t') \<Longrightarrow>
     \<not> bt_contains (pft_entries t) fd \<and> t' = t\<lparr>pft_next_fd := saturating_succ fd\<rparr>"
  using allocate_fd_Inr allocate_fd_from_Inr by blast+

lemma allocate_fd_succeeds:
  assumes "pft_max_fds t \<le> 2 ^ 32" "bt_len (pft_entries t) < pft_max_fds t"
  shows "\<exists>fd. allocate_fd t = Inr (fd, t\<lparr>pft_next_fd := saturating_succ fd\<rparr>)"
proof -
  obtain c where c: "unat c < pft_max_fds t" "\<not> bt_contains (pft_entries t) c"
    using free_fd_below_limit [OF assms] by blast
  have "List.find (\<lambda>fd. \<not> bt_contains (pft_entries t) fd) (fd_candidates t) \<noteq> None"
    using fd_candidates_complete [OF c(1)] c(2) by (auto simp: find_None_iff)
  then show ?thesis using assms(2) by (auto simp: allocate_fd_def)
qed
lemma allocate_fd_entries [frame_simps]:
  "allocate_fd t = Inr (fd, t') \<Longrightarrow> pft_entries t' = pft_entries t"
  "allocate_fd_from m t = Inr (fd, t') \<Longrightarrow> pft_entries t' = pft_entries t"
  by (auto dest: allocate_fd_Inr(3) allocate_fd_from_Inr(2))

section \<open>Reference counts\<close>

definition table_refs :: "process_fd_table \<Rightarrow> loc \<Rightarrow> nat" where
  "table_refs t l = bt_sum (\<lambda>e. of_bool (fde_description e = l)) (pft_entries t)"

definition manager_refs :: "fd_table_manager \<Rightarrow> loc \<Rightarrow> nat" where
  "manager_refs m l = bt_sum (\<lambda>t. table_refs t l) (ftm_tables m)"

definition wf_store :: "desc_store \<Rightarrow> bool" where
  "wf_store s \<longleftrightarrow> (\<forall>l. bt_contains (cells s) l \<longrightarrow> l < next_loc s)"

text \<open>The invariant: a description's counter is the number of descriptors, in all tables, that hold
  it.\<close>

definition refs_ok :: "desc_store \<Rightarrow> fd_table_manager \<Rightarrow> bool" where
  "refs_ok s m \<longleftrightarrow> wf_store s \<and> (\<forall>l. ref_count s l = manager_refs m l)"

lemma ref_count_unallocated: "\<not> bt_contains (cells s) l \<Longrightarrow> ref_count s l = 0"
  by (simp add: ref_count_def bt_contains_def)

lemma ref_count_next_loc: "wf_store s \<Longrightarrow> ref_count s (next_loc s) = 0"
  by (rule ref_count_unallocated) (auto simp: wf_store_def)

lemma ref_count_increment [simp]:
  "ref_count (increment_ref_count l s) k =
     ref_count s k + of_bool (k = l \<and> bt_contains (cells s) l)"
  by (auto simp: ref_count_def increment_ref_count_def bt_contains_def split: option.splits)

lemma ref_count_decrement [simp]:
  "ref_count (decrement_ref_count l s) k = ref_count s k - of_bool (k = l)"
  by (auto simp: ref_count_def decrement_ref_count_def split: option.splits)

lemma ref_count_update_flags [simp]: "ref_count (update_flags l msk f s) k = ref_count s k"
  by (auto simp: ref_count_def update_flags_def split: option.splits)

lemma cells_increment [simp]:
  "bt_contains (cells (increment_ref_count l s)) k \<longleftrightarrow> bt_contains (cells s) k"
  "bt_contains (cells (decrement_ref_count l s)) k \<longleftrightarrow> bt_contains (cells s) k"
  "bt_contains (cells (update_flags l msk f s)) k \<longleftrightarrow> bt_contains (cells s) k"
  by (simp_all add: increment_ref_count_def decrement_ref_count_def update_flags_def)

lemma next_loc_frame [frame_simps, simp]:
  "next_loc (increment_ref_count l s) = next_loc s"
  "next_loc (decrement_ref_count l s) = next_loc s"
  "next_loc (update_flags l msk f s) = next_loc s"
  by (simp_all add: increment_ref_count_def decrement_ref_count_def update_flags_def)

lemma wf_store_frame [simp]:
  "wf_store (increment_ref_count l s) = wf_store s"
  "wf_store (decrement_ref_count l s) = wf_store s"
  "wf_store (update_flags l msk f s) = wf_store s"
  by (simp_all add: wf_store_def)

lemma allocate_with_lock_props:
  assumes "wf_store s" "allocate_with_lock path flags lt s = (l, s')"
  shows "wf_store s'" "l = next_loc s" "bt_contains (cells s') l"
    "ref_count s' k = ref_count s k + of_bool (k = l)"
    "bt_contains (cells s) k \<Longrightarrow> bt_contains (cells s') k"
  using assms ref_count_next_loc [OF assms(1)]
  by (auto simp: allocate_with_lock_def arc_new_def wf_store_def ref_count_def new_with_lock_def
      with_ref_count_and_lock_def bt_contains_def less_Suc_eq split: if_splits)

lemmas allocate_props = allocate_with_lock_props [of _ _ _ None, folded allocate_def]

lemma table_refs_insert:
  "table_refs (t\<lparr>pft_entries := bt_insert fd e (pft_entries t')\<rparr>) l
     + (case bt_get (pft_entries t') fd of None \<Rightarrow> 0 | Some e' \<Rightarrow> of_bool (fde_description e' = l))
   = table_refs t' l + of_bool (fde_description e = l)"
  using bt_sum_insert [of "\<lambda>e. of_bool (fde_description e = l)" fd e "pft_entries t'"]
  by (simp add: table_refs_def)

lemma table_refs_insert_new [simp]:
  "\<not> bt_contains (pft_entries t') fd \<Longrightarrow>
   table_refs (t\<lparr>pft_entries := bt_insert fd e (pft_entries t')\<rparr>) l
     = table_refs t' l + of_bool (fde_description e = l)"
  using table_refs_insert [of fd e t' t l] by (simp add: bt_contains_def)

lemma table_refs_same_description:
  assumes "bt_get (pft_entries t) fd = Some e" "fde_description e' = fde_description e"
  shows "table_refs (t\<lparr>pft_entries := bt_insert fd e' (pft_entries t)\<rparr>) l = table_refs t l"
  using table_refs_insert [of fd e' t t l] assms by simp

lemma table_refs_remove:
  assumes "bt_get (pft_entries t) fd = Some e"
  shows "table_refs (t\<lparr>pft_entries := bt_remove fd (pft_entries t)\<rparr>) l
    + of_bool (fde_description e = l) = table_refs t l"
  using bt_sum_remove_old [OF assms, of "\<lambda>e. of_bool (fde_description e = l)"]
  by (simp add: table_refs_def)

lemma table_refs_entry:
  "bt_get (pft_entries t) fd = Some e \<Longrightarrow> 1 \<le> table_refs t (fde_description e)"
  using bt_sum_ge [of "pft_entries t" fd e "\<lambda>e'. of_bool (fde_description e' = fde_description e)"]
  by (simp add: table_refs_def)

lemma table_refs_cong [simp]: "table_refs (t\<lparr>pft_next_fd := x\<rparr>) l = table_refs t l"
  by (simp add: table_refs_def)

section \<open>Table operations keep the counts in balance\<close>

text \<open>
  The interface between one table and the manager: an operation on a table is \<^emph>\<open>balanced\<close> when every
  counter changes by exactly the number of descriptors for that description the table gains or
  loses.  \<open>pre\<close> is what the caller must provide (a description argument is allocated, as an \<open>Arc\<close>
  always is).  The manager needs nothing else of an operation to keep all counters exact.
\<close>

locale balanced_table_op =
  fixes pre :: "desc_store \<Rightarrow> process_fd_table \<Rightarrow> bool"
    and op :: "desc_store \<Rightarrow> process_fd_table \<Rightarrow> desc_store \<times> process_fd_table"
  assumes op_wf: "pre s t \<Longrightarrow> wf_store s \<Longrightarrow> op s t = (s', t') \<Longrightarrow> wf_store s'"
    and op_balanced: "pre s t \<Longrightarrow> wf_store s \<Longrightarrow> (\<And>k. table_refs t k \<le> ref_count s k) \<Longrightarrow>
      op s t = (s', t') \<Longrightarrow> ref_count s' l + table_refs t l = ref_count s l + table_refs t' l"
begin

lemma with_table_refs_ok:
  assumes ok: "refs_ok s m" and pre: "\<And>t. bt_get (ftm_tables m) pid = Some t \<Longrightarrow> pre s t"
    and run: "with_table pid op s m = (s', m')"
  shows "refs_ok s' m'"
proof (cases "bt_get (ftm_tables m) pid")
  case None
  with ok run show ?thesis by (simp add: with_table_def)
next
  case (Some t)
  obtain s1 t1 where op: "op s t = (s1, t1)" by fastforce
  have s': "s' = s1" and m': "m' = m\<lparr>ftm_tables := bt_insert pid t1 (ftm_tables m)\<rparr>"
    using run Some op by (simp_all add: with_table_def)
  have wf: "wf_store s" and rc: "\<And>l. ref_count s l = manager_refs m l"
    using ok by (simp_all add: refs_ok_def)
  have le: "table_refs t k \<le> ref_count s k" for k
    using bt_sum_ge [OF Some, of "\<lambda>t. table_refs t k"] by (simp add: rc manager_refs_def)
  have "ref_count s' l = manager_refs m' l" for l
    using op_balanced [OF pre [OF Some] wf le op, of l] rc [of l]
      bt_sum_insert_old [OF Some, of "\<lambda>t. table_refs t l" t1]
    by (simp add: s' m' manager_refs_def)
  with op_wf [OF pre [OF Some] wf op] show ?thesis by (simp add: refs_ok_def s')
qed

end

lemma covered_contains:
  assumes "\<And>k. table_refs t k \<le> ref_count s k" "bt_get (pft_entries t) fd = Some e"
  shows "bt_contains (cells s) (fde_description e)"
  using assms(1) [of "fde_description e"] table_refs_entry [OF assms(2)]
    ref_count_unallocated [of s "fde_description e"] by fastforce

lemma close_balanced:
  assumes cov: "\<And>k. table_refs t k \<le> ref_count s k" and run: "close fd s t = (r, s', t')"
  shows "ref_count s' l + table_refs t l = ref_count s l + table_refs t' l"
proof (cases "bt_get (pft_entries t) fd")
  case None
  with run show ?thesis by (simp add: close_def)
next
  case (Some e)
  with run have "s' = decrement_ref_count (fde_description e) s"
    and "t' = t\<lparr>pft_entries := bt_remove fd (pft_entries t)\<rparr>"
    by (simp_all add: close_def)
  with cov [of l] table_refs_remove [OF Some, of l] table_refs_entry [OF Some]
  show ?thesis by (auto simp: of_bool_def split: if_splits)
qed

lemma close_wf: "close fd s t = (r, s', t') \<Longrightarrow> wf_store s' = wf_store s"
  by (auto simp: close_def split: option.splits)

lemma duplicate_entry_balanced:
  assumes "duplicate_entry e new_fd f g s t = (r, s', t')"
    and "bt_contains (cells s) (fde_description e)" "\<not> bt_contains (pft_entries t) new_fd"
  shows "ref_count s' l + table_refs t l = ref_count s l + table_refs t' l" "wf_store s' = wf_store s"
  using assms by (auto simp: duplicate_entry_def)

interpretation close_op: balanced_table_op "\<lambda>s t. True" "\<lambda>s t. snd (close fd s t)" for fd
proof
  show "wf_store s'" if "wf_store s" "snd (close fd s t) = (s', t')" for s t s' t'
    using that close_wf by (cases "close fd s t") auto
  show "ref_count s' l + table_refs t l = ref_count s l + table_refs t' l"
    if "\<And>k. table_refs t k \<le> ref_count s k" "snd (close fd s t) = (s', t')" for s t s' t' l
    using that close_balanced by (cases "close fd s t") auto
qed

interpretation open_op: balanced_table_op "\<lambda>s t. True"
  "\<lambda>s t. snd (open_with_details path flags ty lt s t)" for path flags ty lt
proof
  show "wf_store s'" if "wf_store s" "snd (open_with_details path flags ty lt s t) = (s', t')"
    for s t s' t'
    using that allocate_with_lock_props(1)
    by (auto simp: open_with_details_def split: sum.splits prod.splits)
  show "ref_count s' l + table_refs t l = ref_count s l + table_refs t' l"
    if "wf_store s" "snd (open_with_details path flags ty lt s t) = (s', t')" for s t s' t' l
    using that
    by (auto simp: open_with_details_def
        dest!: allocate_fd_InrD allocate_with_lock_props(4) [where k = l]
        split: sum.splits prod.splits)
qed

interpretation open_with_op: balanced_table_op
  "\<lambda>s t. bt_contains (cells s) l \<and> (\<forall>fd. target = Some fd \<longrightarrow> \<not> bt_contains (pft_entries t) fd)"
  "\<lambda>s t. snd (open_with l ty target s t)" for l ty target
proof
  show "wf_store s'" if "wf_store s" "snd (open_with l ty target s t) = (s', t')" for s t s' t'
    using that by (auto simp: open_with_def split: sum.splits prod.splits option.splits)
  show "ref_count s' k + table_refs t k = ref_count s k + table_refs t' k"
    if "bt_contains (cells s) l \<and> (\<forall>fd. target = Some fd \<longrightarrow> \<not> bt_contains (pft_entries t) fd)"
      "snd (open_with l ty target s t) = (s', t')" for s t s' t' k
    using that
    by (auto simp: open_with_def stdio_entry_def dest!: allocate_fd_InrD
        split: sum.splits prod.splits option.splits)
qed

interpretation dup_op: balanced_table_op "\<lambda>s t. True"
  "\<lambda>s t. snd (dup_with_status_flags fd override s t)" for fd override
proof
  show "wf_store s'" if "wf_store s" "snd (dup_with_status_flags fd override s t) = (s', t')"
    for s t s' t'
    using that by (auto simp: dup_with_status_flags_def duplicate_entry_def
        split: sum.splits prod.splits option.splits)
  show "ref_count s' l + table_refs t l = ref_count s l + table_refs t' l"
    if cov: "\<And>k. table_refs t k \<le> ref_count s k"
      and run: "snd (dup_with_status_flags fd override s t) = (s', t')" for s t s' t' l
    using run covered_contains [OF cov]
    by (auto simp: dup_with_status_flags_def duplicate_entry_def dest!: allocate_fd_InrD
        split: sum.splits prod.splits option.splits)
qed

text \<open>\<open>dup2\<close> over an open descriptor closes it first; the two halves balance separately.\<close>

lemma dup2_cases:
  assumes "dup2 old_fd new_fd s t = (r, s', t')"
  obtains "s' = s" "t' = t"
  | e s1 t1 where "bt_get (pft_entries t) old_fd = Some e" "old_fd \<noteq> new_fd"
      "(s1, t1) = snd (close new_fd s t)" "r = Inr ()"
      "duplicate_entry e new_fd (fde_status_flags e) 0 s1 t1 = (Inr new_fd, s', t')"
  using assms
  by (auto simp: dup2_def duplicate_entry_def close_def validate_fd_bounds_def bt_contains_def
      split: option.splits if_splits)

lemma close_entries: "close fd s t = (r, s', t') \<Longrightarrow> pft_entries t' = bt_remove fd (pft_entries t)"
  by (auto simp: close_def bt_remove_absent split: option.splits)

lemma close_cells: "close fd s t = (r, s', t') \<Longrightarrow> bt_contains (cells s') l = bt_contains (cells s) l"
  by (auto simp: close_def split: option.splits)

interpretation dup2_op: balanced_table_op "\<lambda>s t. True" "\<lambda>s t. snd (dup2 old_fd new_fd s t)"
  for old_fd new_fd
proof
  show "wf_store s'" if "wf_store s" "snd (dup2 old_fd new_fd s t) = (s', t')" for s t s' t'
    using that by (auto simp: dup2_def duplicate_entry_def close_def
        split: sum.splits option.splits if_splits)
  show "ref_count s' l + table_refs t l = ref_count s l + table_refs t' l"
    if cov: "\<And>k. table_refs t k \<le> ref_count s k"
      and run: "snd (dup2 old_fd new_fd s t) = (s', t')" for s t s' t' l
  proof -
    obtain r where "dup2 old_fd new_fd s t = (r, s', t')" using run by (cases "dup2 old_fd new_fd s t") auto
    then show ?thesis
    proof (cases rule: dup2_cases)
      case 1
      then show ?thesis by simp
    next
      case (2 e s1 t1)
      obtain c where c: "close new_fd s t = (c, s1, t1)" using 2(3) by (metis prod.collapse)
      have "ref_count s' l + table_refs t1 l = ref_count s1 l + table_refs t' l"
        using duplicate_entry_balanced(1) [OF 2(5)] covered_contains [OF cov 2(1)]
        by (simp add: close_entries [OF c] close_cells [OF c])
      with close_balanced [OF cov c, of l] show ?thesis by linarith
    qed
  qed
qed

interpretation fcntl_op: balanced_table_op "\<lambda>s t. True" "\<lambda>s t. snd (fcntl fd command arg s t)"
  for fd command arg
proof
  show "wf_store s'" if "wf_store s" "snd (fcntl fd command arg s t) = (s', t')" for s t s' t'
    using that by (auto simp: fcntl_def duplicate_entry_def
        split: sum.splits prod.splits option.splits if_splits)
  show "ref_count s' l + table_refs t l = ref_count s l + table_refs t' l"
    if cov: "\<And>k. table_refs t k \<le> ref_count s k"
      and run: "snd (fcntl fd command arg s t) = (s', t')" for s t s' t' l
    using run covered_contains [OF cov]
    by (auto simp: fcntl_def duplicate_entry_def table_refs_same_description dest!: allocate_fd_InrD
        split: sum.splits prod.splits option.splits if_splits)
qed

section \<open>Manager operations keep the counts exact\<close>

lemma balanced_covered:
  assumes "ref_count s' l + table_refs t l = ref_count s l + table_refs t' l"
    "table_refs t l \<le> ref_count s l"
  shows "table_refs t' l \<le> ref_count s' l"
  using assms by linarith

lemma fold_close:
  assumes "\<And>k. table_refs t k \<le> ref_count s k" "wf_store s"
    "fold (\<lambda>fd (s, t). snd (close fd s t)) fds (s, t) = (s', t')"
  shows "wf_store s' \<and> pft_entries t' = fold bt_remove fds (pft_entries t) \<and>
    (\<forall>l. ref_count s' l + table_refs t l = ref_count s l + table_refs t' l)"
  using assms
proof (induction fds arbitrary: s t)
  case Nil
  then show ?case by simp
next
  case (Cons fd fds)
  obtain r s1 t1 where c: "close fd s t = (r, s1, t1)" by (metis prod.exhaust)
  have bal: "ref_count s1 l + table_refs t l = ref_count s l + table_refs t1 l" for l
    by (rule close_balanced [OF Cons.prems(1) c])
  have "wf_store s' \<and> pft_entries t' = fold bt_remove fds (pft_entries t1) \<and>
    (\<forall>l. ref_count s' l + table_refs t1 l = ref_count s1 l + table_refs t' l)"
  proof (rule Cons.IH)
    show "table_refs t1 k \<le> ref_count s1 k" for k
      by (rule balanced_covered [OF bal Cons.prems(1)])
    show "wf_store s1" using Cons.prems(2) close_wf [OF c] by simp
    show "fold (\<lambda>fd (s, t). snd (close fd s t)) fds (s1, t1) = (s', t')"
      using Cons.prems(3) c by simp
  qed
  with bal show ?case
    by (auto simp: close_entries [OF c]) (metis add.assoc add.commute add_left_cancel)
qed

lemma bt_get_fold_remove:
  "bt_get (fold bt_remove ks m) k = (if k \<in> set ks then None else bt_get m k)"
  by (induction ks arbitrary: m) auto

lemma fold_remove_keys: "fold bt_remove (bt_keys m) m = bt_empty"
  by (rule bt_eqI) (auto simp: bt_get_fold_remove bt_contains_def)

lemma table_refs_empty: "pft_entries t = bt_empty \<Longrightarrow> table_refs t l = 0"
  by (simp add: table_refs_def)

lemma close_all_props:
  assumes "\<And>k. table_refs t k \<le> ref_count s k" "wf_store s" "close_all s t = (s', t')"
  shows "wf_store s'" "pft_entries t' = bt_empty" "ref_count s' l + table_refs t l = ref_count s l"
  using fold_close [OF assms(1,2), of "bt_keys (pft_entries t)" s' t'] assms(3)
  by (auto simp: close_all_def fold_remove_keys table_refs_empty)

lemma remove_props:
  assumes cov: "\<And>l. manager_refs m l \<le> ref_count s l" and wf: "wf_store s"
    and run: "remove pid s m = (s', m')"
  shows "wf_store s'" "bt_get (ftm_tables m') pid = None" "ftm_max_fds m' = ftm_max_fds m"
    "ref_count s' l + manager_refs m l = ref_count s l + manager_refs m' l"
proof -
  have "wf_store s' \<and> bt_get (ftm_tables m') pid = None \<and> ftm_max_fds m' = ftm_max_fds m \<and>
    ref_count s' l + manager_refs m l = ref_count s l + manager_refs m' l"
  proof (cases "bt_get (ftm_tables m) pid")
    case None
    with run wf show ?thesis by (simp add: remove_def)
  next
    case (Some t)
    obtain s1 t1 where c: "close_all s t = (s1, t1)" by fastforce
    have *: "table_refs t k \<le> ref_count s k" for k
      using bt_sum_ge [OF Some, of "\<lambda>t. table_refs t k"] cov [of k]
      unfolding manager_refs_def by linarith
    have "s' = s1" "m' = m\<lparr>ftm_tables := bt_remove pid (ftm_tables m)\<rparr>"
      using run Some c by (simp_all add: remove_def)
    with close_all_props(1) [OF * wf c] close_all_props(3) [OF * wf c, of l] bt_sum_remove_old [OF Some, of "\<lambda>t. table_refs t l"]
    show ?thesis by (simp add: manager_refs_def)
  qed
  then show "wf_store s'" "bt_get (ftm_tables m') pid = None" "ftm_max_fds m' = ftm_max_fds m"
    "ref_count s' l + manager_refs m l = ref_count s l + manager_refs m' l" by simp_all
qed

text \<open>Replacing the table of \<open>pid\<close> by one whose references are already counted.\<close>

lemma install_refs_ok:
  assumes rc: "\<And>l. ref_count s l = manager_refs m l + table_refs t l" and wf: "wf_store s"
    and run: "remove pid s m = (s', m')"
  shows "refs_ok s' (m'\<lparr>ftm_tables := bt_insert pid t (ftm_tables m')\<rparr>)"
proof -
  have cov: "manager_refs m l \<le> ref_count s l" for l by (simp add: rc)
  have "ref_count s' l = manager_refs m' l + table_refs t l" for l
    using remove_props(4) [OF cov wf run, of l] rc [of l] by linarith
  with remove_props(1,2) [OF cov wf run] show ?thesis
    by (simp add: refs_ok_def manager_refs_def bt_sum_insert_new)
qed

lemma remove_refs_ok: "refs_ok s m \<Longrightarrow> remove pid s m = (s', m') \<Longrightarrow> refs_ok s' m'"
  using remove_props [of m s pid s' m'] by (simp add: refs_ok_def)

lemma init_stdio_refs:
  "table_refs (init_stdio a b c (new_table n)) l =
     of_bool (a = l) + of_bool (b = l) + of_bool (c = l)"
  by (simp add: init_stdio_def new_table_def table_refs_def bt_sum_insert_new stdio_entry_def)

lemma create_refs_ok:
  assumes "refs_ok s m" "create pid s m = (s', m')"
  shows "refs_ok s' m'"
proof -
  have wf: "wf_store s" and rc: "\<And>l. ref_count s l = manager_refs m l"
    using assms(1) by (simp_all add: refs_ok_def)
  obtain a s1 where a: "allocate ''/dev/stdin'' O_RDONLY s = (a, s1)" by fastforce
  obtain b s2 where b: "allocate ''/dev/stdout'' O_WRONLY s1 = (b, s2)" by fastforce
  obtain c s3 where c: "allocate ''/dev/stderr'' O_WRONLY s2 = (c, s3)" by fastforce
  obtain s4 m4 where r: "remove pid s3 m = (s4, m4)" by fastforce
  note wf1 = allocate_props(1) [OF wf a]
  note wf2 = allocate_props(1) [OF wf1 b]
  have "ref_count s3 l = manager_refs m l + table_refs (init_stdio a b c (new_table (ftm_max_fds m))) l"
    for l
    using allocate_props(4) [OF wf a, of l] allocate_props(4) [OF wf1 b, of l]
      allocate_props(4) [OF wf2 c, of l] rc [of l]
    by (simp add: init_stdio_refs eq_commute [of _ l])
  from install_refs_ok [OF this allocate_props(1) [OF wf2 c] r] show ?thesis
    using assms(2) a b c r by (simp add: create_def)
qed

lemma bt_sum_map: "(\<And>k v. f (g k v) = f v) \<Longrightarrow> bt_sum f (bt_map g m) = bt_sum f m"
  by (simp add: bt_sum_def bt_values_def bt_map.rep_eq comp_def case_prod_unfold)

lemma fold_increment_refs:
  assumes "\<And>e. e \<in> set es \<Longrightarrow> bt_contains (cells s) (fde_description e)"
  shows "ref_count (fold (\<lambda>e. increment_ref_count (fde_description e)) es s) l
    = ref_count s l + sum_list (map (\<lambda>e. of_bool (fde_description e = l)) es)"
  using assms by (induction es arbitrary: s) auto

lemma fold_increment_wf:
  "wf_store (fold (\<lambda>e. increment_ref_count (fde_description e)) es s) = wf_store s"
  by (induction es arbitrary: s) simp_all

lemma fork_table_props:
  assumes "\<And>k. table_refs t k \<le> ref_count s k" "fork_table s t = (s', child)"
  shows "wf_store s' = wf_store s" "table_refs child l = table_refs t l"
    "ref_count s' l = ref_count s l + table_refs t l"
proof -
  have "bt_contains (cells s) (fde_description e)" if "e \<in> set (bt_values (pft_entries t))" for e
    using that covered_contains [OF assms(1)] by (auto simp: set_values_iff)
  from fold_increment_refs [of _ s l, OF this]
  show "ref_count s' l = ref_count s l + table_refs t l"
    using assms(2) by (auto simp: fork_table_def table_refs_def bt_sum_def)
  show "wf_store s' = wf_store s" "table_refs child l = table_refs t l"
    using assms(2) by (auto simp: fork_table_def fold_increment_wf table_refs_def bt_sum_map)
qed

lemma fork_refs_ok:
  assumes ok: "refs_ok s m" and run: "fork parent_pid child_pid s m = (s', m')"
  shows "refs_ok s' m'"
proof (cases "bt_get (ftm_tables m) parent_pid")
  case None
  with ok run create_refs_ok show ?thesis by (simp add: fork_def)
next
  case (Some t)
  obtain s1 child where f: "fork_table s t = (s1, child)" by fastforce
  obtain s2 m2 where r: "remove child_pid s1 m = (s2, m2)" by fastforce
  have rc: "ref_count s l = manager_refs m l" for l using ok by (simp add: refs_ok_def)
  have cov: "table_refs t k \<le> ref_count s k" for k
    using bt_sum_ge [OF Some, of "\<lambda>t. table_refs t k"] by (simp add: rc manager_refs_def)
  have "ref_count s1 l = manager_refs m l + table_refs child l" for l
    by (simp add: fork_table_props [OF cov f] rc)
  from install_refs_ok [OF this _ r] show ?thesis
    using run Some f r ok fork_table_props(1) [OF cov f] by (simp add: fork_def refs_ok_def)
qed

section \<open>The descriptor tables as a system\<close>

text \<open>
  The operations of the manager and, through \<open>get_mut\<close>, of the tables it holds.  \<open>New_arc\<close> is the
  creation of a description that no descriptor holds yet (the two ends of a pipe or terminal).
  \<open>Open_with\<close> takes an existing description; its target is a free descriptor or left to the table,
  as in every call the kernel makes.
\<close>

datatype fd_op =
    Create u32
  | Fork u32 u32
  | Remove u32
  | New_arc u64 string u32
  | Open u32 string u32 u8 "lock_target option"
  | Open_with u32 loc u8 "u32 option"
  | Dup u32 u32 "u32 option"
  | Dup2 u32 u32 u32
  | Close u32 u32
  | Fcntl u32 u32 u32 u32

fun fd_step :: "fd_op \<Rightarrow> desc_store \<times> fd_table_manager \<Rightarrow> desc_store \<times> fd_table_manager" where
  "fd_step (Create pid) (s, m) = create pid s m"
| "fd_step (Fork parent child) (s, m) = fork parent child s m"
| "fd_step (Remove pid) (s, m) = remove pid s m"
| "fd_step (New_arc i path flags) (s, m) = (snd (arc_new (with_ref_count i path flags 0) s), m)"
| "fd_step (Open pid path flags ty lt) (s, m) =
     with_table pid (\<lambda>s t. snd (open_with_details path flags ty lt s t)) s m"
| "fd_step (Open_with pid l ty target) (s, m) =
     with_table pid (\<lambda>s t. snd (open_with l ty target s t)) s m"
| "fd_step (Dup pid fd override) (s, m) =
     with_table pid (\<lambda>s t. snd (dup_with_status_flags fd override s t)) s m"
| "fd_step (Dup2 pid old_fd new_fd) (s, m) = with_table pid (\<lambda>s t. snd (dup2 old_fd new_fd s t)) s m"
| "fd_step (Close pid fd) (s, m) = with_table pid (\<lambda>s t. snd (close fd s t)) s m"
| "fd_step (Fcntl pid fd command arg) (s, m) =
     with_table pid (\<lambda>s t. snd (fcntl fd command arg s t)) s m"

fun fd_enabled :: "fd_op \<Rightarrow> desc_store \<times> fd_table_manager \<Rightarrow> bool" where
  "fd_enabled (Open_with pid l ty target) (s, m) =
     (bt_contains (cells s) l \<and>
      (case (target, bt_get (ftm_tables m) pid) of
         (Some fd, Some t) \<Rightarrow> \<not> bt_contains (pft_entries t) fd
       | _ \<Rightarrow> True))"
| "fd_enabled _ _ = True"

lemma New_arc_refs_ok:
  assumes "refs_ok s m"
  shows "refs_ok (snd (arc_new (with_ref_count i path flags 0) s)) m"
proof -
  have wf: "wf_store s" using assms by (simp add: refs_ok_def)
  have "ref_count (snd (arc_new (with_ref_count i path flags 0) s)) l = ref_count s l" for l
    using ref_count_next_loc [OF wf]
    by (simp add: arc_new_def ref_count_def with_ref_count_def with_ref_count_and_lock_def)
  with assms wf show ?thesis by (auto simp: refs_ok_def arc_new_def wf_store_def less_Suc_eq)
qed

lemma fd_step_refs_ok:
  assumes ok: "refs_ok s m" and en: "fd_enabled e (s, m)" and run: "fd_step e (s, m) = (s', m')"
  shows "refs_ok s' m'"
proof (cases e)
  case (Create pid)
  with run have "create pid s m = (s', m')" by simp
  with ok show ?thesis by (rule create_refs_ok)
next
  case (Fork parent child)
  with run have "fork parent child s m = (s', m')" by simp
  with ok show ?thesis by (rule fork_refs_ok)
next
  case (Remove pid)
  with run have "remove pid s m = (s', m')" by simp
  with ok show ?thesis by (rule remove_refs_ok)
next
  case (New_arc i path flags)
  with run New_arc_refs_ok [OF ok] show ?thesis by auto
next
  case (Open pid path flags ty lt)
  with run open_op.with_table_refs_ok [OF ok TrueI] show ?thesis by simp
next
  case (Open_with pid l ty target)
  with run en open_with_op.with_table_refs_ok [OF ok, of pid l target ty s' m'] show ?thesis
    by (auto split: option.splits)
next
  case (Dup pid fd override)
  with run dup_op.with_table_refs_ok [OF ok TrueI] show ?thesis by simp
next
  case (Dup2 pid old_fd new_fd)
  with run dup2_op.with_table_refs_ok [OF ok TrueI] show ?thesis by simp
next
  case (Close pid fd)
  with run close_op.with_table_refs_ok [OF ok TrueI] show ?thesis by simp
next
  case (Fcntl pid fd command arg)
  with run fcntl_op.with_table_refs_ok [OF ok TrueI] show ?thesis by simp
qed

interpretation fd_system: guarded_system "(new_store 1, with_max_fds n)" fd_enabled fd_step
  "\<lambda>(s, m). refs_ok s m" for n
proof
  show "case (new_store 1, with_max_fds n) of (s, m) \<Rightarrow> refs_ok s m"
    by (simp add: new_store_def with_max_fds_def refs_ok_def wf_store_def ref_count_def manager_refs_def)
  show "case fd_step e s of (s, m) \<Rightarrow> refs_ok s m"
    if "case s of (s, m) \<Rightarrow> refs_ok s m" "fd_enabled e s" for s e
    using that fd_step_refs_ok by (cases s, cases "fd_step e s") auto
qed

section \<open>Properties\<close>

text \<open>
  (C9) Reference counts are exact: after any sequence of creations, forks, removals, opens,
  duplications, closes and fcntl calls, by any number of processes, in which \<open>open_with\<close> is given no
  descriptor that is already open, the counter of every file description is the number of open
  descriptors, over all tables, that refer to it.  The kernel releases a pipe, terminal or lock exactly
  when this counter reaches zero.  \<open>create_with_stdio\<close>, which miscounts, is not among the operations.
\<close>

theorem ref_counts_exact:
  assumes "valid_run fd_enabled fd_step (new_store 1, with_max_fds n) ops"
    and "fold fd_step ops (new_store 1, with_max_fds n) = (s, m)"
  shows "ref_count s l = manager_refs m l"
  using fd_system.run_inv [OF assms(1)] assms(2) by (simp add: refs_ok_def)

theorem ref_counts_exact_witness:
  "\<exists>s m. fold fd_step [Create 1, Open 1 ''/a'' 2 4 None, Fork 1 2, Dup2 2 3 0, Close 1 3]
      (new_store 1, with_max_fds 8) = (s, m) \<and> manager_refs m 3 = 2 \<and> ref_count s 3 = 2"
proof -
  define ops where "ops = [Create 1, Open 1 ''/a'' 2 4 None, Fork 1 2, Dup2 2 3 0, Close 1 3]"
  have v: "valid_run fd_enabled fd_step (new_store 1, with_max_fds 8) ops"
    unfolding ops_def by code_simp
  have f: "manager_refs (snd (fold fd_step ops (new_store 1, with_max_fds 8))) 3 = 2"
    unfolding ops_def by code_simp
  obtain s m where r: "fold fd_step ops (new_store 1, with_max_fds 8) = (s, m)"
    by (metis surj_pair)
  have "manager_refs m 3 = 2" using f by (simp only: r snd_conv)
  moreover have "ref_count s 3 = manager_refs m 3" by (rule ref_counts_exact [OF v r])
  ultimately show ?thesis using r unfolding ops_def by metis
qed

text \<open>
  (C28) Descriptor allocation is complete and never hands out a descriptor in use: it fails exactly
  when the table has as many entries as the limit, and otherwise returns the first free descriptor below the limit that the
  cyclic search from \<open>next_fd\<close> meets, leaving the entries as they are.
\<close>

theorem allocate_fd_correct:
  assumes "pft_max_fds t \<le> 2 ^ 32"
  shows "case allocate_fd t of
      Inl e \<Rightarrow> e = Too_many_open_files \<and> pft_max_fds t \<le> bt_len (pft_entries t)
    | Inr (fd, t') \<Rightarrow> bt_len (pft_entries t) < pft_max_fds t \<and> unat fd < pft_max_fds t \<and>
        \<not> bt_contains (pft_entries t) fd \<and> pft_entries t' = pft_entries t \<and>
        (\<exists>k. fd = fd_candidates t ! k \<and> k < pft_max_fds t \<and>
             (\<forall>j < k. bt_contains (pft_entries t) (fd_candidates t ! j)))"
proof (cases "bt_len (pft_entries t) < pft_max_fds t")
  case False
  then show ?thesis by (simp add: allocate_fd_def)
next
  case True
  let ?free = "\<lambda>c. \<not> bt_contains (pft_entries t) c"
  obtain c where "unat c < pft_max_fds t" "?free c"
    using free_fd_below_limit [OF assms True] by blast
  then have "List.find ?free (fd_candidates t) \<noteq> None"
    using fd_candidates_complete [of c t] by (auto simp: find_None_iff)
  then obtain fd where fd: "List.find ?free (fd_candidates t) = Some fd" by blast
  then obtain k where "fd = fd_candidates t ! k" "k < length (fd_candidates t)"
      "\<forall>j < k. \<not> ?free (fd_candidates t ! j)"
    by (auto simp: find_Some_iff)
  moreover have "length (fd_candidates t) = pft_max_fds t" by (simp add: fd_candidates_def)
  ultimately show ?thesis
    using True fd fd_candidates_bound [OF assms] find_SomeD [OF fd]
    by (auto simp: allocate_fd_def)
qed

theorem allocate_fd_correct_witness:
  "\<exists>fd t'. allocate_fd ((new_table 4)\<lparr>pft_entries := bt_insert 3 (stdio_entry 3 0 4) bt_empty\<rparr>)
      = Inr (fd, t') \<and> unat fd < 4 \<and> fd = 0"
proof -
  define t where "t = (new_table 4)\<lparr>pft_entries := bt_insert 3 (stdio_entry 3 0 4) bt_empty\<rparr>"
  have h: "pft_max_fds t \<le> 2 ^ 32" by (simp add: t_def new_table_def)
  have e: "(case allocate_fd t of Inr (fd, t') \<Rightarrow> fd = 0 | Inl _ \<Rightarrow> False)"
    unfolding t_def by code_simp
  obtain fd t' where r: "allocate_fd t = Inr (fd, t')" "fd = 0"
    using e by (auto split: sum.splits prod.splits)
  have "unat fd < 4" using allocate_fd_correct [OF h] r by (simp add: t_def new_table_def)
  with r show ?thesis unfolding t_def by blast
qed

text \<open>
  (C37) \<open>dup2\<close>: when the source descriptor is open and the target is in range, the call succeeds, the
  target becomes a second descriptor for the same description with the same status flags and rights,
  its close-on-exec flag cleared (unless source and target are the same descriptor, which changes
  nothing), and no other descriptor is touched.
\<close>

theorem dup2_correct:
  assumes "bt_get (pft_entries t) old_fd = Some e" "unat new_fd < pft_max_fds t"
  shows "case dup2 old_fd new_fd s t of (r, s', t') \<Rightarrow>
    r = Inr () \<and>
    bt_get (pft_entries t') new_fd =
      Some (if new_fd = old_fd then e else e\<lparr>fde_fd := new_fd, fde_fd_flags := 0\<rparr>) \<and>
    (\<forall>fd. fd \<noteq> new_fd \<longrightarrow> bt_get (pft_entries t') fd = bt_get (pft_entries t) fd)"
  using assms
  by (auto simp: dup2_def duplicate_entry_def close_def validate_fd_bounds_def bt_contains_def
      Let_def split: option.splits)

theorem dup2_correct_witness:
  "case dup2 0 5 (new_store 1) ((new_table 8)\<lparr>pft_entries := bt_insert 0 (stdio_entry 0 7 2) bt_empty\<rparr>)
    of (r, s', t') \<Rightarrow> bt_get (pft_entries t') 5 = Some (stdio_entry 5 7 2)"
proof -
  let ?t = "(new_table 8)\<lparr>pft_entries := bt_insert 0 (stdio_entry 0 7 2) bt_empty\<rparr>"
  have "bt_get (pft_entries ?t) 0 = Some (stdio_entry 0 7 2)" "unat (5 :: u32) < pft_max_fds ?t"
    by (simp_all add: new_table_def)
  from dup2_correct [OF this, of "new_store 1"] show ?thesis
    by (auto simp: stdio_entry_def)
qed

text \<open>
  (C38) \<open>fork\<close> of an existing process gives the child exactly the parent's descriptors, sharing
  every description, and each description gains one reference per descriptor of the parent.
\<close>

theorem fork_shares_descriptions:
  assumes "refs_ok s m" "bt_get (ftm_tables m) parent = Some t"
    and "bt_get (ftm_tables m) child = None"
    and "fork parent child s m = (s', m')"
  shows "\<exists>t'. bt_get (ftm_tables m') child = Some t' \<and> bt_get (ftm_tables m') parent = Some t \<and>
    (\<forall>fd. bt_get (pft_entries t') fd = map_option (\<lambda>e. e\<lparr>fde_fd := fd\<rparr>) (bt_get (pft_entries t) fd)) \<and>
    (\<forall>l. ref_count s' l = ref_count s l + table_refs t l) \<and> refs_ok s' m'"
proof -
  obtain s1 t1 where f: "fork_table s t = (s1, t1)" by fastforce
  have cov: "table_refs t k \<le> ref_count s k" for k
    using bt_sum_ge [OF assms(2), of "\<lambda>t. table_refs t k"] assms(1)
    by (simp add: refs_ok_def manager_refs_def)
  have "pft_entries t1 = bt_map (\<lambda>fd e. e\<lparr>fde_fd := fd\<rparr>) (pft_entries t)"
    using f by (auto simp: fork_table_def)
  moreover have "s' = s1" "m' = m\<lparr>ftm_tables := bt_insert child t1 (ftm_tables m)\<rparr>"
    using assms(2-4) f by (simp_all add: fork_def remove_def)
  ultimately show ?thesis
    using fork_table_props(3) [OF cov f] assms(2,3) fork_refs_ok [OF assms(1,4)] by auto
qed

theorem fork_shares_descriptions_witness:
  "\<exists>s m s' m' t. bt_get (ftm_tables m) 1 = Some t \<and> fork 1 2 s m = (s', m') \<and>
     ref_count s 0 = 1 \<and> table_refs t 0 = 1 \<and> ref_count s' 0 = 2"
proof -
  obtain s m where r: "create 1 (new_store 1) (with_max_fds 8) = (s, m)" by fastforce
  have ok: "refs_ok s m"
    by (rule create_refs_ok [OF _ r])
       (simp add: new_store_def with_max_fds_def refs_ok_def wf_store_def ref_count_def manager_refs_def)
  have "ref_count (fst (create 1 (new_store 1) (with_max_fds 8))) 0 = 1" by code_simp
  then have s0: "ref_count s 0 = 1" by (simp add: r)
  have "case bt_get (ftm_tables (snd (create 1 (new_store 1) (with_max_fds 8)))) 1 of
      Some t \<Rightarrow> table_refs t 0 = 1 | None \<Rightarrow> False" by code_simp
  then obtain t where t: "bt_get (ftm_tables m) 1 = Some t" "table_refs t 0 = 1"
    by (auto simp: r split: option.splits)
  have "bt_get (ftm_tables (snd (create 1 (new_store 1) (with_max_fds 8)))) 2 = None" by code_simp
  then have n: "bt_get (ftm_tables m) 2 = None" by (simp add: r)
  obtain s' m' where f: "fork 1 2 s m = (s', m')" by fastforce
  from fork_shares_descriptions [OF ok t(1) n f] have "ref_count s' 0 = 2"
    by (auto simp: s0 t(2))
  with t s0 f show ?thesis by blast
qed

text \<open>
  Status flags: \<open>F_GETFL\<close> after \<open>F_SETFL\<close> reports the requested \<open>O_APPEND\<close> and \<open>O_NONBLOCK\<close>
  bits and the unchanged access mode; \<open>O_APPEND\<close> is seen through every descriptor of the
  description while \<open>O_NONBLOCK\<close> stays with the descriptor.
\<close>

theorem fcntl_setfl_getfl:
  assumes e: "bt_get (pft_entries t) fd = Some e" and d: "bt_get (cells s) (fde_description e) = Some d"
    and set: "fcntl fd F_SETFL arg s t = (r, s', t')"
    and e': "bt_get (pft_entries t) fd' = Some e'" "fde_description e' = fde_description e"
  shows "fst (fcntl fd' F_GETFL x s' t') = Inr ((desc_flags d AND 3) OR (arg AND O_APPEND) OR
    ((if fd' = fd then arg else fde_status_flags e') AND O_NONBLOCK))"
proof -
  have s': "s' = update_flags (fde_description e) SHARED_STATUS_FLAG_MASK arg s"
    and t': "t' = t\<lparr>pft_entries := bt_insert fd (e\<lparr>fde_status_flags := arg AND ENTRY_STATUS_FLAG_MASK\<rparr>)
      (pft_entries t)\<rparr>"
    using set e by (simp_all add: fcntl_def fd_consts)
  have fl: "flags_of s' (fde_description e) = (desc_flags d AND NOT O_APPEND) OR (arg AND O_APPEND)"
    using d by (simp add: s' flags_of_def update_flags_def SHARED_STATUS_FLAG_MASK_def)
  have "(3 :: u32) AND O_APPEND = 0" by (simp add: O_APPEND_def)
  then have "\<not> (bit (3 :: u32) n \<and> bit O_APPEND n)" for n
    by (metis bit_0_eq bit_and_iff bot_apply bot_bool_def)
  then have "(((desc_flags d AND NOT O_APPEND) OR (arg AND O_APPEND)) AND (3 OR O_APPEND)) =
      (desc_flags d AND 3) OR (arg AND O_APPEND)"
    by (intro bit_word_eqI) (auto simp: bit_and_iff bit_or_iff bit_not_iff)
  then have vis: "visible_fd_flags (flags_of s' (fde_description e)) y =
      (desc_flags d AND 3) OR (arg AND O_APPEND) OR (y AND O_NONBLOCK)" for y
    by (simp add: visible_fd_flags_def fl SHARED_STATUS_FLAG_MASK_def ENTRY_STATUS_FLAG_MASK_def or.assoc)
  show ?thesis
    using e' by (simp add: fcntl_def t' vis F_DUPFD_def F_GETFD_def F_SETFD_def F_GETFL_def
        ENTRY_STATUS_FLAG_MASK_def and.assoc)
qed

theorem fcntl_setfl_getfl_witness:
  "\<exists>s t r s' t'. fcntl 3 F_SETFL (O_APPEND OR O_NONBLOCK) s t = (r, s', t') \<and>
     fst (fcntl 4 F_GETFL 0 s' t') = Inr 0x402 \<and> fst (fcntl 3 F_GETFL 0 s' t') = Inr 0xC02"
proof -
  define d where "d = with_ref_count 1 ''/f'' O_RDWR 2"
  define s where "s = (new_store 2)\<lparr>cells := bt_insert 0 d bt_empty, next_loc := 1\<rparr>"
  define t where "t = (new_table 8)\<lparr>pft_entries :=
    bt_insert 4 (stdio_entry 4 0 4) (bt_insert 3 (stdio_entry 3 0 4) bt_empty)\<rparr>"
  obtain r s' t' where set: "fcntl 3 F_SETFL (O_APPEND OR O_NONBLOCK) s t = (r, s', t')"
    by (metis prod_cases3)
  have e: "bt_get (pft_entries t) 3 = Some (stdio_entry 3 0 4)"
      "bt_get (pft_entries t) 4 = Some (stdio_entry 4 0 4)"
    and d: "bt_get (cells s) (fde_description (stdio_entry 3 0 4)) = Some d"
    by (simp_all add: t_def s_def stdio_entry_def)
  have f: "desc_flags d = 2" by (simp add: d_def with_ref_count_def with_ref_count_and_lock_def O_RDWR_def)
  show ?thesis
    using set fcntl_setfl_getfl [OF e(1) d set e(2), of 0] fcntl_setfl_getfl [OF e(1) d set e(1), of 0]
    by (intro exI [of _ s] exI [of _ t] exI [of _ r] exI [of _ s'] exI [of _ t'])
       (simp add: f stdio_entry_def O_APPEND_def O_NONBLOCK_def)
qed

text \<open>
  \<open>create_with_stdio\<close> with no overrides leaves every standard stream with one reference too many:
  the three fresh descriptions start with a count of one and \<open>init_stdio_with_types\<close> increments them
  again, so that each is held by one descriptor and counted twice and closing the descriptor can
  never bring the counter to zero.
\<close>

theorem create_with_stdio_leaks_references:
  assumes "refs_ok s m" "create_with_stdio pid None None None s m = (s', m')"
    and "bt_get (ftm_tables m) pid = None"
  shows "\<forall>l \<in> {next_loc s, next_loc s + 1, next_loc s + 2}.
    manager_refs m' l = 1 \<and> ref_count s' l = 2"
proof -
  have wf: "wf_store s" and rc: "\<And>l. ref_count s l = manager_refs m l"
    using assms(1) by (simp_all add: refs_ok_def)
  obtain a s1 where a: "allocate ''/dev/stdin'' O_RDONLY s = (a, s1)" by fastforce
  obtain b s2 where b: "allocate ''/dev/stdout'' O_WRONLY s1 = (b, s2)" by fastforce
  obtain c s3 where c: "allocate ''/dev/stderr'' O_WRONLY s2 = (c, s3)" by fastforce
  note A = allocate_props [OF wf a] and B = allocate_props [OF allocate_props(1) [OF wf a] b]
    and C = allocate_props [OF allocate_props(1) [OF allocate_props(1) [OF wf a] b] c]
  have locs: "a = next_loc s" "b = next_loc s + 1" "c = next_loc s + 2"
    using A(2) B(2) C(2) a b by (auto simp: allocate_def allocate_with_lock_def arc_new_def)
  have zero: "manager_refs m l = 0" if "l \<ge> next_loc s" for l
  proof -
    have "\<not> bt_contains (cells s) l" using that wf by (auto simp: wf_store_def)
    from ref_count_unallocated [OF this] show ?thesis by (simp add: rc)
  qed
  have s': "s' = increment_ref_count c (increment_ref_count b (increment_ref_count a s3))"
    and m': "m' = m\<lparr>ftm_tables := bt_insert pid (init_stdio a b c (new_table (ftm_max_fds m))) (ftm_tables m)\<rparr>"
    using assms(2,3) a b c
    by (simp_all add: create_with_stdio_def stdio_source_def stdio_type_def init_stdio_with_types_def
        init_stdio_def remove_def Let_def)
  have "manager_refs m' l = manager_refs m l + table_refs (init_stdio a b c (new_table (ftm_max_fds m))) l"
    for l using assms(3) by (simp add: m' manager_refs_def bt_sum_insert_new)
  moreover have "bt_contains (cells s3) a" "bt_contains (cells s3) b" "bt_contains (cells s3) c"
    using A(3) B(3,5) C(3,5) by auto
  ultimately show ?thesis
    using locs zero by (simp add: init_stdio_refs s' A(4) B(4) C(4) rc)
qed

theorem create_with_stdio_leaks_references_witness:
  "\<exists>s' m'. create_with_stdio 1 None None None (new_store 1) (with_max_fds 8) = (s', m') \<and>
     manager_refs m' 0 = 1 \<and> ref_count s' 0 = 2"
proof -
  obtain s' m' where r: "create_with_stdio 1 None None None (new_store 1) (with_max_fds 8) = (s', m')"
    by fastforce
  have "refs_ok (new_store 1) (with_max_fds 8)"
    by (simp add: new_store_def with_max_fds_def refs_ok_def wf_store_def ref_count_def manager_refs_def)
  from create_with_stdio_leaks_references [OF this r] r show ?thesis
    by (simp add: new_store_def with_max_fds_def)
qed

end
