(* ===== verification/File_Lock.thy ===== *)
theory File_Lock
  imports Fd_Table
begin

text \<open>
  Advisory file locks: \<open>FlockOperation\<close> and \<open>FileLockManager\<close> of \<open>crates/kernel/src/fd_table.rs\<close>.
  The owner of a lock is a file description (its id), the target an inode number.  A blocking
  \<open>acquire\<close> is a loop around a condition variable; the model is one pass of that loop, which runs
  under the manager's mutex, with \<open>None\<close> for "wait and try again".
\<close>

section \<open>Definitions\<close>

definition LOCK_SH :: u32 where "LOCK_SH = 1"
definition LOCK_EX :: u32 where "LOCK_EX = 2"
definition LOCK_NB :: u32 where "LOCK_NB = 4"
definition LOCK_UN :: u32 where "LOCK_UN = 8"

datatype file_lock_mode = Shared | Exclusive

datatype flock_operation = Flock_shared bool | Flock_exclusive bool | Flock_unlock

definition from_bits :: "u32 \<Rightarrow> fd_error + flock_operation" where
  "from_bits operation =
     (let nonblocking = (operation AND LOCK_NB \<noteq> 0);
          kind = operation AND NOT LOCK_NB
      in if kind = LOCK_SH then Inr (Flock_shared nonblocking)
         else if kind = LOCK_EX then Inr (Flock_exclusive nonblocking)
         else if kind = LOCK_UN then Inr Flock_unlock
         else Inl (Invalid_flock operation))"

record file_lock_entry =
  shared :: "u64 set"
  exclusive :: "u64 option"

type_synonym file_lock_state = "(lock_target, file_lock_entry) btreemap"

definition default_entry :: file_lock_entry where
  "default_entry = \<lparr>shared = {}, exclusive = None\<rparr>"

definition can_grant :: "u64 \<Rightarrow> file_lock_mode \<Rightarrow> file_lock_entry \<Rightarrow> bool" where
  "can_grant owner_id mode e =
     (case mode of
        Shared \<Rightarrow> exclusive e = None \<or> exclusive e = Some owner_id
      | Exclusive \<Rightarrow> (exclusive e = None \<or> exclusive e = Some owner_id) \<and>
          (\<forall>owner \<in> shared e. owner = owner_id))"

definition grant :: "u64 \<Rightarrow> file_lock_mode \<Rightarrow> file_lock_entry \<Rightarrow> file_lock_entry" where
  "grant owner_id mode e =
     (case mode of
        Shared \<Rightarrow> e\<lparr>exclusive := None, shared := insert owner_id (shared e)\<rparr>
      | Exclusive \<Rightarrow> e\<lparr>shared := shared e - {owner_id}, exclusive := Some owner_id\<rparr>)"

definition is_empty :: "file_lock_entry \<Rightarrow> bool" where
  "is_empty e \<longleftrightarrow> exclusive e = None \<and> shared e = {}"

definition entry_or_default :: "file_lock_state \<Rightarrow> lock_target \<Rightarrow> file_lock_entry" where
  "entry_or_default st target = (case bt_get st target of None \<Rightarrow> default_entry | Some e \<Rightarrow> e)"

definition acquire ::
  "u64 \<Rightarrow> lock_target \<Rightarrow> file_lock_mode \<Rightarrow> bool \<Rightarrow> file_lock_state \<Rightarrow>
     (fd_error + unit) option \<times> file_lock_state" where
  "acquire owner_id target mode nonblocking st =
     (let e = entry_or_default st target;
          st = bt_insert target e st
      in if can_grant owner_id mode e
         then (Some (Inr ()), bt_insert target (grant owner_id mode e) st)
         else if nonblocking then (Some (Inl Lock_unavailable), st)
         else (None, st))"

text \<open>The closure of \<open>retain\<close> in \<open>release_owner\<close>: the entry without the owner, and whether it held it.\<close>

definition strip_owner :: "u64 \<Rightarrow> file_lock_entry \<Rightarrow> file_lock_entry" where
  "strip_owner owner_id e =
     e\<lparr>shared := shared e - {owner_id},
       exclusive := (if exclusive e = Some owner_id then None else exclusive e)\<rparr>"

definition held_by :: "u64 \<Rightarrow> file_lock_entry \<Rightarrow> bool" where
  "held_by owner_id e \<longleftrightarrow> owner_id \<in> shared e \<or> exclusive e = Some owner_id"

definition release_owner :: "u64 \<Rightarrow> file_lock_state \<Rightarrow> bool \<times> file_lock_state" where
  "release_owner owner_id st =
     (list_ex (held_by owner_id) (bt_values st),
      bt_filter (\<lambda>_ e. \<not> is_empty e) (bt_map (\<lambda>_. strip_owner owner_id) st))"

definition apply_lock ::
  "u64 \<Rightarrow> lock_target \<Rightarrow> flock_operation \<Rightarrow> file_lock_state \<Rightarrow>
     (fd_error + unit) option \<times> file_lock_state" where
  "apply_lock owner_id target operation st =
     (case operation of
        Flock_shared nonblocking \<Rightarrow> acquire owner_id target Shared nonblocking st
      | Flock_exclusive nonblocking \<Rightarrow> acquire owner_id target Exclusive nonblocking st
      | Flock_unlock \<Rightarrow> (Some (Inr ()), snd (release_owner owner_id st)))"

section \<open>What a lock table means\<close>

text \<open>
  The contract of \<open>flock\<close>: who holds which target in which mode.  \<open>compatible\<close> says when a request may
  be granted beside the locks of the other owners.
\<close>

definition holds :: "file_lock_state \<Rightarrow> lock_target \<Rightarrow> u64 \<Rightarrow> file_lock_mode \<Rightarrow> bool" where
  "holds st target owner mode =
     (case bt_get st target of
        None \<Rightarrow> False
      | Some e \<Rightarrow> (case mode of Shared \<Rightarrow> owner \<in> shared e | Exclusive \<Rightarrow> exclusive e = Some owner))"

definition compatible :: "file_lock_state \<Rightarrow> lock_target \<Rightarrow> u64 \<Rightarrow> file_lock_mode \<Rightarrow> bool" where
  "compatible st target owner mode \<longleftrightarrow>
     (\<forall>other. other \<noteq> owner \<longrightarrow> \<not> holds st target other Exclusive \<and>
        (mode = Exclusive \<longrightarrow> \<not> holds st target other Shared))"

definition lock_inv :: "file_lock_state \<Rightarrow> bool" where
  "lock_inv st \<longleftrightarrow> (\<forall>target e. bt_get st target = Some e \<longrightarrow>
     \<not> is_empty e \<and> (exclusive e \<noteq> None \<longrightarrow> shared e = {}))"

lemma lock_invD:
  "lock_inv st \<Longrightarrow> bt_get st target = Some e \<Longrightarrow> \<not> is_empty e \<and> (exclusive e \<noteq> None \<longrightarrow> shared e = {})"
  by (auto simp: lock_inv_def)

lemma free_or_own: "x = None \<or> x = Some a \<longleftrightarrow> (\<forall>b. b \<noteq> a \<longrightarrow> x \<noteq> Some b)"
  by (cases x) auto

lemma can_grant_iff_compatible:
  "can_grant owner mode (entry_or_default st target) \<longleftrightarrow> compatible st target owner mode"
  unfolding can_grant_def free_or_own
  by (auto simp: entry_or_default_def default_entry_def compatible_def holds_def
      split: file_lock_mode.splits option.splits)

lemma refused_entry_present:
  "\<not> can_grant owner mode (entry_or_default st target) \<Longrightarrow>
     bt_insert target (entry_or_default st target) st = st"
  by (auto simp: entry_or_default_def default_entry_def can_grant_def bt_insert_idem
      split: option.splits file_lock_mode.splits)

lemma acquire_refused:
  "\<not> compatible st target owner mode \<Longrightarrow>
     acquire owner target mode nb st = (if nb then Some (Inl Lock_unavailable) else None, st)"
  by (simp add: acquire_def refused_entry_present flip: can_grant_iff_compatible)

lemma acquire_granted:
  "compatible st target owner mode \<Longrightarrow>
     acquire owner target mode nb st =
       (Some (Inr ()), bt_insert target (grant owner mode (entry_or_default st target)) st)"
  by (simp add: acquire_def flip: can_grant_iff_compatible)

lemma lock_inv_entry_or_default:
  "lock_inv st \<Longrightarrow> exclusive (entry_or_default st target) \<noteq> None \<longrightarrow>
     shared (entry_or_default st target) = {}"
  by (auto simp: entry_or_default_def default_entry_def dest: lock_invD split: option.splits)

lemma grant_inv:
  assumes "can_grant owner mode e" "exclusive e \<noteq> None \<longrightarrow> shared e = {}"
  shows "\<not> is_empty (grant owner mode e)"
    "exclusive (grant owner mode e) \<noteq> None \<longrightarrow> shared (grant owner mode e) = {}"
  using assms by (auto simp: can_grant_def grant_def is_empty_def split: file_lock_mode.splits)

lemma acquire_inv:
  assumes "lock_inv st" "acquire owner target mode nb st = (r, st')"
  shows "lock_inv st'"
proof (cases "compatible st target owner mode")
  case False
  with assms show ?thesis by (simp add: acquire_refused)
next
  case True
  let ?e = "entry_or_default st target"
  have "st' = bt_insert target (grant owner mode ?e) st"
    using assms(2) True by (simp add: acquire_granted)
  moreover have "can_grant owner mode ?e" using True by (simp add: can_grant_iff_compatible)
  note grant_inv [OF this lock_inv_entry_or_default [OF assms(1)]]
  ultimately show ?thesis using assms(1) by (simp add: lock_inv_def)
qed

lemma strip_owner_simps [simp]:
  "shared (strip_owner o' e) = shared e - {o'}"
  "exclusive (strip_owner o' e) = (if exclusive e = Some o' then None else exclusive e)"
  by (simp_all add: strip_owner_def)

lemma release_inv: "lock_inv st \<Longrightarrow> lock_inv (snd (release_owner owner st))"
  by (auto simp: lock_inv_def release_owner_def split: option.splits if_splits)

lemma apply_lock_inv:
  assumes "lock_inv st"
  shows "lock_inv (snd (apply_lock owner target operation st))"
  using acquire_inv [OF assms, OF prod.collapse [symmetric]] release_inv [OF assms]
  by (auto simp: apply_lock_def split: flock_operation.splits)

text \<open>
  Attempts of any number of threads interleave in any order: a run is a sequence of attempts, where
  an attempt that waits leaves the table as it was and is made again later.
\<close>

datatype lock_op = Attempt u64 lock_target flock_operation | Release_all u64

fun lock_step :: "lock_op \<Rightarrow> file_lock_state \<Rightarrow> file_lock_state" where
  "lock_step (Attempt owner target operation) st = snd (apply_lock owner target operation st)"
| "lock_step (Release_all owner) st = snd (release_owner owner st)"

interpretation lock_system: guarded_system bt_empty "\<lambda>_ _. True" lock_step lock_inv
proof
  show "lock_inv bt_empty" by (simp add: lock_inv_def)
  show "lock_inv (lock_step e st)" if "lock_inv st" for st e
    using that by (cases e) (simp_all add: apply_lock_inv release_inv)
qed

lemma valid_run_trivial [simp]: "valid_run (\<lambda>_ _. True) step s es"
  by (induction es arbitrary: s) simp_all

section \<open>Properties\<close>

text \<open>
  (C29) Mutual exclusion: whatever sequence of lock requests, unlocks and descriptor closings the
  processes make, an exclusive holder of a file is its only holder, in either mode.
\<close>

theorem exclusive_lock_is_sole_holder:
  assumes "holds (fold lock_step ops bt_empty) target owner Exclusive"
    and "holds (fold lock_step ops bt_empty) target other mode"
  shows "other = owner \<and> mode = Exclusive"
proof -
  have "lock_inv (fold lock_step ops bt_empty)" by (rule lock_system.run_inv) simp
  with assms show ?thesis
    by (auto simp: holds_def dest: lock_invD split: option.splits file_lock_mode.splits)
qed

theorem exclusive_lock_is_sole_holder_witness:
  "\<exists>st. st = fold lock_step [Attempt 1 7 (Flock_shared True), Attempt 1 7 (Flock_exclusive True),
      Attempt 2 7 (Flock_shared True)] bt_empty \<and> holds st 7 1 Exclusive \<and> \<not> holds st 7 2 Shared"
proof -
  let ?ops = "[Attempt 1 7 (Flock_shared True), Attempt 1 7 (Flock_exclusive True),
      Attempt 2 7 (Flock_shared True)]"
  have h: "holds (fold lock_step ?ops bt_empty) 7 1 Exclusive"
    by (simp add: apply_lock_def acquire_def entry_or_default_def default_entry_def can_grant_def
        grant_def holds_def)
  then have "\<not> holds (fold lock_step ?ops bt_empty) 7 2 Shared"
    using exclusive_lock_is_sole_holder [OF h] by blast
  with h show ?thesis by blast
qed

text \<open>
  (C39) \<open>flock\<close> implements its contract: a request is granted at once exactly when it is compatible
  with the locks other owners hold on that file; a grant gives the owner the lock in the requested
  mode in place of what it held there and changes nothing else; a refusal changes nothing, reports
  \<open>EWOULDBLOCK\<close> when non-blocking and waits otherwise.
\<close>

theorem acquire_refines_flock:
  assumes "lock_inv st" "acquire owner target mode nb st = (r, st')"
  shows "if compatible st target owner mode
    then r = Some (Inr ()) \<and>
      (\<forall>t w md. holds st' t w md \<longleftrightarrow> (if t = target \<and> w = owner then md = mode else holds st t w md))
    else r = (if nb then Some (Inl Lock_unavailable) else None) \<and> st' = st"
proof (cases "compatible st target owner mode")
  case False
  with assms(2) show ?thesis by (simp add: acquire_refused)
next
  case True
  have st': "r = Some (Inr ())" "st' = bt_insert target (grant owner mode (entry_or_default st target)) st"
    using assms(2) True by (simp_all add: acquire_granted)
  have here: "holds st' target w md \<longleftrightarrow> (if w = owner then md = mode else holds st target w md)" for w md
    using True lock_inv_entry_or_default [OF assms(1), of target]
    unfolding st' compatible_def holds_def
    by (cases "bt_get st target"; cases md; cases mode)
       (auto simp: grant_def entry_or_default_def default_entry_def)
  have away: "holds st' t w md \<longleftrightarrow> holds st t w md" if "t \<noteq> target" for t w md
    using that by (simp add: st' holds_def)
  have "holds st' t w md \<longleftrightarrow> (if t = target \<and> w = owner then md = mode else holds st t w md)" for t w md
    by (cases "t = target") (simp_all add: here away)
  with True st'(1) show ?thesis by simp
qed

theorem acquire_refines_flock_witness:
  "\<exists>st r st'. acquire 2 7 Exclusive True st = (r, st') \<and> r = Some (Inl Lock_unavailable) \<and> st' = st \<and>
     holds st 7 1 Shared"
proof -
  define st where "st = bt_insert (7 :: u64) \<lparr>shared = {1}, exclusive = None\<rparr> bt_empty"
  obtain r st' where run: "acquire 2 7 Exclusive True st = (r, st')" by fastforce
  have inv: "lock_inv st" by (auto simp: st_def lock_inv_def is_empty_def split: if_splits)
  have h: "holds st 7 1 Shared" by (simp add: st_def holds_def)
  have "\<not> compatible st 7 2 Exclusive"
    using h unfolding compatible_def by (intro notI) (drule spec [of _ 1], simp)
  with acquire_refines_flock [OF inv run] run h show ?thesis by auto
qed

text \<open>
  Releasing an owner (an unlock, or the last close of its description) frees all its locks, leaves
  those of the others, and reports whether there was anything to release; afterwards a request that
  only this owner stood in the way of is granted.
\<close>

theorem release_owner_frees:
  assumes "release_owner owner st = (released, st')"
  shows "(released \<longleftrightarrow> (\<exists>t md. holds st t owner md)) \<and>
    (\<forall>t w md. holds st' t w md \<longleftrightarrow> w \<noteq> owner \<and> holds st t w md) \<and>
    (\<forall>t w md. (\<forall>other. other \<noteq> owner \<longrightarrow> other \<noteq> w \<longrightarrow> \<not> holds st t other Exclusive \<and> \<not> holds st t other Shared)
       \<longrightarrow> fst (acquire w t md False st') = Some (Inr ()))"
proof -
  have st': "st' = bt_filter (\<lambda>_ e. \<not> is_empty e) (bt_map (\<lambda>_. strip_owner owner) st)"
    and rel: "released \<longleftrightarrow> list_ex (held_by owner) (bt_values st)"
    using assms by (auto simp: release_owner_def)
  have 1: "holds st' t w md \<longleftrightarrow> w \<noteq> owner \<and> holds st t w md" for t w md
    by (auto simp: st' holds_def is_empty_def split: option.splits file_lock_mode.splits if_splits)
  have 2: "released \<longleftrightarrow> (\<exists>t md. holds st t owner md)"
  proof
    assume released
    then obtain t e where e: "bt_get st t = Some e" "held_by owner e"
      by (auto simp: rel list_ex_iff set_values_iff)
    then have "holds st t owner Shared \<or> holds st t owner Exclusive"
      by (auto simp: held_by_def holds_def)
    then show "\<exists>t md. holds st t owner md" by blast
  next
    assume "\<exists>t md. holds st t owner md"
    then obtain t md where h: "holds st t owner md" by blast
    then obtain e where "bt_get st t = Some e" by (auto simp: holds_def split: option.splits)
    moreover from this h have "held_by owner e"
      by (auto simp: held_by_def holds_def split: file_lock_mode.splits)
    ultimately show released by (auto simp: rel list_ex_iff intro: bt_values_get)
  qed
  have 3: "fst (acquire w t md False st') = Some (Inr ())"
    if "\<forall>other. other \<noteq> owner \<longrightarrow> other \<noteq> w \<longrightarrow> \<not> holds st t other Exclusive \<and> \<not> holds st t other Shared"
    for t w md
  proof -
    have "compatible st' t w md" using that unfolding compatible_def 1 by blast
    then show ?thesis by (simp add: acquire_granted)
  qed
  show ?thesis using 1 2 3 by simp
qed

theorem release_owner_frees_witness:
  "\<exists>st released st'. release_owner 1 st = (released, st') \<and> holds st 7 1 Exclusive \<and> released \<and>
     fst (acquire 2 7 Exclusive False st') = Some (Inr ())"
proof -
  define st where "st = bt_insert (7 :: u64) \<lparr>shared = {}, exclusive = Some 1\<rparr> bt_empty"
  obtain released st' where run: "release_owner 1 st = (released, st')" by fastforce
  have h: "holds st 7 1 Exclusive" by (simp add: st_def holds_def)
  have others: "\<forall>other. other \<noteq> 1 \<longrightarrow> other \<noteq> 2 \<longrightarrow> \<not> holds st 7 other Exclusive \<and> \<not> holds st 7 other Shared"
    by (simp add: st_def holds_def)
  note frees = release_owner_frees [OF run]
  have released using frees [THEN conjunct1] h by blast
  moreover have "fst (acquire 2 7 Exclusive False st') = Some (Inr ())"
    using frees [THEN conjunct2, THEN conjunct2, rule_format, of 2 7 Exclusive] others by simp
  ultimately show ?thesis using run h by (intro exI conjI)
qed

end
