(* ===== verification/Chunk_Buffer.thy ===== *)
theory Chunk_Buffer
  imports Rust_Prelude
begin

text \<open>
  The byte queues of the kernel are \<open>VecDeque<Vec<u8>>\<close>: chunks as they were written, drained by byte
  count.  \<open>drain_buffer\<close> and \<open>buffer_size\<close> are the functions of \<open>crates/kernel/src/pipe_manager.rs\<close>
  (repeated verbatim in \<open>pty.rs\<close>).  The locale \<open>byte_queue\<close> is what their clients rely on: a queue of bytes
  whose content is appended to at the back and drained from the front.
\<close>

section \<open>Chunks\<close>

definition buffer_size :: "bytes list \<Rightarrow> nat" where
  "buffer_size buffer = sum_list (map length buffer)"

text \<open>The \<open>while\<close> loop of \<open>drain_buffer\<close>: the chunks it collects and the chunks it leaves.\<close>

fun drain_chunks :: "nat \<Rightarrow> bytes list \<Rightarrow> bytes list \<times> bytes list" where
  "drain_chunks remaining [] = ([], [])"
| "drain_chunks remaining (chunk # rest) =
     (if remaining = 0 then ([], chunk # rest)
      else if length chunk \<le> remaining then
        let (chunks, left) = drain_chunks (remaining - length chunk) rest in (chunk # chunks, left)
      else ([take remaining chunk], drop remaining chunk # rest))"

definition drain_buffer :: "bytes list \<Rightarrow> nat \<Rightarrow> bytes \<times> bytes list" where
  "drain_buffer buffer len =
     (let (chunks, left) = drain_chunks len buffer
      in (if length chunks = 1 then hd chunks else concat chunks, left))"

lemma buffer_size_concat: "buffer_size b = length (concat b)"
  by (simp add: buffer_size_def sum_list_concat_length)

lemma buffer_size_simps [simp]:
  "buffer_size [] = 0" "buffer_size (c # b) = length c + buffer_size b"
  "buffer_size (b @ b') = buffer_size b + buffer_size b'"
  by (simp_all add: buffer_size_def)

lemma drain_chunks_content:
  "drain_chunks n b = (cs, left) \<Longrightarrow>
     concat cs @ concat left = concat b \<and> length (concat cs) = min n (length (concat b))"
proof (induction n b arbitrary: cs left rule: drain_chunks.induct)
  case (1 n)
  then show ?case by simp
next
  case (2 n c rest)
  consider "n = 0" | "n > 0" "length c \<le> n" | "n < length c" "n > 0" by linarith
  then show ?case
  proof cases
    case 1
    with 2 show ?thesis by simp
  next
    case c: 2
    obtain cs' left' where d: "drain_chunks (n - length c) rest = (cs', left')" by fastforce
    with c 2 have "cs = c # cs'" "left = left'" by auto
    with 2(1) [OF _ _ d] c show ?thesis by auto
  next
    case 3
    with 2 show ?thesis by auto
  qed
qed

lemma drain_buffer_concat: "drain_buffer b n = (let (cs, left) = drain_chunks n b in (concat cs, left))"
proof -
  obtain cs left where "drain_chunks n b = (cs, left)" by fastforce
  then show ?thesis by (cases cs) (auto simp: drain_buffer_def)
qed

lemma drain_buffer_content:
  assumes "drain_buffer b n = (out, left)"
  shows "out = take n (concat b)" "concat left = drop n (concat b)"
proof -
  obtain cs where d: "drain_chunks n b = (cs, left)" "out = concat cs"
    using assms by (auto simp: drain_buffer_concat split: prod.splits)
  note c = drain_chunks_content [OF d(1)]
  have "out @ concat left = take n (concat b) @ drop n (concat b)" using c d(2) by simp
  moreover have "length out = length (take n (concat b))" using c d(2) by auto
  ultimately show "out = take n (concat b)" "concat left = drop n (concat b)"
    using append_eq_append_conv by blast+
qed

section \<open>The byte queue interface\<close>

datatype queue_op = Push bytes | Drain nat

fun queue_run ::
  "('q \<Rightarrow> bytes \<Rightarrow> 'q) \<Rightarrow> ('q \<Rightarrow> nat \<Rightarrow> bytes \<times> 'q) \<Rightarrow> queue_op list \<Rightarrow> 'q \<Rightarrow> bytes \<times> bytes \<times> 'q" where
  "queue_run push drain [] q = ([], [], q)"
| "queue_run push drain (Push c # es) q =
     (let (pushed, drained, q') = queue_run push drain es (push q c) in (c @ pushed, drained, q'))"
| "queue_run push drain (Drain n # es) q =
     (let (out, q1) = drain q n; (pushed, drained, q') = queue_run push drain es q1
      in (pushed, out @ drained, q'))"

locale byte_queue =
  fixes push :: "'q \<Rightarrow> bytes \<Rightarrow> 'q"
    and drain :: "'q \<Rightarrow> nat \<Rightarrow> bytes \<times> 'q"
    and content :: "'q \<Rightarrow> bytes"
  assumes push_content: "content (push q c) = content q @ c"
    and drain_out: "drain q n = (out, q') \<Longrightarrow> out = take n (content q)"
    and drain_left: "drain q n = (out, q') \<Longrightarrow> content q' = drop n (content q)"
begin

lemma drain_splits: "drain q n = (out, q') \<Longrightarrow> out @ content q' = content q"
  using drain_out drain_left by force

lemma fifo:
  "queue_run push drain es q = (pushed, drained, q') \<Longrightarrow> drained @ content q' = content q @ pushed"
proof (induction es arbitrary: q pushed drained)
  case Nil
  then show ?case by simp
next
  case (Cons e es)
  show ?case
  proof (cases e)
    case (Push c)
    obtain p1 d1 q1 where r: "queue_run push drain es (push q c) = (p1, d1, q1)"
      by (metis prod_cases3)
    with Cons.prems Push have "pushed = c @ p1" "drained = d1" "q' = q1" by auto
    with Cons.IH [OF r [unfolded \<open>q' = q1\<close> [symmetric]]] show ?thesis by (simp add: push_content)
  next
    case (Drain n)
    obtain out q1 where d: "drain q n = (out, q1)" by fastforce
    obtain p1 d1 q2 where r: "queue_run push drain es q1 = (p1, d1, q2)" by (metis prod_cases3)
    with Cons.prems Drain d have "pushed = p1" "drained = out @ d1" "q' = q2" by auto
    with Cons.IH [OF r [unfolded \<open>q' = q2\<close> [symmetric]]] drain_splits [OF d] show ?thesis
      by (metis append.assoc)
  qed
qed

end

interpretation chunk_queue: byte_queue "\<lambda>b c. b @ [c]" drain_buffer concat
  by unfold_locales (auto dest: drain_buffer_content)

section \<open>Properties\<close>

text \<open>
  The chunked buffers are FIFO byte queues: over any sequence of appended chunks and drains, the
  bytes drained followed by the bytes still buffered are the initial content followed by the bytes
  appended, whatever the chunk boundaries and the requested lengths.
\<close>

theorem chunk_buffer_fifo:
  "case queue_run (\<lambda>b c. b @ [c]) drain_buffer es b of
     (pushed, drained, b') \<Rightarrow> drained @ concat b' = concat b @ pushed"
  using chunk_queue.fifo by (auto split: prod.splits)

end
