(* ===== verification/Poll.thy ===== *)
theory Poll
  imports Rust_Prelude
begin

text \<open>
  The readiness events and the change notifier of \<open>crates/kernel/src/poll.rs\<close>.  \<open>PollEvents\<close> is its
  \<open>u16\<close> of bits.  A \<open>PollNotifier\<close> is a generation counter behind a mutex and a condition variable: a
  poller takes a snapshot, inspects its descriptors and then waits for the counter to move.  The
  environment of a waiting thread is explicit: the list of its wake-ups, each with the generation it
  finds, whether the wait timed out, and the clock reading of the next pass of the loop.
\<close>

unbundle bit_operations_syntax

type_synonym poll_events = u16

definition POLLIN :: poll_events where "POLLIN = 0x0001"
definition POLLOUT :: poll_events where "POLLOUT = 0x0004"
definition POLLERR :: poll_events where "POLLERR = 0x0008"
definition POLLHUP :: poll_events where "POLLHUP = 0x0010"
definition POLLNVAL :: poll_events where "POLLNVAL = 0x0020"

definition poll_contains :: "poll_events \<Rightarrow> poll_events \<Rightarrow> bool" where
  "poll_contains self other \<longleftrightarrow> self AND other = other"

definition intersects :: "poll_events \<Rightarrow> poll_events \<Rightarrow> bool" where
  "intersects self other \<longleftrightarrow> self AND other \<noteq> 0"

lemmas poll_consts = POLLIN_def POLLOUT_def POLLERR_def POLLHUP_def POLLNVAL_def

section \<open>The notifier\<close>

definition notify :: "u64 \<Rightarrow> u64" where
  "notify generation = saturating_succ generation"

record wake_up =
  wake_generation :: u64
  wake_timed_out :: bool
  wake_now :: nat

text \<open>The wait without a timeout; \<^term>\<open>None\<close> when the thread is still waiting after these wake-ups.\<close>

fun wait_untimed :: "u64 \<Rightarrow> u64 \<Rightarrow> wake_up list \<Rightarrow> bool option" where
  "wait_untimed observed generation [] = (if generation = observed then None else Some True)"
| "wait_untimed observed generation (w # ws) =
     (if generation = observed then wait_untimed observed (wake_generation w) ws else Some True)"

fun wait_deadline :: "u64 \<Rightarrow> nat \<Rightarrow> u64 \<Rightarrow> nat \<Rightarrow> wake_up list \<Rightarrow> bool option" where
  "wait_deadline observed deadline generation now [] =
     (if now \<ge> deadline then Some (generation \<noteq> observed) else None)"
| "wait_deadline observed deadline generation now (w # ws) =
     (if now \<ge> deadline then Some (generation \<noteq> observed)
      else if wake_generation w \<noteq> observed then Some True
      else if wake_timed_out w then Some False
      else wait_deadline observed deadline (wake_generation w) (wake_now w) ws)"

definition wait_for_change ::
  "u64 \<Rightarrow> nat option \<Rightarrow> u64 \<Rightarrow> nat \<Rightarrow> nat \<Rightarrow> wake_up list \<Rightarrow> bool option" where
  "wait_for_change observed timeout generation start now ws =
     (if generation \<noteq> observed then Some True
      else case timeout of
        None \<Rightarrow> wait_untimed observed generation ws
      | Some d \<Rightarrow>
          if d = 0 then Some (generation \<noteq> observed)
          else wait_deadline observed (start + d) generation now ws)"

lemma wait_untimed_sound:
  "wait_untimed observed g ws = Some r \<Longrightarrow> r \<and> (\<exists>g' \<in> insert g (wake_generation ` set ws). g' \<noteq> observed)"
  by (induction observed g ws rule: wait_untimed.induct) (auto split: if_splits)

lemma wait_deadline_sound:
  "wait_deadline observed deadline g now ws = Some r \<Longrightarrow> g = observed \<Longrightarrow>
    (r \<longrightarrow> (\<exists>w \<in> set ws. wake_generation w \<noteq> observed)) \<and>
    (\<not> r \<longrightarrow> now \<ge> deadline \<or> (\<exists>w \<in> set ws. wake_timed_out w \<or> wake_now w \<ge> deadline))"
  by (induction observed deadline g now ws rule: wait_deadline.induct) (auto split: if_splits)

lemma notify_changes: "generation \<noteq> - 1 \<Longrightarrow> notify generation \<noteq> generation"
  by (simp add: notify_def saturating_succ_def)

lemma unat_notify_funpow:
  "unat ((notify ^^ k) g) = min (unat g + k) (2 ^ 64 - 1)"
proof (induction k)
  case 0
  have "unat g < 2 ^ LENGTH(64)" by (rule unsigned_less)
  then show ?case by simp
next
  case (Suc k)
  then show ?case by (simp add: notify_def unat_saturating_succ)
qed

lemma notify_funpow_neq: "g \<noteq> - 1 \<Longrightarrow> (notify ^^ Suc k) g \<noteq> g"
proof
  assume g: "g \<noteq> - 1" and eq: "(notify ^^ Suc k) g = g"
  have "unat g = min (unat g + Suc k) (2 ^ 64 - 1)" using unat_notify_funpow [of "Suc k" g] eq by simp
  moreover have "unat g \<noteq> 2 ^ 64 - 1"
  proof
    assume "unat g = 2 ^ 64 - 1"
    then have "unat g = unat (- 1 :: u64)" by (simp add: unsigned_minus_1_eq_mask mask_eq_exp_minus_1)
    with g show False by (simp add: word_unat_eq_iff)
  qed
  ultimately show False by (auto simp: min_def split: if_splits)
qed

section \<open>Properties\<close>

text \<open>
  No notification between the snapshot and the wait is lost: once the notifier has fired at least
  once since the snapshot, a wait on the snapshot returns \<^term>\<open>True\<close> at once, whatever the timeout
  and without needing any wake-up.  The counter saturates, so the snapshot must be below its maximum.
\<close>

theorem notification_never_lost:
  assumes "observed \<noteq> - 1" "n > 0"
  shows "wait_for_change observed timeout ((notify ^^ n) observed) start now [] = Some True"
proof -
  obtain k where "n = Suc k" using assms(2) by (cases n) auto
  with notify_funpow_neq [OF assms(1), of k] show ?thesis
    by (simp add: wait_for_change_def)
qed

theorem notification_never_lost_witness:
  "wait_for_change 7 (Some 0) ((notify ^^ 2) 7) 0 0 [] = Some True"
  by (rule notification_never_lost) simp_all

end
