(* ===== verification/Pipe.thy ===== *)
theory Pipe
  imports Fd_Table Chunk_Buffer Poll "HOL-Library.Code_Target_Nat"
begin

text \<open>
  The pipe manager of \<open>crates/kernel/src/pipe_manager.rs\<close>.  Its state is behind one mutex, so an
  operation is atomic up to the point where it waits on the condition variable: a blocking call is a
  first pass, which may end by waiting, and one more pass per wake-up.  \<open>notify_waiters_and_pollers\<close>
  counts the calls of \<open>notify_all\<close> (\<open>wakeups\<close>) and moves the generation of the poll notifier, when the
  manager has one.  Clock readings are arguments of the passes.
\<close>

unbundle bit_operations_syntax

definition MAX_PIPE_BUFFER_BYTES :: nat where "MAX_PIPE_BUFFER_BYTES = 65536"
definition PIPE_BUF_BYTES :: nat where "PIPE_BUF_BYTES = 4096"

datatype pipe_error = Pipe_bad_fd string | Broken_pipe string | Pipe_would_block string

fun pipe_error_code :: "pipe_error \<Rightarrow> string" where
  "pipe_error_code (Pipe_bad_fd _) = ''EBADF''"
| "pipe_error_code (Broken_pipe _) = ''EPIPE''"
| "pipe_error_code (Pipe_would_block _) = ''EAGAIN''"

datatype pipe_side = Read_side | Write_side

record pipe_ref =
  ref_pipe_id :: u64
  ref_end :: pipe_side

record pending_read =
  pending_length :: nat
  pending_result :: "bytes option option"

record pipe_state =
  pipe_buffer :: "bytes list"
  closed_read :: bool
  closed_write :: bool
  waiting_reads :: "u64 list"

record pipe_manager =
  pipes :: "(u64, pipe_state) btreemap"
  desc_to_pipe :: "(u64, pipe_ref) btreemap"
  waiters :: "(u64, pending_read) btreemap"
  next_pipe_id :: u64
  next_desc_id :: u64
  next_waiter_id :: u64
  wakeups :: nat
  notifier :: "u64 option"

record pipe_end =
  end_description :: loc
  end_filetype :: u8

record pipe_pair =
  read_end :: pipe_end
  write_end :: pipe_end

definition default_pipe :: pipe_state where
  "default_pipe = \<lparr>pipe_buffer = [], closed_read = False, closed_write = False, waiting_reads = []\<rparr>"

definition new_pipe_manager :: "u64 option \<Rightarrow> pipe_manager" where
  "new_pipe_manager n =
     \<lparr>pipes = bt_empty, desc_to_pipe = bt_empty, waiters = bt_empty, next_pipe_id = 1,
      next_desc_id = 100000, next_waiter_id = 1, wakeups = 0, notifier = n\<rparr>"

definition available_capacity :: "pipe_state \<Rightarrow> nat" where
  "available_capacity p = MAX_PIPE_BUFFER_BYTES - buffer_size (pipe_buffer p)"

definition notify_waiters_and_pollers :: "pipe_manager \<Rightarrow> pipe_manager" where
  "notify_waiters_and_pollers st =
     st\<lparr>wakeups := Suc (wakeups st), notifier := map_option notify (notifier st)\<rparr>"

section \<open>Creating and polling\<close>

text \<open>The part of \<open>create_pipe\<close> under the lock: the ids of the pipe and of its two ends.\<close>

definition register_pipe :: "pipe_manager \<Rightarrow> (u64 \<times> u64 \<times> u64) \<times> pipe_manager" where
  "register_pipe st =
     (let pipe_id = next_pipe_id st; read_id = next_desc_id st; write_id = next_desc_id st + 1
      in ((pipe_id, read_id, write_id),
          st\<lparr>next_pipe_id := pipe_id + 1, next_desc_id := write_id + 1,
             pipes := bt_insert pipe_id default_pipe (pipes st),
             desc_to_pipe :=
               bt_insert write_id \<lparr>ref_pipe_id = pipe_id, ref_end = Write_side\<rparr>
                 (bt_insert read_id \<lparr>ref_pipe_id = pipe_id, ref_end = Read_side\<rparr> (desc_to_pipe st))\<rparr>))"

definition create_pipe :: "desc_store \<Rightarrow> pipe_manager \<Rightarrow> pipe_pair \<times> desc_store \<times> pipe_manager" where
  "create_pipe s st =
     (let ((pipe_id, read_id, write_id), st') = register_pipe st;
          name = ''pipe:'' @ decimal (unat pipe_id);
          (rl, s1) = arc_new (with_ref_count read_id (name @ '':read'') O_RDONLY 0) s;
          (wl, s2) = arc_new (with_ref_count write_id (name @ '':write'') O_WRONLY 0) s1
      in (\<lparr>read_end = \<lparr>end_description = rl, end_filetype = FILETYPE_PIPE\<rparr>,
           write_end = \<lparr>end_description = wl, end_filetype = FILETYPE_PIPE\<rparr>\<rparr>, s2, st'))"

definition pipe_poll :: "u64 \<Rightarrow> poll_events \<Rightarrow> pipe_manager \<Rightarrow> pipe_error + poll_events" where
  "pipe_poll description_id requested st =
     and_then (ok_or (bt_get (desc_to_pipe st) description_id) (Pipe_bad_fd ''not a pipe end'')) (\<lambda>r.
     and_then (ok_or (bt_get (pipes st) (ref_pipe_id r)) (Pipe_bad_fd ''pipe not found'')) (\<lambda>pipe.
     Inr (case ref_end r of
        Read_side \<Rightarrow>
          (if intersects requested POLLIN \<and> pipe_buffer pipe \<noteq> [] then POLLIN else 0) OR
          (if closed_write pipe then POLLHUP else 0)
      | Write_side \<Rightarrow>
          if closed_read pipe then POLLERR
          else if intersects requested POLLOUT \<and>
                  (available_capacity pipe > 0 \<or> waiting_reads pipe \<noteq> []) then POLLOUT
          else 0)))"

section \<open>Writing\<close>

text \<open>The lookup before the loop of \<open>write_with_mode\<close> and of \<open>read_with_timeout\<close>.\<close>

definition enter_write :: "u64 \<Rightarrow> pipe_manager \<Rightarrow> pipe_error + u64" where
  "enter_write description_id st =
     and_then (ok_or (bt_get (desc_to_pipe st) description_id) (Pipe_bad_fd ''not a pipe write end''))
       (\<lambda>r. if ref_end r \<noteq> Write_side then Inl (Pipe_bad_fd ''not a pipe write end'')
            else Inr (ref_pipe_id r))"

definition enter_read :: "u64 \<Rightarrow> pipe_manager \<Rightarrow> pipe_error + u64" where
  "enter_read description_id st =
     and_then (ok_or (bt_get (desc_to_pipe st) description_id) (Pipe_bad_fd ''not a pipe read end''))
       (\<lambda>r. if ref_end r \<noteq> Read_side then Inl (Pipe_bad_fd ''not a pipe read end'')
            else Inr (ref_pipe_id r))"

definition push_chunk :: "u64 \<Rightarrow> bytes \<Rightarrow> pipe_manager \<Rightarrow> pipe_manager" where
  "push_chunk pipe_id c st =
     st\<lparr>pipes := bt_adjust pipe_id (\<lambda>p. p\<lparr>pipe_buffer := pipe_buffer p @ [c]\<rparr>) (pipes st)\<rparr>"

text \<open>Direct delivery to the waiting reader that was popped: what does not fit is buffered.\<close>

definition deliver :: "u64 \<Rightarrow> u64 \<Rightarrow> pending_read \<Rightarrow> bytes \<Rightarrow> pipe_manager \<Rightarrow> pipe_manager" where
  "deliver pipe_id waiter_id waiter payload st =
     (let delivered_len = min (pending_length waiter) (length payload);
          delivered = take delivered_len payload;
          remainder = drop delivered_len payload;
          st1 = (if remainder \<noteq> [] then push_chunk pipe_id remainder st else st)
      in notify_waiters_and_pollers
           (st1\<lparr>waiters := bt_insert waiter_id (waiter\<lparr>pending_result := Some (Some delivered)\<rparr>)
                  (waiters st1)\<rparr>))"

text \<open>The rest of the loop body, when no reader is waiting.  \<^term>\<open>None\<close>: the writer waits.\<close>

definition write_buffered ::
  "u64 \<Rightarrow> bytes \<Rightarrow> bool \<Rightarrow> pipe_state \<Rightarrow> pipe_manager \<Rightarrow> (pipe_error + nat) option \<times> pipe_manager" where
  "write_buffered pipe_id payload nonblocking pipe st =
     (let available = MAX_PIPE_BUFFER_BYTES - buffer_size (pipe_buffer pipe);
          full = (if nonblocking then (Some (Inl (Pipe_would_block ''pipe buffer full'')), st)
                  else (None, st))
      in if length payload \<le> PIPE_BUF_BYTES then
           if available \<ge> length payload
           then (Some (Inr (length payload)), notify_waiters_and_pollers (push_chunk pipe_id payload st))
           else full
         else if available > 0 then
           let chunk_len = min available (length payload)
           in (Some (Inr chunk_len), notify_waiters_and_pollers (push_chunk pipe_id (take chunk_len payload) st))
         else full)"

definition queued :: "u64 \<Rightarrow> pipe_manager \<Rightarrow> nat" where
  "queued pipe_id st =
     (case bt_get (pipes st) pipe_id of None \<Rightarrow> 0 | Some p \<Rightarrow> length (waiting_reads p))"

function write_loop ::
  "u64 \<Rightarrow> bytes \<Rightarrow> bool \<Rightarrow> pipe_manager \<Rightarrow> (pipe_error + nat) option \<times> pipe_manager" where
  "write_loop pipe_id payload nonblocking st =
     (case bt_get (pipes st) pipe_id of
        None \<Rightarrow> (Some (Inl (Pipe_bad_fd ''pipe not found'')), st)
      | Some pipe \<Rightarrow>
          if closed_write pipe then (Some (Inl (Broken_pipe ''write end closed'')), st)
          else if closed_read pipe then (Some (Inl (Broken_pipe ''read end closed'')), st)
          else
            (case waiting_reads pipe of
               waiter_id # rest \<Rightarrow>
                 let st1 = st\<lparr>pipes := bt_insert pipe_id (pipe\<lparr>waiting_reads := rest\<rparr>) (pipes st)\<rparr> in
                 (case bt_get (waiters st) waiter_id of
                    None \<Rightarrow> write_loop pipe_id payload nonblocking st1
                  | Some waiter \<Rightarrow>
                      (Some (Inr (length payload)), deliver pipe_id waiter_id waiter payload st1))
             | [] \<Rightarrow> write_buffered pipe_id payload nonblocking pipe st))"
  by pat_completeness auto

termination
  by (relation "measure (\<lambda>(p, _, _, st). queued p st)") (auto simp: queued_def)

declare write_loop.simps [simp del]

definition write_with_mode ::
  "u64 \<Rightarrow> bytes \<Rightarrow> bool \<Rightarrow> pipe_manager \<Rightarrow> (pipe_error + nat) option \<times> pipe_manager" where
  "write_with_mode description_id payload nonblocking st =
     (case enter_write description_id st of
        Inl e \<Rightarrow> (Some (Inl e), st)
      | Inr pipe_id \<Rightarrow> write_loop pipe_id payload nonblocking st)"

definition pipe_write :: "u64 \<Rightarrow> bytes \<Rightarrow> pipe_manager \<Rightarrow> (pipe_error + nat) option \<times> pipe_manager" where
  "pipe_write description_id payload st = write_with_mode description_id payload True st"

definition write_blocking ::
  "u64 \<Rightarrow> bytes \<Rightarrow> pipe_manager \<Rightarrow> (pipe_error + nat) option \<times> pipe_manager" where
  "write_blocking description_id payload st = write_with_mode description_id payload False st"

section \<open>Reading\<close>

text \<open>
  One pass of the loop of \<open>read_with_timeout\<close>: it returns, or it waits as the reader with the given
  waiter id.  \<open>deadline\<close> is \<^term>\<open>None\<close> for a read without a timeout.
\<close>

datatype read_outcome = Read_return "pipe_error + bytes option" | Read_wait u64

definition register_reader :: "u64 \<Rightarrow> pipe_state \<Rightarrow> nat \<Rightarrow> pipe_manager \<Rightarrow> u64 \<times> pipe_manager" where
  "register_reader pipe_id pipe len st =
     (let next = next_waiter_id st
      in (next, notify_waiters_and_pollers
           (st\<lparr>next_waiter_id := next + 1,
               waiters := bt_insert next \<lparr>pending_length = len, pending_result = None\<rparr> (waiters st),
               pipes := bt_insert pipe_id (pipe\<lparr>waiting_reads := waiting_reads pipe @ [next]\<rparr>) (pipes st)\<rparr>)))"

definition cancel_reader :: "u64 \<Rightarrow> u64 \<Rightarrow> pipe_manager \<Rightarrow> pipe_manager" where
  "cancel_reader pipe_id waiter_id st =
     notify_waiters_and_pollers
       (st\<lparr>waiters := bt_remove waiter_id (waiters st),
           pipes := bt_adjust pipe_id
             (\<lambda>p. p\<lparr>waiting_reads := filter (\<lambda>queued. queued \<noteq> waiter_id) (waiting_reads p)\<rparr>) (pipes st)\<rparr>)"

definition delivered_result :: "u64 option \<Rightarrow> pipe_manager \<Rightarrow> (u64 \<times> bytes option) option" where
  "delivered_result waiter_id st =
     (case waiter_id of
        None \<Rightarrow> None
      | Some i \<Rightarrow> (case bt_get (waiters st) i of
                     None \<Rightarrow> None
                   | Some w \<Rightarrow> map_option (\<lambda>r. (i, r)) (pending_result w)))"

definition read_pass ::
  "u64 \<Rightarrow> nat \<Rightarrow> nat option \<Rightarrow> nat \<Rightarrow> u64 option \<Rightarrow> pipe_manager \<Rightarrow> read_outcome \<times> pipe_manager" where
  "read_pass pipe_id len deadline now waiter_id st =
     (case delivered_result waiter_id st of
        Some (i, result) \<Rightarrow> (Read_return (Inr result), st\<lparr>waiters := bt_remove i (waiters st)\<rparr>)
      | None \<Rightarrow>
     (case bt_get (pipes st) pipe_id of
        None \<Rightarrow> (Read_return (Inl (Pipe_bad_fd ''pipe not found'')), st)
      | Some pipe \<Rightarrow>
          if pipe_buffer pipe \<noteq> [] then
            let (result, left) = drain_buffer (pipe_buffer pipe) len
            in (Read_return (Inr (Some result)),
                notify_waiters_and_pollers
                  (st\<lparr>pipes := bt_insert pipe_id (pipe\<lparr>pipe_buffer := left\<rparr>) (pipes st)\<rparr>))
          else if closed_write pipe then
            (Read_return (Inr None),
             case waiter_id of None \<Rightarrow> st | Some i \<Rightarrow> st\<lparr>waiters := bt_remove i (waiters st)\<rparr>)
          else
            let (i, st1) = (case waiter_id of Some i \<Rightarrow> (i, st) | None \<Rightarrow> register_reader pipe_id pipe len st)
            in (case deadline of
                  None \<Rightarrow> (Read_wait i, st1)
                | Some d \<Rightarrow>
                    if now \<ge> d
                    then (Read_return (Inl (Pipe_would_block ''pipe read timed out'')), cancel_reader pipe_id i st1)
                    else (Read_wait i, st1))))"

text \<open>
  The wake-up of a waiting reader: the check that its waiter entry is still there, the timed-out
  return (never taken by a read without a timeout), and otherwise the next pass of the loop.
\<close>

definition read_resume ::
  "u64 \<Rightarrow> nat \<Rightarrow> nat option \<Rightarrow> bool \<Rightarrow> nat \<Rightarrow> u64 \<Rightarrow> pipe_manager \<Rightarrow> read_outcome \<times> pipe_manager" where
  "read_resume pipe_id len deadline timed_out now i st =
     (let waiter_id = (if bt_contains (waiters st) i then Some i else None)
      in if deadline \<noteq> None \<and> timed_out then
           (Read_return (Inl (Pipe_would_block ''pipe read timed out'')),
            case waiter_id of None \<Rightarrow> st | Some i \<Rightarrow> cancel_reader pipe_id i st)
         else read_pass pipe_id len deadline now waiter_id st)"

definition read_with_timeout ::
  "u64 \<Rightarrow> nat \<Rightarrow> nat option \<Rightarrow> nat \<Rightarrow> nat \<Rightarrow> pipe_manager \<Rightarrow> read_outcome \<times> pipe_manager" where
  "read_with_timeout description_id len timeout start now st =
     (case enter_read description_id st of
        Inl e \<Rightarrow> (Read_return (Inl e), st)
      | Inr pipe_id \<Rightarrow> read_pass pipe_id len (map_option (\<lambda>d. start + d) timeout) now None st)"

definition pipe_read :: "u64 \<Rightarrow> nat \<Rightarrow> nat \<Rightarrow> nat \<Rightarrow> pipe_manager \<Rightarrow> read_outcome \<times> pipe_manager" where
  "pipe_read description_id len start now st = read_with_timeout description_id len None start now st"

section \<open>Closing and counting\<close>

definition finish_waiters :: "u64 list \<Rightarrow> pipe_manager \<Rightarrow> pipe_manager" where
  "finish_waiters ids st =
     st\<lparr>waiters := fold (\<lambda>i. bt_adjust i (\<lambda>w. w\<lparr>pending_result := Some None\<rparr>)) ids (waiters st)\<rparr>"

definition pipe_close :: "u64 \<Rightarrow> pipe_manager \<Rightarrow> pipe_manager" where
  "pipe_close description_id st =
     (case bt_get (desc_to_pipe st) description_id of
        None \<Rightarrow> st
      | Some r \<Rightarrow>
          let st0 = st\<lparr>desc_to_pipe := bt_remove description_id (desc_to_pipe st)\<rparr>
          in (case bt_get (pipes st) (ref_pipe_id r) of
                None \<Rightarrow> st0
              | Some pipe \<Rightarrow>
                  let (pipe1, waiter_ids) =
                        (case ref_end r of
                           Read_side \<Rightarrow> (pipe\<lparr>closed_read := True\<rparr>, [])
                         | Write_side \<Rightarrow>
                             (pipe\<lparr>closed_write := True, waiting_reads := []\<rparr>, waiting_reads pipe));
                      st1 = finish_waiters waiter_ids
                              (st0\<lparr>pipes := bt_insert (ref_pipe_id r) pipe1 (pipes st0)\<rparr>);
                      st2 = (if closed_read pipe1 \<and> closed_write pipe1
                             then st1\<lparr>pipes := bt_remove (ref_pipe_id r) (pipes st1)\<rparr> else st1)
                  in notify_waiters_and_pollers st2))"

definition is_pipe :: "u64 \<Rightarrow> pipe_manager \<Rightarrow> bool" where
  "is_pipe description_id st = bt_contains (desc_to_pipe st) description_id"

definition pipe_id_for :: "u64 \<Rightarrow> pipe_manager \<Rightarrow> u64 option" where
  "pipe_id_for description_id st = map_option ref_pipe_id (bt_get (desc_to_pipe st) description_id)"

definition pipe_count :: "pipe_manager \<Rightarrow> nat" where
  "pipe_count st = bt_len (pipes st)"

definition buffered_bytes :: "pipe_manager \<Rightarrow> nat" where
  "buffered_bytes st = bt_sum (\<lambda>p. buffer_size (pipe_buffer p)) (pipes st)"

definition waiting_reader_count :: "u64 \<Rightarrow> pipe_manager \<Rightarrow> pipe_error + nat" where
  "waiting_reader_count description_id st =
     and_then (ok_or (bt_get (desc_to_pipe st) description_id) (Pipe_bad_fd ''not a pipe end'')) (\<lambda>r.
     and_then (ok_or (bt_get (pipes st) (ref_pipe_id r)) (Pipe_bad_fd ''pipe not found'')) (\<lambda>pipe.
     Inr (length (waiting_reads pipe))))"

definition create_pipe_fds ::
  "desc_store \<Rightarrow> process_fd_table \<Rightarrow> pipe_manager \<Rightarrow>
     (fd_error + u32 \<times> u32) \<times> desc_store \<times> process_fd_table \<times> pipe_manager" where
  "create_pipe_fds s t st =
     (let (pair, s1, st1) = create_pipe s st;
          rl = end_description (read_end pair); wl = end_description (write_end pair)
      in (case open_with rl FILETYPE_PIPE None s1 t of
            (Inl e, s2, t2) \<Rightarrow> (Inl e, s2, t2, st1)
          | (Inr read_fd, s2, t2) \<Rightarrow>
              (case open_with wl FILETYPE_PIPE None s2 t2 of
                 (Inr write_fd, s3, t3) \<Rightarrow> (Inr (read_fd, write_fd), s3, t3, st1)
               | (Inl e, s3, t3) \<Rightarrow>
                   let (_, s4, t4) = close read_fd s3 t3
                   in (Inl e, s4, t4,
                       pipe_close (id_of s4 wl) (pipe_close (id_of s4 rl) st1)))))"

section \<open>Elementary facts\<close>

lemma notify_frame [frame_simps, simp]:
  "pipes (notify_waiters_and_pollers st) = pipes st"
  "desc_to_pipe (notify_waiters_and_pollers st) = desc_to_pipe st"
  "waiters (notify_waiters_and_pollers st) = waiters st"
  "next_pipe_id (notify_waiters_and_pollers st) = next_pipe_id st"
  "next_desc_id (notify_waiters_and_pollers st) = next_desc_id st"
  "next_waiter_id (notify_waiters_and_pollers st) = next_waiter_id st"
  "wakeups (notify_waiters_and_pollers st) = Suc (wakeups st)"
  by (simp_all add: notify_waiters_and_pollers_def)

lemma push_chunk_frame [frame_simps, simp]:
  "desc_to_pipe (push_chunk i c st) = desc_to_pipe st"
  "waiters (push_chunk i c st) = waiters st"
  "next_pipe_id (push_chunk i c st) = next_pipe_id st"
  "next_desc_id (push_chunk i c st) = next_desc_id st"
  "next_waiter_id (push_chunk i c st) = next_waiter_id st"
  "wakeups (push_chunk i c st) = wakeups st"
  "notifier (push_chunk i c st) = notifier st"
  by (simp_all add: push_chunk_def)

lemma pipes_push_chunk [simp]:
  "bt_get (pipes (push_chunk i c st)) j =
     (if j = i then map_option (\<lambda>p. p\<lparr>pipe_buffer := pipe_buffer p @ [c]\<rparr>) (bt_get (pipes st) i)
      else bt_get (pipes st) j)"
  by (simp add: push_chunk_def)

lemma finish_waiters_frame [frame_simps, simp]:
  "pipes (finish_waiters ids st) = pipes st"
  "desc_to_pipe (finish_waiters ids st) = desc_to_pipe st"
  "next_pipe_id (finish_waiters ids st) = next_pipe_id st"
  "next_desc_id (finish_waiters ids st) = next_desc_id st"
  "next_waiter_id (finish_waiters ids st) = next_waiter_id st"
  by (simp_all add: finish_waiters_def)

lemma waiters_finish_waiters [simp]:
  "bt_get (waiters (finish_waiters ids st)) i =
     (if i \<in> set ids then map_option (\<lambda>w. w\<lparr>pending_result := Some None\<rparr>) (bt_get (waiters st) i)
      else bt_get (waiters st) i)"
proof -
  have "bt_get (fold (\<lambda>i. bt_adjust i (\<lambda>w. w\<lparr>pending_result := Some None\<rparr>)) ids m) i =
     (if i \<in> set ids then map_option (\<lambda>w. w\<lparr>pending_result := Some None\<rparr>) (bt_get m i) else bt_get m i)"
    for m :: "(u64, pending_read) btreemap"
    by (induction ids arbitrary: m) (auto simp: option.map_comp comp_def)
  then show ?thesis by (simp add: finish_waiters_def)
qed

text \<open>What \<open>deliver\<close> and \<open>write_buffered\<close> do to the state.\<close>

lemma deliver_frame [frame_simps]:
  "desc_to_pipe (deliver i w pr payload st) = desc_to_pipe st"
  "next_pipe_id (deliver i w pr payload st) = next_pipe_id st"
  "next_desc_id (deliver i w pr payload st) = next_desc_id st"
  "next_waiter_id (deliver i w pr payload st) = next_waiter_id st"
  by (simp_all add: deliver_def Let_def)

lemma waiters_deliver [simp]:
  "waiters (deliver i w pr payload st) =
     bt_insert w (pr\<lparr>pending_result := Some (Some (take (pending_length pr) payload))\<rparr>) (waiters st)"
  by (simp add: deliver_def Let_def min_def)

lemma pipes_deliver:
  "bt_get (pipes (deliver i w pr payload st)) j =
     (if j = i \<and> pending_length pr < length payload
      then map_option (\<lambda>p. p\<lparr>pipe_buffer := pipe_buffer p @ [drop (pending_length pr) payload]\<rparr>) (bt_get (pipes st) i)
      else bt_get (pipes st) j)"
  by (auto simp: deliver_def Let_def min_def)

text \<open>How many bytes of a payload a buffer with this much room takes.\<close>

definition accepted :: "nat \<Rightarrow> bytes \<Rightarrow> nat" where
  "accepted free payload =
     (if length payload \<le> PIPE_BUF_BYTES then (if length payload \<le> free then length payload else 0)
      else min free (length payload))"

lemma write_buffered_accepts:
  assumes "accepted (available_capacity p) payload > 0 \<or> payload = []"
  shows "write_buffered i payload nb p st =
     (Some (Inr (accepted (available_capacity p) payload)),
      notify_waiters_and_pollers (push_chunk i (take (accepted (available_capacity p) payload) payload) st))"
proof -
  have "buffer_size (pipe_buffer p) < MAX_PIPE_BUFFER_BYTES"
    if "length payload \<le> MAX_PIPE_BUFFER_BYTES - buffer_size (pipe_buffer p)" "payload \<noteq> []"
    using that by (cases payload) auto
  with assms show ?thesis
    by (auto simp: write_buffered_def accepted_def available_capacity_def Let_def split: if_splits)
qed

lemma write_buffered_full:
  assumes "\<not> (accepted (available_capacity p) payload > 0 \<or> payload = [])"
  shows "write_buffered i payload nb p st =
     (if nb then Some (Inl (Pipe_would_block ''pipe buffer full'')) else None, st)"
  using assms
  by (auto simp: write_buffered_def accepted_def available_capacity_def Let_def PIPE_BUF_BYTES_def split: if_splits)

lemma accepted_le: "accepted free payload \<le> length payload" "accepted free payload \<le> free"
  by (auto simp: accepted_def)

text \<open>
  An attempt to write skips the queued ids whose waiter is gone, and then either hands over to the
  first live waiter or goes to the buffer.
\<close>

lemma write_loop_errors:
  "bt_get (pipes st) i = None \<Longrightarrow> write_loop i payload nb st = (Some (Inl (Pipe_bad_fd ''pipe not found'')), st)"
  "bt_get (pipes st) i = Some p \<Longrightarrow> closed_write p \<Longrightarrow>
     write_loop i payload nb st = (Some (Inl (Broken_pipe ''write end closed'')), st)"
  "bt_get (pipes st) i = Some p \<Longrightarrow> \<not> closed_write p \<Longrightarrow> closed_read p \<Longrightarrow>
     write_loop i payload nb st = (Some (Inl (Broken_pipe ''read end closed'')), st)"
  by (subst write_loop.simps, simp)+

definition skip_waiters :: "u64 \<Rightarrow> pipe_state \<Rightarrow> u64 list \<Rightarrow> pipe_manager \<Rightarrow> pipe_manager" where
  "skip_waiters i p rest st = st\<lparr>pipes := bt_insert i (p\<lparr>waiting_reads := rest\<rparr>) (pipes st)\<rparr>"

lemma skip_waiters_frame [frame_simps, simp]:
  "desc_to_pipe (skip_waiters i p rest st) = desc_to_pipe st"
  "waiters (skip_waiters i p rest st) = waiters st"
  "next_pipe_id (skip_waiters i p rest st) = next_pipe_id st"
  "next_desc_id (skip_waiters i p rest st) = next_desc_id st"
  "next_waiter_id (skip_waiters i p rest st) = next_waiter_id st"
  "bt_get (pipes (skip_waiters i p rest st)) j =
     (if j = i then Some (p\<lparr>waiting_reads := rest\<rparr>) else bt_get (pipes st) j)"
  by (simp_all add: skip_waiters_def)

lemma write_loop_open:
  assumes "bt_get (pipes st) i = Some p" "\<not> closed_write p" "\<not> closed_read p"
  shows "write_loop i payload nb st =
    (case dropWhile (\<lambda>w. \<not> bt_contains (waiters st) w) (waiting_reads p) of
       [] \<Rightarrow> write_buffered i payload nb p (skip_waiters i p [] st)
     | w # rest \<Rightarrow> (Some (Inr (length payload)),
         deliver i w (the (bt_get (waiters st) w)) payload (skip_waiters i p rest st)))"
  using assms
proof (induction "waiting_reads p" arbitrary: p st)
  case Nil
  then have "skip_waiters i p [] st = st" by (simp add: skip_waiters_def bt_insert_idem)
  with Nil show ?case by (subst write_loop.simps) simp
next
  case (Cons w ws)
  note wr = Cons.hyps(2) [symmetric]
  show ?case
  proof (cases "bt_get (waiters st) w")
    case None
    let ?p = "p\<lparr>waiting_reads := ws\<rparr>" and ?st = "skip_waiters i p ws st"
    have "write_loop i payload nb st = write_loop i payload nb ?st"
      using Cons.prems wr None by (subst write_loop.simps) (simp add: skip_waiters_def)
    also have "\<dots> = (case dropWhile (\<lambda>w. \<not> bt_contains (waiters ?st) w) (waiting_reads ?p) of
       [] \<Rightarrow> write_buffered i payload nb ?p (skip_waiters i ?p [] ?st)
     | w # rest \<Rightarrow> (Some (Inr (length payload)),
         deliver i w (the (bt_get (waiters ?st) w)) payload (skip_waiters i ?p rest ?st)))"
      using Cons.prems by (intro Cons.hyps(1)) simp_all
    also have "\<dots> = (case dropWhile (\<lambda>w. \<not> bt_contains (waiters st) w) ws of
       [] \<Rightarrow> write_buffered i payload nb p (skip_waiters i p [] st)
     | w # rest \<Rightarrow> (Some (Inr (length payload)),
         deliver i w (the (bt_get (waiters st) w)) payload (skip_waiters i p rest st)))"
      by (simp add: skip_waiters_def write_buffered_def cong: list.case_cong)
    finally show ?thesis using None wr by (simp add: bt_contains_def)
  next
    case (Some pr)
    then show ?thesis
      using Cons.prems wr by (subst write_loop.simps) (simp add: skip_waiters_def bt_contains_def)
  qed
qed

section \<open>The two ends of a pipe\<close>

text \<open>
  \<open>ends_ok\<close>: a registered end refers to a pipe on which that end is open, an open end has exactly one
  registered description, a pipe with both ends closed is gone, and the id counters are ahead of every
  id in use.
\<close>

fun end_closed :: "pipe_side \<Rightarrow> pipe_state \<Rightarrow> bool" where
  "end_closed Read_side p = closed_read p"
| "end_closed Write_side p = closed_write p"

definition ends_ok :: "pipe_manager \<Rightarrow> bool" where
  "ends_ok st \<longleftrightarrow>
     (\<forall>d r. bt_get (desc_to_pipe st) d = Some r \<longrightarrow>
        d < next_desc_id st \<and> (\<exists>p. bt_get (pipes st) (ref_pipe_id r) = Some p \<and> \<not> end_closed (ref_end r) p)) \<and>
     (\<forall>d d' r. bt_get (desc_to_pipe st) d = Some r \<longrightarrow> bt_get (desc_to_pipe st) d' = Some r \<longrightarrow> d = d') \<and>
     (\<forall>i p. bt_get (pipes st) i = Some p \<longrightarrow>
        i < next_pipe_id st \<and> \<not> (closed_read p \<and> closed_write p) \<and>
        (\<forall>e. \<not> end_closed e p \<longrightarrow> (\<exists>d. bt_get (desc_to_pipe st) d = Some \<lparr>ref_pipe_id = i, ref_end = e\<rparr>)))"

text \<open>Every operation but creation and closing keeps the ends as they are.\<close>

definition same_ends :: "pipe_manager \<Rightarrow> pipe_manager \<Rightarrow> bool" where
  "same_ends st st' \<longleftrightarrow>
     desc_to_pipe st' = desc_to_pipe st \<and> next_pipe_id st' = next_pipe_id st \<and>
     next_desc_id st' = next_desc_id st \<and>
     (\<forall>i. map_option (\<lambda>p. (closed_read p, closed_write p)) (bt_get (pipes st') i) =
          map_option (\<lambda>p. (closed_read p, closed_write p)) (bt_get (pipes st) i))"

lemma ends_okD:
  assumes "ends_ok st"
  shows "bt_get (desc_to_pipe st) d = Some r \<Longrightarrow> d < next_desc_id st"
    and "bt_get (desc_to_pipe st) d = Some r \<Longrightarrow>
      \<exists>p. bt_get (pipes st) (ref_pipe_id r) = Some p \<and> \<not> end_closed (ref_end r) p"
    and "bt_get (desc_to_pipe st) d = Some r \<Longrightarrow> bt_get (desc_to_pipe st) d' = Some r \<Longrightarrow> d = d'"
    and "bt_get (pipes st) i = Some p \<Longrightarrow> i < next_pipe_id st"
    and "bt_get (pipes st) i = Some p \<Longrightarrow> \<not> (closed_read p \<and> closed_write p)"
    and "bt_get (pipes st) i = Some p \<Longrightarrow> \<not> end_closed e p \<Longrightarrow>
      \<exists>d. bt_get (desc_to_pipe st) d = Some \<lparr>ref_pipe_id = i, ref_end = e\<rparr>"
  using assms unfolding ends_ok_def by blast+

lemma ends_okI:
  assumes "\<And>d r. bt_get (desc_to_pipe st) d = Some r \<Longrightarrow> d < next_desc_id st"
    and "\<And>d r. bt_get (desc_to_pipe st) d = Some r \<Longrightarrow>
      \<exists>p. bt_get (pipes st) (ref_pipe_id r) = Some p \<and> \<not> end_closed (ref_end r) p"
    and "\<And>d d' r. bt_get (desc_to_pipe st) d = Some r \<Longrightarrow> bt_get (desc_to_pipe st) d' = Some r \<Longrightarrow> d = d'"
    and "\<And>i p. bt_get (pipes st) i = Some p \<Longrightarrow> i < next_pipe_id st"
    and "\<And>i p. bt_get (pipes st) i = Some p \<Longrightarrow> \<not> (closed_read p \<and> closed_write p)"
    and "\<And>i p e. bt_get (pipes st) i = Some p \<Longrightarrow> \<not> end_closed e p \<Longrightarrow>
      \<exists>d. bt_get (desc_to_pipe st) d = Some \<lparr>ref_pipe_id = i, ref_end = e\<rparr>"
  shows "ends_ok st"
  unfolding ends_ok_def by (intro conjI allI impI; (rule assms; assumption))

lemma same_ends_ok:
  assumes "ends_ok st" "same_ends st st'"
  shows "ends_ok st'"
proof -
  have eq: "map_option (\<lambda>p. (closed_read p, closed_write p)) (bt_get (pipes st') i) =
      map_option (\<lambda>p. (closed_read p, closed_write p)) (bt_get (pipes st) i)" for i
    using assms(2) by (simp add: same_ends_def)
  have get: "\<exists>q. bt_get (pipes st') i = Some q \<and> closed_read q = closed_read p \<and> closed_write q = closed_write p"
    if "bt_get (pipes st) i = Some p" for i p
    using eq [of i] that by (cases "bt_get (pipes st') i") auto
  have get': "\<exists>q. bt_get (pipes st) i = Some q \<and> closed_read q = closed_read p \<and> closed_write q = closed_write p"
    if "bt_get (pipes st') i = Some p" for i p
    using eq [of i] that by (cases "bt_get (pipes st) i") auto
  have e: "end_closed s p = end_closed s q" if "closed_read q = closed_read p" "closed_write q = closed_write p" for s p q
    using that by (cases s) auto
  have eqs: "desc_to_pipe st' = desc_to_pipe st" "next_pipe_id st' = next_pipe_id st" "next_desc_id st' = next_desc_id st"
    using assms(2) by (auto simp: same_ends_def)
  show ?thesis
  proof (rule ends_okI)
    show "\<exists>p. bt_get (pipes st') (ref_pipe_id r) = Some p \<and> \<not> end_closed (ref_end r) p"
      if d: "bt_get (desc_to_pipe st') d = Some r" for d r
    proof -
      from ends_okD(2) [OF assms(1) d [unfolded eqs]] obtain p
        where "bt_get (pipes st) (ref_pipe_id r) = Some p" "\<not> end_closed (ref_end r) p" by blast
      with get show ?thesis by (metis e)
    qed
    show "i < next_pipe_id st'" if "bt_get (pipes st') i = Some p" for i p
      using get' [OF that] ends_okD(4) [OF assms(1)] eqs by auto
    show "\<not> (closed_read p \<and> closed_write p)" if "bt_get (pipes st') i = Some p" for i p
      using get' [OF that] ends_okD(5) [OF assms(1)] by metis
    show "\<exists>d. bt_get (desc_to_pipe st') d = Some \<lparr>ref_pipe_id = i, ref_end = s\<rparr>"
      if "bt_get (pipes st') i = Some p" "\<not> end_closed s p" for i p s
      using get' [OF that(1)] that(2) ends_okD(6) [OF assms(1)] e unfolding eqs by metis
  qed (use ends_okD(1,3) [OF assms(1)] in \<open>auto simp: eqs\<close>)
qed

lemma same_ends_refl [simp]: "same_ends st st"
  by (simp add: same_ends_def)

lemma same_ends_write_loop: "same_ends st (snd (write_loop i payload nb st))"
proof (cases "bt_get (pipes st) i")
  case None
  then show ?thesis by (simp add: write_loop_errors)
next
  case (Some p)
  consider "closed_write p" | "\<not> closed_write p" "closed_read p" | "\<not> closed_write p" "\<not> closed_read p" by blast
  then show ?thesis
  proof cases
    case 3
    from Some show ?thesis
      unfolding write_loop_open [OF Some 3]
      by (auto simp: same_ends_def frame_simps pipes_deliver write_buffered_def Let_def split: list.splits)
  qed (simp_all add: Some write_loop_errors)
qed

lemma same_ends_cancel: "same_ends st (cancel_reader i w st)"
  by (auto simp: same_ends_def cancel_reader_def option.map_comp comp_def)

lemma same_ends_trans: "same_ends a b \<Longrightarrow> same_ends b c \<Longrightarrow> same_ends a c"
  by (simp add: same_ends_def)

lemma same_ends_register:
  "bt_get (pipes st) i = Some p \<Longrightarrow> same_ends st (snd (register_reader i p len st))"
  by (simp add: same_ends_def register_reader_def Let_def)

lemma same_ends_read_pass: "same_ends st (snd (read_pass i len dl now w st))"
proof -
  have c: "same_ends st (cancel_reader i (fst (register_reader i p len st)) (snd (register_reader i p len st)))"
    if "bt_get (pipes st) i = Some p" for p
    using same_ends_trans [OF same_ends_register [OF that] same_ends_cancel] .
  show ?thesis
    by (auto simp: read_pass_def same_ends_cancel same_ends_register c same_ends_def [of st "st\<lparr>waiters := _\<rparr>"]
        same_ends_def [of st "notify_waiters_and_pollers _"] case_prod_unfold Let_def split: option.splits)
qed

lemma same_ends_read_resume: "same_ends st (snd (read_resume i len dl timed_out now w st))"
  by (simp add: read_resume_def Let_def same_ends_read_pass same_ends_cancel)

definition can_create :: "pipe_manager \<Rightarrow> bool" where
  "can_create st \<longleftrightarrow>
     next_pipe_id st \<noteq> - 1 \<and> next_desc_id st \<noteq> - 1 \<and> next_desc_id st + 1 \<noteq> - 1"

lemma ends_ok_register_pipe:
  assumes ok: "ends_ok st" and "can_create st"
  shows "ends_ok (snd (register_pipe st))"
proof -
  let ?i = "next_pipe_id st" and ?r = "next_desc_id st" and ?st = "snd (register_pipe st)"
  have ord: "?i < ?i + 1" "?r < ?r + 1" "?r + 1 < ?r + 1 + 1"
    using assms(2) unfolding can_create_def by (blast intro: less_succ_word)+
  have fresh: "bt_get (pipes st) ?i = None"
    using ends_okD(4) [OF ok] by (metis not_None_eq order_less_irrefl)
  have desc: "d < ?r" "ref_pipe_id r < ?i" if "bt_get (desc_to_pipe st) d = Some r" for d r
    using ends_okD(1,2) [OF ok that] ends_okD(4) [OF ok] by auto
  have d2p: "bt_get (desc_to_pipe ?st) d =
      (if d = ?r + 1 then Some \<lparr>ref_pipe_id = ?i, ref_end = Write_side\<rparr>
       else if d = ?r then Some \<lparr>ref_pipe_id = ?i, ref_end = Read_side\<rparr>
       else bt_get (desc_to_pipe st) d)" for d
    by (simp add: register_pipe_def Let_def)
  have ps: "bt_get (pipes ?st) j = (if j = ?i then Some default_pipe else bt_get (pipes st) j)" for j
    by (simp add: register_pipe_def Let_def)
  have nx: "next_pipe_id ?st = ?i + 1" "next_desc_id ?st = ?r + 1 + 1"
    by (simp_all add: register_pipe_def Let_def)
  show ?thesis
  proof (rule ends_okI)
    show "d < next_desc_id ?st" if "bt_get (desc_to_pipe ?st) d = Some r" for d r
      using that desc(1) [of d r] ord unfolding d2p nx by (auto split: if_splits)
    show "\<exists>p. bt_get (pipes ?st) (ref_pipe_id r) = Some p \<and> \<not> end_closed (ref_end r) p"
      if "bt_get (desc_to_pipe ?st) d = Some r" for d r
      using that desc(2) [of d r] ends_okD(2) [OF ok, of d r]
      unfolding d2p ps by (auto simp: default_pipe_def split: if_splits)
    show "d = d'" if "bt_get (desc_to_pipe ?st) d = Some r" "bt_get (desc_to_pipe ?st) d' = Some r" for d d' r
      using that desc(2) [of d r] desc(2) [of d' r] ends_okD(3) [OF ok, of d r d']
      unfolding d2p by (auto split: if_splits)
    show "j < next_pipe_id ?st" if "bt_get (pipes ?st) j = Some p" for j p
      using that ends_okD(4) [OF ok, of j p] ord(1) unfolding ps nx by (auto split: if_splits)
    show "\<not> (closed_read p \<and> closed_write p)" if "bt_get (pipes ?st) j = Some p" for j p
      using that ends_okD(5) [OF ok, of j p] unfolding ps by (auto simp: default_pipe_def split: if_splits)
    show "\<exists>d. bt_get (desc_to_pipe ?st) d = Some \<lparr>ref_pipe_id = j, ref_end = e\<rparr>"
      if "bt_get (pipes ?st) j = Some p" "\<not> end_closed e p" for j p e
    proof (cases "j = ?i")
      case True
      then show ?thesis
        using ord(2) by (cases e) (auto simp: d2p intro: exI [of _ ?r] exI [of _ "?r + 1"])
    next
      case False
      with that ps have "bt_get (pipes st) j = Some p" by simp
      from ends_okD(6) [OF ok this that(2)] obtain d
        where d: "bt_get (desc_to_pipe st) d = Some \<lparr>ref_pipe_id = j, ref_end = e\<rparr>" by blast
      from desc(1) [OF d] ord have "d \<noteq> ?r" "d \<noteq> ?r + 1" by auto
      with d show ?thesis by (auto simp: d2p intro: exI [of _ d])
    qed
  qed
qed

lemma pipe_close_pipe:
  assumes "bt_get (desc_to_pipe st) d = Some r" "bt_get (pipes st) (ref_pipe_id r) = Some p"
  shows "bt_get (pipes (pipe_close d st)) j =
    (if j = ref_pipe_id r then
       (case ref_end r of
          Read_side \<Rightarrow> if closed_write p then None else Some (p\<lparr>closed_read := True\<rparr>)
        | Write_side \<Rightarrow> if closed_read p then None else Some (p\<lparr>closed_write := True, waiting_reads := []\<rparr>))
     else bt_get (pipes st) j)"
  using assms by (cases "ref_end r") (simp_all add: pipe_close_def Let_def)

lemma pipe_close_frame [frame_simps]:
  "desc_to_pipe (pipe_close d st) = bt_remove d (desc_to_pipe st)"
  "next_pipe_id (pipe_close d st) = next_pipe_id st"
  "next_desc_id (pipe_close d st) = next_desc_id st"
  "next_waiter_id (pipe_close d st) = next_waiter_id st"
  by (simp_all add: pipe_close_def Let_def bt_remove_absent case_prod_unfold
      split: option.splits pipe_side.splits)

lemma ends_ok_close:
  assumes ok: "ends_ok st"
  shows "ends_ok (pipe_close d st)"
proof (cases "bt_get (desc_to_pipe st) d")
  case None
  with ok show ?thesis by (simp add: pipe_close_def)
next
  case (Some r)
  from ends_okD(2) [OF ok Some] obtain p
    where p: "bt_get (pipes st) (ref_pipe_id r) = Some p" "\<not> end_closed (ref_end r) p" by blast
  note ps = pipe_close_pipe [OF Some p(1)] and fr = pipe_close_frame [of d st]
  have other: "ref_pipe_id r' \<noteq> ref_pipe_id r \<or> ref_end r' \<noteq> ref_end r"
    if "bt_get (desc_to_pipe st) d' = Some r'" "d' \<noteq> d" for d' r'
    using ends_okD(3) [OF ok, of d r d'] Some that by (metis (full_types) pipe_ref.equality old.unit.exhaust)
  show ?thesis
  proof (rule ends_okI)
    show "\<exists>q. bt_get (pipes (pipe_close d st)) (ref_pipe_id r') = Some q \<and> \<not> end_closed (ref_end r') q"
      if "bt_get (desc_to_pipe (pipe_close d st)) d' = Some r'" for d' r'
    proof -
      from that have d': "bt_get (desc_to_pipe st) d' = Some r'" "d' \<noteq> d" by (auto simp: fr split: if_splits)
      from ends_okD(2) [OF ok d'(1)] other [OF d'] p show ?thesis
        unfolding ps by (cases "ref_end r"; cases "ref_end r'") auto
    qed
    show "\<not> (closed_read q \<and> closed_write q)" if "bt_get (pipes (pipe_close d st)) j = Some q" for j q
      using that ends_okD(5) [OF ok, of j q] p unfolding ps by (auto split: if_splits pipe_side.splits)
    show "j < next_pipe_id (pipe_close d st)" if "bt_get (pipes (pipe_close d st)) j = Some q" for j q
      using that ends_okD(4) [OF ok, of j] p unfolding ps fr by (auto split: if_splits pipe_side.splits)
    show "\<exists>d'. bt_get (desc_to_pipe (pipe_close d st)) d' = Some \<lparr>ref_pipe_id = j, ref_end = e\<rparr>"
      if q: "bt_get (pipes (pipe_close d st)) j = Some q" "\<not> end_closed e q" for j q e
    proof -
      have ne: "j \<noteq> ref_pipe_id r \<or> e \<noteq> ref_end r"
        using q p unfolding ps by (cases "ref_end r"; cases e) (auto split: if_splits)
      have "\<exists>q'. bt_get (pipes st) j = Some q' \<and> \<not> end_closed e q'"
        using q p unfolding ps by (cases "ref_end r"; cases e) (auto split: if_splits)
      then obtain d' where "bt_get (desc_to_pipe st) d' = Some \<lparr>ref_pipe_id = j, ref_end = e\<rparr>"
        using ends_okD(6) [OF ok] by blast
      moreover from this ne Some have "d' \<noteq> d" by auto
      ultimately show ?thesis by (auto simp: fr)
    qed
  qed (use ends_okD(1,3) [OF ok] in \<open>auto simp: fr split: if_splits\<close>)
qed

section \<open>Runs\<close>

text \<open>
  Any number of threads use the manager: a run interleaves creations, closes, and the passes of reads
  and writes.  The passes carry arbitrary arguments, which covers every thread that can be inside one.
\<close>

datatype pipe_event =
    New_pipe
  | Close_end u64
  | Write_attempt u64 bytes bool
  | Read_attempt u64 nat "nat option" nat "u64 option"
  | Read_wakeup u64 nat "nat option" bool nat u64

fun pipe_step :: "pipe_event \<Rightarrow> pipe_manager \<Rightarrow> pipe_manager" where
  "pipe_step New_pipe st = snd (register_pipe st)"
| "pipe_step (Close_end d) st = pipe_close d st"
| "pipe_step (Write_attempt i payload nb) st = snd (write_loop i payload nb st)"
| "pipe_step (Read_attempt i len deadline now w) st = snd (read_pass i len deadline now w st)"
| "pipe_step (Read_wakeup i len deadline timed_out now w) st =
     snd (read_resume i len deadline timed_out now w st)"

fun pipe_enabled :: "pipe_event \<Rightarrow> pipe_manager \<Rightarrow> bool" where
  "pipe_enabled New_pipe st = can_create st"
| "pipe_enabled _ st = True"

interpretation pipe_system: guarded_system "new_pipe_manager n" pipe_enabled pipe_step ends_ok
proof
  show "ends_ok (new_pipe_manager n)" by (simp add: ends_ok_def new_pipe_manager_def)
  show "ends_ok (pipe_step e s)" if "ends_ok s" "pipe_enabled e s" for s e
    using that
    by (cases e) (auto intro: ends_ok_register_pipe ends_ok_close same_ends_ok
        [OF _ same_ends_write_loop] same_ends_ok [OF _ same_ends_read_pass] same_ends_ok [OF _ same_ends_read_resume])
qed

text \<open>An operation that does not notify leaves the buffers and the open ends alone.\<close>

lemma silent_step:
  assumes "wakeups (pipe_step e st) = wakeups st" "e \<noteq> New_pipe" "ends_ok st"
    and "bt_get (pipes (pipe_step e st)) i = Some q"
  shows "desc_to_pipe (pipe_step e st) = desc_to_pipe st \<and>
    (\<exists>p. bt_get (pipes st) i = Some p \<and> pipe_buffer q = pipe_buffer p \<and> closed_read q = closed_read p \<and>
      closed_write q = closed_write p \<and> (waiting_reads p = [] \<longrightarrow> waiting_reads q = []))"
proof (cases e)
  case New_pipe
  with assms show ?thesis by simp
next
  case (Close_end d)
  show ?thesis
  proof (cases "bt_get (desc_to_pipe st) d")
    case None
    with assms Close_end show ?thesis by (auto simp: pipe_close_def)
  next
    case (Some r)
    with ends_okD(2) [OF assms(3) Some] assms(1) Close_end show ?thesis
      by (auto simp: pipe_close_def Let_def case_prod_unfold finish_waiters_def split: if_splits pipe_side.splits)
  qed
next
  case (Write_attempt j payload nb)
  show ?thesis
  proof (cases "bt_get (pipes st) j")
    case None
    with assms Write_attempt show ?thesis by (auto simp: write_loop_errors)
  next
    case (Some p)
    consider "closed_write p" | "\<not> closed_write p" "closed_read p" | "\<not> closed_write p" "\<not> closed_read p" by blast
    then show ?thesis
    proof cases
      case 3
      from assms Some Write_attempt show ?thesis
        by (auto simp: write_loop_open [OF Some 3] deliver_def write_buffered_def Let_def skip_waiters_def
            split: list.splits if_splits)
    qed (use assms Some Write_attempt in \<open>auto simp: write_loop_errors\<close>)
  qed
next
  case (Read_attempt j len deadline now w)
  with assms show ?thesis
    by (auto simp: read_pass_def register_reader_def cancel_reader_def Let_def case_prod_unfold
        split: option.splits if_splits)
next
  case (Read_wakeup j len deadline timed_out now w)
  with assms show ?thesis
    by (auto simp: read_resume_def read_pass_def register_reader_def cancel_reader_def Let_def case_prod_unfold
        split: option.splits if_splits)
qed

text \<open>Threads and pollers are notified together: the generation moves once per wake-up.\<close>

definition notified :: "pipe_manager \<Rightarrow> pipe_manager \<Rightarrow> bool" where
  "notified st st' \<longleftrightarrow>
     (\<exists>k. wakeups st' = wakeups st + k \<and> notifier st' = map_option (notify ^^ k) (notifier st))"

lemma notified_refl [simp]: "notified st st"
  unfolding notified_def by (rule exI [of _ 0]) (simp add: option.map_id0)

lemma notified_frame [simp]:
  "notified st (st'\<lparr>pipes := ps\<rparr>) = notified st st'" "notified st (st'\<lparr>waiters := ws\<rparr>) = notified st st'"
  "notified st (st'\<lparr>desc_to_pipe := ds\<rparr>) = notified st st'" "notified st (st'\<lparr>next_pipe_id := i\<rparr>) = notified st st'"
  "notified st (st'\<lparr>next_desc_id := i\<rparr>) = notified st st'" "notified st (st'\<lparr>next_waiter_id := i\<rparr>) = notified st st'"
  by (simp_all add: notified_def)

lemma notified_notify: "notified st st' \<Longrightarrow> notified st (notify_waiters_and_pollers st')"
  unfolding notified_def
proof (elim exE conjE)
  fix k
  assume "wakeups st' = wakeups st + k" "notifier st' = map_option (notify ^^ k) (notifier st)"
  then show "\<exists>k. wakeups (notify_waiters_and_pollers st') = wakeups st + k \<and>
      notifier (notify_waiters_and_pollers st') = map_option (notify ^^ k) (notifier st)"
    by (intro exI [of _ "Suc k"]) (simp add: notify_waiters_and_pollers_def option.map_comp comp_def)
qed

lemma notified_write_loop: "notified st (snd (write_loop i payload nb st))"
proof (cases "bt_get (pipes st) i")
  case None
  then show ?thesis by (simp add: write_loop_errors)
next
  case (Some p)
  consider "closed_write p" | "\<not> closed_write p" "closed_read p" | "\<not> closed_write p" "\<not> closed_read p" by blast
  then show ?thesis
  proof cases
    case 3
    show ?thesis
      by (auto simp: write_loop_open [OF Some 3] deliver_def write_buffered_def Let_def skip_waiters_def push_chunk_def
          intro!: notified_notify split: list.splits)
  qed (simp_all add: Some write_loop_errors)
qed

lemma notified_step: "notified st (pipe_step e st)"
proof (cases e)
  case (Write_attempt i payload nb)
  then show ?thesis by (simp add: notified_write_loop)
qed (auto simp: register_pipe_def pipe_close_def read_resume_def read_pass_def register_reader_def
      cancel_reader_def finish_waiters_def Let_def case_prod_unfold
      intro!: notified_notify split: option.splits pipe_side.splits)

lemma notify_le: "g \<le> (notify ^^ k) g"
proof (induction k)
  case (Suc k)
  have "x \<le> notify x" for x :: u64
    unfolding notify_def saturating_succ_def using less_succ_word [of x] by (auto intro: less_imp_le)
  with Suc show ?case by (metis comp_apply funpow.simps(2) order_trans)
qed simp

lemma notify_greater: "g \<noteq> - 1 \<Longrightarrow> 0 < k \<Longrightarrow> g < (notify ^^ k) g"
proof -
  assume g: "g \<noteq> - 1" "0 < k"
  then obtain j where k: "k = Suc j" by (cases k) auto
  have "g < notify g" using g less_succ_word [of g] by (simp add: notify_def saturating_succ_def)
  also have "\<dots> \<le> (notify ^^ j) (notify g)" by (rule notify_le)
  finally show ?thesis by (simp add: k funpow_swap1)
qed

lemma wakeups_mono: "wakeups st \<le> wakeups (pipe_step e st)"
  using notified_step [of st e] by (auto simp: notified_def)

section \<open>Abandoned entries\<close>

text \<open>
  The waiter entry of a reader that has returned: it is in no queue, and no thread acts for it any more.
  \<open>acts_for\<close> is the waiter id a pass of a read is called with.
\<close>

fun acts_for :: "pipe_event \<Rightarrow> u64 option" where
  "acts_for (Read_attempt i len deadline now w) = w"
| "acts_for (Read_wakeup i len deadline timed_out now w) = Some w"
| "acts_for _ = None"

definition abandoned :: "u64 \<Rightarrow> pending_read \<Rightarrow> pipe_manager \<Rightarrow> bool" where
  "abandoned w pr st \<longleftrightarrow> bt_get (waiters st) w = Some pr \<and> w < next_waiter_id st \<and>
     (\<forall>i p. bt_get (pipes st) i = Some p \<longrightarrow> w \<notin> set (waiting_reads p))"

lemma abandoned_notify [simp]: "abandoned w pr (notify_waiters_and_pollers st) = abandoned w pr st"
  by (simp add: abandoned_def)

lemma abandoned_put:
  "abandoned w pr st \<Longrightarrow> w \<notin> set (waiting_reads p) \<Longrightarrow> abandoned w pr (st\<lparr>pipes := bt_insert i p (pipes st)\<rparr>)"
  by (auto simp: abandoned_def)

lemma abandoned_waiter:
  "abandoned w pr st \<Longrightarrow> v \<noteq> w \<Longrightarrow> abandoned w pr (st\<lparr>waiters := bt_remove v (waiters st)\<rparr>)"
  "abandoned w pr st \<Longrightarrow> v \<noteq> w \<Longrightarrow> abandoned w pr (st\<lparr>waiters := bt_insert v x (waiters st)\<rparr>)"
  by (auto simp: abandoned_def)

lemma abandoned_queue: "abandoned w pr st \<Longrightarrow> bt_get (pipes st) i = Some p \<Longrightarrow> w \<notin> set (waiting_reads p)"
  by (auto simp: abandoned_def)

lemma abandoned_push: "abandoned w pr st \<Longrightarrow> abandoned w pr (push_chunk i c st)"
  by (auto simp: abandoned_def split: if_splits)

lemma abandoned_write_loop:
  assumes a: "abandoned w pr st"
  shows "abandoned w pr (snd (write_loop i payload nb st))"
proof (cases "bt_get (pipes st) i")
  case None
  with a show ?thesis by (simp add: write_loop_errors)
next
  case (Some p)
  consider "closed_write p" | "\<not> closed_write p" "closed_read p" | "\<not> closed_write p" "\<not> closed_read p" by blast
  then show ?thesis
  proof cases
    case 3
    let ?queue = "dropWhile (\<lambda>w. \<not> bt_contains (waiters st) w) (waiting_reads p)"
    have q: "w \<notin> set (waiting_reads p)" by (rule abandoned_queue [OF a Some])
    have skip: "abandoned w pr (skip_waiters i p rest st)" if "set rest \<subseteq> set (waiting_reads p)" for rest
      unfolding skip_waiters_def using a that q by (intro abandoned_put) auto
    show ?thesis
    proof (cases ?queue)
      case Nil
      have "abandoned w pr (snd (write_buffered i payload nb p (skip_waiters i p [] st)))"
        using skip [of "[]"] by (auto simp: write_buffered_def Let_def intro: abandoned_push)
      then show ?thesis unfolding write_loop_open [OF Some 3] Nil by simp
    next
      case (Cons v rest)
      have "set ?queue \<subseteq> set (waiting_reads p)" by (auto dest: set_dropWhileD)
      with Cons q have v: "v \<noteq> w" "set rest \<subseteq> set (waiting_reads p)" by auto
      have "abandoned w pr (push_chunk i c (skip_waiters i p rest st))" for c by (rule abandoned_push [OF skip [OF v(2)]])
      with abandoned_waiter(2) [OF _ v(1)] skip [OF v(2)] show ?thesis
        unfolding write_loop_open [OF Some 3] Cons by (simp add: deliver_def Let_def)
    qed
  qed (use a in \<open>simp_all add: Some write_loop_errors\<close>)
qed

lemma abandoned_register_reader:
  assumes a: "abandoned w pr st" and p: "bt_get (pipes st) i = Some p" and n: "next_waiter_id st \<noteq> - 1"
  shows "abandoned w pr (snd (register_reader i p len st))" "fst (register_reader i p len st) \<noteq> w"
proof -
  have "w < next_waiter_id st" using a by (simp add: abandoned_def)
  moreover have "next_waiter_id st < next_waiter_id st + 1" by (rule less_succ_word [OF n])
  ultimately show "abandoned w pr (snd (register_reader i p len st))" "fst (register_reader i p len st) \<noteq> w"
    using a p by (auto simp: abandoned_def register_reader_def Let_def split: if_splits)
qed

lemma abandoned_cancel: "abandoned w pr st \<Longrightarrow> v \<noteq> w \<Longrightarrow> abandoned w pr (cancel_reader i v st)"
  by (auto simp: abandoned_def cancel_reader_def split: if_splits)

lemma abandoned_read_pass:
  assumes a: "abandoned w pr st" and v: "v \<noteq> Some w" and n: "next_waiter_id st \<noteq> - 1"
  shows "abandoned w pr (snd (read_pass i len deadline now v st))"
proof (cases "delivered_result v st")
  case (Some x)
  then have "fst x \<noteq> w" using v by (auto simp: delivered_result_def split: option.splits)
  with a Some show ?thesis by (simp add: read_pass_def abandoned_waiter split_beta)
next
  case None
  show ?thesis
  proof (cases "bt_get (pipes st) i")
    case (Some p)
    note put = abandoned_put [OF a, of "p\<lparr>pipe_buffer := left\<rparr>" for left] and queue = abandoned_queue [OF a Some]
    note reg = abandoned_register_reader [OF a Some n, of len]
    have wait: "abandoned w pr (snd (case v of Some i \<Rightarrow> (i, st) | None \<Rightarrow> register_reader i p len st))"
      "fst (case v of Some i \<Rightarrow> (i, st) | None \<Rightarrow> register_reader i p len st) \<noteq> w"
      using a v reg by (auto split: option.splits)
    with a v put queue None Some abandoned_waiter(1) [OF a] abandoned_cancel [OF wait] show ?thesis
      by (auto simp: read_pass_def Let_def split_beta split: option.splits)
  qed (use a None in \<open>simp add: read_pass_def\<close>)
qed

lemma abandoned_finish: "abandoned w pr st \<Longrightarrow> w \<notin> set ids \<Longrightarrow> abandoned w pr (finish_waiters ids st)"
  by (simp add: abandoned_def)

lemma abandoned_close:
  assumes a: "abandoned w pr st"
  shows "abandoned w pr (pipe_close d st)"
  using a abandoned_queue [OF a]
  by (auto simp: pipe_close_def Let_def abandoned_def split_beta split: option.splits pipe_side.splits if_splits)

lemma abandoned_step:
  assumes a: "abandoned w pr st" and e: "acts_for e \<noteq> Some w" and n: "next_waiter_id st \<noteq> - 1"
  shows "abandoned w pr (pipe_step e st)"
proof (cases e)
  case New_pipe
  with a show ?thesis by (auto simp: abandoned_def register_pipe_def default_pipe_def Let_def)
next
  case (Read_wakeup i len deadline timed_out now v)
  with a e n abandoned_read_pass abandoned_cancel show ?thesis by (auto simp: read_resume_def Let_def)
qed (use a e n in \<open>simp_all add: abandoned_close abandoned_write_loop abandoned_read_pass\<close>)

lemma abandoned_run:
  assumes "abandoned w pr st" "valid_run (\<lambda>e st. acts_for e \<noteq> Some w \<and> next_waiter_id st \<noteq> - 1) pipe_step st es"
  shows "abandoned w pr (fold pipe_step es st)"
  using assms by (induction es arbitrary: st) (auto intro: abandoned_step)

section \<open>A fresh pipe\<close>

lemma fresh_pipe_roundtrip:
  assumes "bt_get (desc_to_pipe st) wd = Some \<lparr>ref_pipe_id = i, ref_end = Write_side\<rparr>"
    and "bt_get (desc_to_pipe st) rd = Some \<lparr>ref_pipe_id = i, ref_end = Read_side\<rparr>"
    and "bt_get (pipes st) i = Some default_pipe" "payload \<noteq> []" "length payload \<le> PIPE_BUF_BYTES"
  shows "case write_with_mode wd payload nonblocking st of (n, st1) \<Rightarrow>
     n = Some (Inr (length payload)) \<and>
     fst (read_with_timeout rd (length payload) timeout start now st1) = Read_return (Inr (Some payload))"
proof -
  have op: "\<not> closed_write default_pipe" "\<not> closed_read default_pipe" by (simp_all add: default_pipe_def)
  have "skip_waiters i default_pipe [] st = st"
    using assms(3) by (simp add: skip_waiters_def bt_insert_idem default_pipe_def)
  then have w: "write_with_mode wd payload nonblocking st =
      (Some (Inr (length payload)), notify_waiters_and_pollers (push_chunk i payload st))"
    using assms(1,5) write_loop_open [OF assms(3) op, of payload nonblocking]
    by (simp add: write_with_mode_def enter_write_def write_buffered_def default_pipe_def Let_def
        MAX_PIPE_BUFFER_BYTES_def PIPE_BUF_BYTES_def)
  show ?thesis
    using assms
    by (simp add: w read_with_timeout_def enter_read_def read_pass_def delivered_result_def default_pipe_def
        drain_buffer_def)
qed

lemma create_pipe_cells:
  assumes "wf_store s" "create_pipe s st = (pair, s1, st1)"
  shows "st1 = snd (register_pipe st)"
    and "end_description (read_end pair) = next_loc s" "end_description (write_end pair) = Suc (next_loc s)"
    and "id_of s1 (next_loc s) = next_desc_id st" "id_of s1 (Suc (next_loc s)) = next_desc_id st + 1"
    and "ref_count s1 (next_loc s) = 0" "ref_count s1 (Suc (next_loc s)) = 0"
    and "bt_contains (cells s1) (next_loc s)" "bt_contains (cells s1) (Suc (next_loc s))"
  using assms(2)
  by (auto simp: create_pipe_def register_pipe_def arc_new_def Let_def id_of_def ref_count_def with_ref_count_def
      with_ref_count_and_lock_def)

lemma id_of_increment [simp]: "id_of (increment_ref_count l s) k = id_of s k"
  by (auto simp: id_of_def increment_ref_count_def split: option.splits)

section \<open>Properties\<close>

text \<open>
  (C30) A pipe lives exactly as long as one of its ends: after any interleaving of operations, a pipe
  exists iff some registered description refers to it, each of its ends is open iff exactly one
  description is registered for it, and no operation on a registered end ever finds its pipe missing.
\<close>

theorem pipe_lifecycle:
  assumes "valid_run pipe_enabled pipe_step (new_pipe_manager n) es"
    and "st = fold pipe_step es (new_pipe_manager n)"
  shows "(bt_contains (pipes st) i \<longleftrightarrow> (\<exists>d. pipe_id_for d st = Some i)) \<and>
    (\<forall>p e. bt_get (pipes st) i = Some p \<longrightarrow>
       (\<not> end_closed e p \<longleftrightarrow> (\<exists>!d. bt_get (desc_to_pipe st) d = Some \<lparr>ref_pipe_id = i, ref_end = e\<rparr>))) \<and>
    (is_pipe d st \<longrightarrow> (\<exists>ev. pipe_poll d requested st = Inr ev))"
proof -
  have ok: "ends_ok st" using pipe_system.run_inv [OF assms(1)] assms(2) by simp
  have "bt_contains (pipes st) i" if "pipe_id_for d st = Some i" for d
    using that ends_okD(2) [OF ok] by (fastforce simp: pipe_id_for_def bt_contains_def)
  moreover have "\<exists>d. pipe_id_for d st = Some i" if "bt_contains (pipes st) i"
  proof -
    from that obtain p where p: "bt_get (pipes st) i = Some p" by (auto simp: bt_contains_iff)
    with ends_okD(5) [OF ok p] obtain e where "\<not> end_closed e p" by (metis end_closed.simps)
    from ends_okD(6) [OF ok p this] obtain d
      where "bt_get (desc_to_pipe st) d = Some \<lparr>ref_pipe_id = i, ref_end = e\<rparr>" by blast
    then show ?thesis by (intro exI [of _ d]) (simp add: pipe_id_for_def)
  qed
  moreover have "\<not> end_closed e p \<longleftrightarrow>
      (\<exists>!d. bt_get (desc_to_pipe st) d = Some \<lparr>ref_pipe_id = i, ref_end = e\<rparr>)"
    if p: "bt_get (pipes st) i = Some p" for p e
  proof
    show "\<exists>!d. bt_get (desc_to_pipe st) d = Some \<lparr>ref_pipe_id = i, ref_end = e\<rparr>" if "\<not> end_closed e p"
      using ends_okD(6) [OF ok p that] ends_okD(3) [OF ok] by blast
    show "\<not> end_closed e p" if "\<exists>!d. bt_get (desc_to_pipe st) d = Some \<lparr>ref_pipe_id = i, ref_end = e\<rparr>"
      using that ends_okD(2) [OF ok] p by fastforce
  qed
  moreover have "\<exists>ev. pipe_poll d requested st = Inr ev" if "is_pipe d st"
  proof -
    from that obtain r where r: "bt_get (desc_to_pipe st) d = Some r"
      by (auto simp: is_pipe_def bt_contains_iff)
    from ends_okD(2) [OF ok r] show ?thesis by (auto simp: pipe_poll_def r)
  qed
  ultimately show ?thesis by blast
qed

theorem pipe_lifecycle_witness:
  "\<exists>st. st = fold pipe_step [New_pipe, Close_end 100000, New_pipe, Close_end 100001] (new_pipe_manager None) \<and>
     pipe_id_for 100002 st = Some 2 \<and> bt_contains (pipes st) 2 \<and> \<not> bt_contains (pipes st) 1"
proof -
  define es where "es = [New_pipe, Close_end 100000, New_pipe, Close_end 100001]"
  define st where "st = fold pipe_step es (new_pipe_manager None)"
  have v: "valid_run pipe_enabled pipe_step (new_pipe_manager None) es" unfolding es_def by code_simp
  have two: "pipe_id_for 100002 st = Some 2" unfolding st_def es_def by code_simp
  have one: "\<not> bt_contains (pipes st) 1" unfolding st_def es_def by code_simp
  have "bt_contains (pipes st) 2"
    using pipe_lifecycle [OF v st_def, THEN conjunct1, of 2] two by blast
  with two one st_def show ?thesis unfolding es_def by blast
qed

text \<open>
  (C32) Writing with both ends open and no reader waiting: at most \<open>PIPE_BUF_BYTES\<close> bytes go in whole or
  not at all, a longer payload goes in as far as there is room; the accepted bytes are appended to the
  buffered ones, the capacity is respected, and when nothing can be taken the writer gets \<open>EAGAIN\<close> or
  waits and the state is unchanged.
\<close>

theorem write_atomicity:
  assumes "enter_write d st = Inr i" "bt_get (pipes st) i = Some p"
    and "\<not> closed_write p" "\<not> closed_read p" "waiting_reads p = []"
    and "buffer_size (pipe_buffer p) \<le> MAX_PIPE_BUFFER_BYTES"
    and "free = MAX_PIPE_BUFFER_BYTES - buffer_size (pipe_buffer p)"
    and "n = (if length payload \<le> PIPE_BUF_BYTES then (if length payload \<le> free then length payload else 0)
              else min free (length payload))"
  shows "case write_with_mode d payload nonblocking st of (r, st') \<Rightarrow>
    if n > 0 \<or> payload = [] then
      r = Some (Inr n) \<and> (\<exists>p'. bt_get (pipes st') i = Some p' \<and>
        concat (pipe_buffer p') = concat (pipe_buffer p) @ take n payload \<and>
        buffer_size (pipe_buffer p') \<le> MAX_PIPE_BUFFER_BYTES)
    else r = (if nonblocking then Some (Inl (Pipe_would_block ''pipe buffer full'')) else None) \<and> st' = st"
proof -
  have n: "n = accepted (available_capacity p) payload"
    using assms(7,8) by (simp add: accepted_def available_capacity_def)
  have sk: "skip_waiters i p [] st = st"
    using assms(2,5) by (simp add: skip_waiters_def bt_insert_idem)
  have w: "write_with_mode d payload nonblocking st = write_buffered i payload nonblocking p st"
    using assms(1,5) by (simp add: write_with_mode_def write_loop_open [OF assms(2-4)] sk)
  show ?thesis
  proof (cases "n > 0 \<or> payload = []")
    case True
    have "n \<le> free" "n \<le> length payload" using accepted_le n assms(7) by (auto simp: available_capacity_def)
    with True assms(2,6,7) show ?thesis
      using write_buffered_accepts [of p payload i nonblocking st] n by (simp add: w)
  next
    case False
    then show ?thesis using write_buffered_full [of p payload i nonblocking st] n by (simp add: w)
  qed
qed

theorem write_atomicity_witness:
  "\<exists>st. st = snd (register_pipe (new_pipe_manager None)) \<and>
     (case write_with_mode 100001 [1, 2] True st of (r, st') \<Rightarrow> r = Some (Inr 2) \<and>
        (\<exists>p'. bt_get (pipes st') 1 = Some p' \<and> concat (pipe_buffer p') = [1, 2]))"
proof -
  define st where "st = snd (register_pipe (new_pipe_manager None))"
  have e: "enter_write 100001 st = Inr 1" and p: "bt_get (pipes st) 1 = Some default_pipe"
    by (simp_all add: st_def register_pipe_def new_pipe_manager_def enter_write_def Let_def)
  have "2 = (if length [1, 2 :: u8] \<le> PIPE_BUF_BYTES
      then (if length [1, 2 :: u8] \<le> MAX_PIPE_BUFFER_BYTES then length [1, 2 :: u8] else 0)
      else min MAX_PIPE_BUFFER_BYTES (length [1, 2 :: u8]))"
    by (simp add: PIPE_BUF_BYTES_def MAX_PIPE_BUFFER_BYTES_def)
  from write_atomicity [OF e p _ _ _ _ _ this, where nonblocking = True] show ?thesis
    unfolding st_def [symmetric] by (auto simp: default_pipe_def split: prod.splits)
qed

text \<open>
  (C36) Reading with no delivery pending: buffered bytes are returned from the front, at most as many as
  asked for, and the rest stays; with nothing buffered the read reports end of file exactly when the
  write end is closed, and otherwise it registers as a waiting reader and waits, or times out and is
  unregistered again.
\<close>

theorem read_correct:
  assumes "enter_read d st = Inr i" "bt_get (pipes st) i = Some p"
  shows "case read_with_timeout d len timeout start now st of (r, st') \<Rightarrow>
    if pipe_buffer p \<noteq> [] then
      r = Read_return (Inr (Some (take len (concat (pipe_buffer p))))) \<and>
      (\<exists>p'. bt_get (pipes st') i = Some p' \<and> concat (pipe_buffer p') = drop len (concat (pipe_buffer p)))
    else if closed_write p then r = Read_return (Inr None) \<and> st' = st
    else if (\<exists>t. timeout = Some t \<and> now \<ge> start + t) then
      r = Read_return (Inl (Pipe_would_block ''pipe read timed out'')) \<and>
      (\<forall>j. j \<noteq> next_waiter_id st \<longrightarrow> bt_get (waiters st') j = bt_get (waiters st) j)
    else r = Read_wait (next_waiter_id st) \<and>
      bt_get (waiters st') (next_waiter_id st) = Some \<lparr>pending_length = len, pending_result = None\<rparr> \<and>
      (\<exists>p'. bt_get (pipes st') i = Some p' \<and> waiting_reads p' = waiting_reads p @ [next_waiter_id st])"
proof -
  obtain out left where d: "drain_buffer (pipe_buffer p) len = (out, left)" by fastforce
  note dr = chunk_queue.drain_out [OF d] chunk_queue.drain_left [OF d]
  have rw: "read_with_timeout d len timeout start now st =
      read_pass i len (map_option (\<lambda>d. start + d) timeout) now None st"
    using assms(1) by (simp add: read_with_timeout_def)
  consider "pipe_buffer p \<noteq> []" | "pipe_buffer p = []" "closed_write p"
    | "pipe_buffer p = []" "\<not> closed_write p" by blast
  then show ?thesis
  proof cases
    case 1
    with assms(2) d dr show ?thesis by (simp add: rw read_pass_def delivered_result_def)
  next
    case 2
    with assms(2) show ?thesis by (simp add: rw read_pass_def delivered_result_def)
  next
    case 3
    with assms(2) show ?thesis
      unfolding rw by (cases timeout) (auto simp: read_pass_def delivered_result_def register_reader_def cancel_reader_def Let_def)
  qed
qed

theorem read_correct_witness:
  "\<exists>st. fst (read_with_timeout 100000 2 None 0 0 st) = Read_return (Inr (Some [7, 8]))"
proof -
  define st where "st = push_chunk 1 [7, 8, 9] (snd (register_pipe (new_pipe_manager None)))"
  have e: "enter_read 100000 st = Inr 1"
    and p: "bt_get (pipes st) 1 = Some (default_pipe\<lparr>pipe_buffer := [[7, 8, 9]]\<rparr>)"
    by (simp_all add: st_def register_pipe_def new_pipe_manager_def enter_read_def Let_def default_pipe_def)
  from read_correct [OF e p, of 2 None 0 0] show ?thesis by (auto split: prod.splits intro!: exI [of _ st])
qed

text \<open>
  (C33) No lost wake-ups: if an operation other than a creation makes an end of a pipe ready in a way it
  was not before (a bit of the poll result appears), then that operation has notified the waiting
  threads, and a poller that has seen the notifier before it (with a generation that is not at its
  maximum, where the counter saturates) does not sleep on it: its wait returns true at once.
\<close>

theorem readiness_gain_notifies:
  assumes "valid_run pipe_enabled pipe_step (new_pipe_manager n) es"
    and "st = fold pipe_step es (new_pipe_manager n)" and "e \<noteq> New_pipe"
    and "pipe_poll d requested st = Inr before" "pipe_poll d requested (pipe_step e st) = Inr after"
    and "after AND NOT before \<noteq> 0"
  shows "wakeups (pipe_step e st) > wakeups st \<and>
    (\<forall>g. notifier st = Some g \<longrightarrow> g \<noteq> - 1 \<longrightarrow>
       (\<exists>g'. notifier (pipe_step e st) = Some g' \<and> wait_for_change g timeout g' start now ws = Some True))"
proof -
  have "wakeups (pipe_step e st) \<noteq> wakeups st"
  proof
    assume silent: "wakeups (pipe_step e st) = wakeups st"
    have ok: "ends_ok st" using pipe_system.run_inv [OF assms(1)] assms(2) by simp
    from assms(5) obtain r q where r: "bt_get (desc_to_pipe (pipe_step e st)) d = Some r"
      and q: "bt_get (pipes (pipe_step e st)) (ref_pipe_id r) = Some q"
      by (auto simp: pipe_poll_def err_simps)
    from silent_step [OF silent assms(3) ok q] r obtain p
      where p: "bt_get (pipes st) (ref_pipe_id r) = Some p" "bt_get (desc_to_pipe st) d = Some r"
        "pipe_buffer q = pipe_buffer p" "closed_read q = closed_read p" "closed_write q = closed_write p"
        "waiting_reads p = [] \<longrightarrow> waiting_reads q = []" by auto
    from assms(4,5,6) p r q show False
      by (cases "ref_end r") (auto simp: pipe_poll_def available_capacity_def split: if_splits)
  qed
  moreover from notified_step [of st e] obtain k where k: "wakeups (pipe_step e st) = wakeups st + k"
    "notifier (pipe_step e st) = map_option (notify ^^ k) (notifier st)" by (auto simp: notified_def)
  ultimately have "0 < k" by simp
  then have "(notify ^^ k) g \<noteq> g" if "g \<noteq> - 1" for g using notify_greater [OF that] by (metis less_irrefl)
  with k \<open>0 < k\<close> show ?thesis by (simp add: wait_for_change_def)
qed

theorem readiness_gain_notifies_witness:
  "\<exists>st. st = snd (register_pipe (new_pipe_manager (Some 7))) \<and>
     wakeups (pipe_step (Write_attempt 1 [5] True) st) > wakeups st \<and>
     (\<exists>g'. notifier (pipe_step (Write_attempt 1 [5] True) st) = Some g' \<and> wait_for_change 7 None g' 0 0 [] = Some True)"
proof -
  define es where "es = [New_pipe]"
  define st where "st = fold pipe_step es (new_pipe_manager (Some 7))"
  have v: "valid_run pipe_enabled pipe_step (new_pipe_manager (Some 7)) es" unfolding es_def by code_simp
  have b: "pipe_poll 100000 POLLIN st = Inr 0" unfolding st_def es_def by code_simp
  have a: "pipe_poll 100000 POLLIN (pipe_step (Write_attempt 1 [5] True) st) = Inr POLLIN"
    unfolding st_def es_def by code_simp
  have n: "notifier st = Some 7" unfolding st_def es_def by code_simp
  have "POLLIN AND NOT 0 \<noteq> 0" by (simp add: POLLIN_def)
  from readiness_gain_notifies [OF v st_def _ b a this, of None 0 0 "[]"] n
  have "wakeups (pipe_step (Write_attempt 1 [5] True) st) > wakeups st \<and>
      (\<exists>g'. notifier (pipe_step (Write_attempt 1 [5] True) st) = Some g' \<and> wait_for_change 7 None g' 0 0 [] = Some True)"
    by auto
  moreover have "st = snd (register_pipe (new_pipe_manager (Some 7)))" by (simp add: st_def es_def)
  ultimately show ?thesis by blast
qed

text \<open>
  (C34) Polling agrees with reading and writing.  The read end reports an event exactly when a read
  would return instead of waiting; the write end of a pipe with both ends open whose queued readers are
  all alive reports \<open>POLLOUT\<close> exactly when a byte can be written without waiting.
\<close>

theorem poll_agrees:
  assumes "bt_get (desc_to_pipe st) d = Some r" "bt_get (pipes st) (ref_pipe_id r) = Some p"
  shows "(ref_end r = Read_side \<longrightarrow>
      (pipe_poll d POLLIN st \<noteq> Inr 0 \<longleftrightarrow> (\<exists>v. fst (read_with_timeout d len None start now st) = Read_return v))) \<and>
    (ref_end r = Write_side \<longrightarrow> \<not> closed_write p \<longrightarrow> \<not> closed_read p \<longrightarrow>
      (\<forall>w \<in> set (waiting_reads p). bt_contains (waiters st) w) \<longrightarrow>
      (pipe_poll d POLLOUT st = Inr POLLOUT \<longleftrightarrow> fst (write_with_mode d [b] True st) = Some (Inr 1)))"
proof (intro conjI impI)
  assume "ref_end r = Read_side"
  with assms show "pipe_poll d POLLIN st \<noteq> Inr 0 \<longleftrightarrow>
      (\<exists>v. fst (read_with_timeout d len None start now st) = Read_return v)"
    by (auto simp: pipe_poll_def read_with_timeout_def enter_read_def read_pass_def delivered_result_def
        register_reader_def Let_def case_prod_unfold intersects_def poll_consts)
next
  assume w: "ref_end r = Write_side" and o: "\<not> closed_write p" "\<not> closed_read p"
    and live: "\<forall>w \<in> set (waiting_reads p). bt_contains (waiters st) w"
  have wm: "write_with_mode d [b] True st = write_loop (ref_pipe_id r) [b] True st"
    using w assms by (simp add: write_with_mode_def enter_write_def)
  have poll: "pipe_poll d POLLOUT st = Inr POLLOUT \<longleftrightarrow> available_capacity p > 0 \<or> waiting_reads p \<noteq> []"
    using w o assms by (auto simp: pipe_poll_def intersects_def poll_consts)
  show "pipe_poll d POLLOUT st = Inr POLLOUT \<longleftrightarrow> fst (write_with_mode d [b] True st) = Some (Inr 1)"
  proof (cases "waiting_reads p")
    case Nil
    then show ?thesis
      unfolding poll wm write_loop_open [OF assms(2) o]
      by (auto simp: write_buffered_def Let_def available_capacity_def PIPE_BUF_BYTES_def)
  next
    case (Cons x xs)
    with live have "dropWhile (\<lambda>w. \<not> bt_contains (waiters st) w) (waiting_reads p) = x # xs" by simp
    with Cons show ?thesis
      unfolding poll wm write_loop_open [OF assms(2) o] by simp
  qed
qed

theorem poll_agrees_witness:
  "\<exists>st. pipe_poll 100001 POLLOUT st = Inr POLLOUT \<and> fst (write_with_mode 100001 [9] True st) = Some (Inr 1)"
proof -
  define st where "st = snd (register_pipe (new_pipe_manager None))"
  have r: "bt_get (desc_to_pipe st) 100001 = Some \<lparr>ref_pipe_id = 1, ref_end = Write_side\<rparr>"
    and p: "bt_get (pipes st) (ref_pipe_id \<lparr>ref_pipe_id = 1, ref_end = Write_side\<rparr>) = Some default_pipe"
    by (simp_all add: st_def register_pipe_def new_pipe_manager_def Let_def)
  have "pipe_poll 100001 POLLOUT st = Inr POLLOUT" unfolding st_def by code_simp
  with poll_agrees [OF r p, of 0 0 0 9] show ?thesis by (auto simp: default_pipe_def)
qed



text \<open>
  A timed-out read throws away bytes that were already delivered to it: when the wait of a reader
  times out while a writer has stored its bytes in the reader's waiter entry, the entry is removed
  unread and the call fails with \<open>EAGAIN\<close>, although the write has returned success.
\<close>

theorem timed_out_read_discards_delivery:
  assumes "bt_get (waiters st) w = Some \<lparr>pending_length = len, pending_result = Some (Some bs)\<rparr>"
    and "read_resume i len (Some deadline) True now w st = (outcome, st')"
  shows "outcome = Read_return (Inl (Pipe_would_block ''pipe read timed out'')) \<and>
    waiters st' = bt_remove w (waiters st) \<and>
    (\<forall>j. map_option pipe_buffer (bt_get (pipes st') j) = map_option pipe_buffer (bt_get (pipes st) j))"
  using assms by (auto simp: read_resume_def cancel_reader_def bt_contains_def option.map_comp comp_def)

theorem timed_out_read_discards_delivery_witness:
  "\<exists>st0 st st'. write_loop 1 [8] True st0 = (Some (Inr 1), st) \<and>
     read_resume 1 4 (Some 10) True 11 1 st = (Read_return (Inl (Pipe_would_block ''pipe read timed out'')), st') \<and>
     buffered_bytes st' = 0 \<and> waiters st' = bt_empty"
proof -
  define st0 where "st0 = fold pipe_step [New_pipe, Read_attempt 1 4 (Some 10) 0 None] (new_pipe_manager None)"
  obtain r st where wr: "write_loop 1 [8] True st0 = (r, st)" by fastforce
  have "fst (write_loop 1 [8] True st0) = Some (Inr 1)" unfolding st0_def by code_simp
  then have r: "r = Some (Inr 1)" by (simp add: wr)
  have "bt_get (waiters (snd (write_loop 1 [8] True st0))) 1 = Some \<lparr>pending_length = 4, pending_result = Some (Some [8])\<rparr>"
    unfolding st0_def by code_simp
  then have w: "bt_get (waiters st) 1 = Some \<lparr>pending_length = 4, pending_result = Some (Some [8])\<rparr>" by (simp add: wr)
  obtain out st' where rd: "read_resume 1 4 (Some 10) True 11 1 st = (out, st')" by fastforce
  note t = timed_out_read_discards_delivery [OF w rd]
  have "buffered_bytes (snd (read_resume 1 4 (Some 10) True 11 1 (snd (write_loop 1 [8] True st0)))) = 0"
    unfolding st0_def by code_simp
  then have "buffered_bytes st' = 0" by (simp add: wr rd)
  moreover have "bt_remove 1 (waiters (snd (write_loop 1 [8] True st0))) = bt_empty"
    unfolding st0_def by code_simp
  then have "bt_remove 1 (waiters st) = bt_empty" by (simp add: wr)
  ultimately show ?thesis
    using t wr r rd by (intro exI [of _ st0] exI [of _ st] exI [of _ st'] conjI) simp_all
qed

text \<open>
  Direct delivery ignores the capacity: with a reader waiting for \<open>len\<close> bytes, a write hands over the
  first \<open>len\<close> bytes and buffers all the others, however many, so that the buffer can outgrow
  \<open>MAX_PIPE_BUFFER_BYTES\<close>.
\<close>

theorem direct_delivery_ignores_capacity:
  assumes "bt_get (pipes st) i = Some p" "\<not> closed_write p" "\<not> closed_read p"
    and "waiting_reads p = w # ws" "bt_get (waiters st) w = Some pr"
    and "length payload > pending_length pr + MAX_PIPE_BUFFER_BYTES"
    and "write_loop i payload nonblocking st = (r, st')"
  shows "r = Some (Inr (length payload)) \<and>
    (\<exists>p'. bt_get (pipes st') i = Some p' \<and> buffer_size (pipe_buffer p') > MAX_PIPE_BUFFER_BYTES)"
proof -
  have "(r, st') = (Some (Inr (length payload)), deliver i w pr payload (skip_waiters i p ws st))"
    using assms(4,5,7) by (simp add: write_loop_open [OF assms(1-3)] bt_contains_def)
  with assms(6) show ?thesis by (auto simp: pipes_deliver)
qed

theorem direct_delivery_ignores_capacity_witness:
  "\<exists>st' p'. write_loop 1 (replicate 70000 0) True
      (fold pipe_step [New_pipe, Read_attempt 1 1 None 0 None] (new_pipe_manager None)) = (Some (Inr 70000), st') \<and>
     bt_get (pipes st') 1 = Some p' \<and> buffer_size (pipe_buffer p') > 65536"
proof -
  define st where "st = fold pipe_step [New_pipe, Read_attempt 1 1 None 0 None] (new_pipe_manager None)"
  define p where "p = default_pipe\<lparr>waiting_reads := [1]\<rparr>"
  have p: "bt_get (pipes st) 1 = Some p" unfolding st_def p_def by code_simp
  have w: "bt_get (waiters st) 1 = Some \<lparr>pending_length = 1, pending_result = None\<rparr>"
    unfolding st_def by code_simp
  obtain r st' where wr: "write_loop 1 (replicate 70000 0) True st = (r, st')" by fastforce
  have q: "\<not> closed_write p" "\<not> closed_read p" "waiting_reads p = 1 # []"
    by (simp_all add: p_def default_pipe_def)
  have "length (replicate 70000 (0 :: u8)) >
      pending_length \<lparr>pending_length = 1, pending_result = None\<rparr> + MAX_PIPE_BUFFER_BYTES"
    by (simp add: MAX_PIPE_BUFFER_BYTES_def)
  from direct_delivery_ignores_capacity [OF p q w this wr] wr show ?thesis
    unfolding st_def [symmetric] by (auto simp: MAX_PIPE_BUFFER_BYTES_def)
qed

text \<open>
  \<open>create_pipe_fds\<close> on a full descriptor table fails with \<open>EMFILE\<close> and leaks the pipe: it stays
  registered with both ends open, while no descriptor of the table refers to it.
\<close>

theorem create_pipe_fds_leaks:
  assumes "ends_ok st" "pft_max_fds t \<le> bt_len (pft_entries t)" "create_pipe_fds s t st = (r, s', t', st')"
  shows "r = Inl Too_many_open_files \<and> t' = t \<and> pipe_count st' = Suc (pipe_count st) \<and>
    is_pipe (next_desc_id st) st' \<and> is_pipe (next_desc_id st + 1) st'"
proof -
  have "bt_get (pipes st) (next_pipe_id st) = None"
    using ends_okD(4) [OF assms(1)] by (metis not_None_eq order_less_irrefl)
  moreover have "allocate_fd t = Inl Too_many_open_files" using assms(2) by (simp add: allocate_fd_def)
  ultimately show ?thesis
    using assms(3)
    by (auto simp: create_pipe_fds_def create_pipe_def register_pipe_def arc_new_def open_with_def
        pipe_count_def is_pipe_def bt_len_insert bt_contains_def Let_def)
qed

theorem create_pipe_fds_leaks_witness:
  "\<exists>s' t' st'. create_pipe_fds (new_store 1) (new_table 0) (new_pipe_manager None) =
     (Inl Too_many_open_files, s', t', st') \<and> pipe_count st' = 1"
proof -
  obtain r s' t' st' where c: "create_pipe_fds (new_store 1) (new_table 0) (new_pipe_manager None) = (r, s', t', st')"
    by (metis prod_cases4)
  have "ends_ok (new_pipe_manager None)" by (rule pipe_system.init_inv)
  from create_pipe_fds_leaks [OF this _ c] c show ?thesis
    by (simp add: new_table_def new_pipe_manager_def pipe_count_def)
qed

text \<open>
  (C31) The pipe system call end to end: with two free descriptors, \<open>create_pipe_fds\<close> yields two distinct
  new descriptors, each the only reference to its description; what is written through the write
  descriptor (up to \<open>PIPE_BUF_BYTES\<close>) is what a read through the read descriptor returns.
\<close>

theorem pipe_fds_roundtrip:
  assumes "wf_store s" "pft_max_fds t \<le> 2 ^ 32" "Suc (bt_len (pft_entries t)) < pft_max_fds t"
    and "create_pipe_fds s t st = (r, s', t', st')"
    and "payload \<noteq> []" "length payload \<le> PIPE_BUF_BYTES"
  shows "\<exists>rfd wfd re we. r = Inr (rfd, wfd) \<and> rfd \<noteq> wfd \<and>
    \<not> bt_contains (pft_entries t) rfd \<and> \<not> bt_contains (pft_entries t) wfd \<and>
    bt_get (pft_entries t') rfd = Some re \<and> bt_get (pft_entries t') wfd = Some we \<and>
    ref_count s' (fde_description re) = 1 \<and> ref_count s' (fde_description we) = 1 \<and>
    (case write_with_mode (id_of s' (fde_description we)) payload nonblocking st' of (n, st1) \<Rightarrow>
       n = Some (Inr (length payload)) \<and>
       fst (read_with_timeout (id_of s' (fde_description re)) (length payload) timeout start now st1) =
         Read_return (Inr (Some payload)))"
proof -
  let ?rl = "next_loc s" and ?wl = "Suc (next_loc s)" and ?rid = "next_desc_id st"
  have wf: "\<not> bt_contains (cells s) ?rl" "\<not> bt_contains (cells s) ?wl" using assms(1) by (auto simp: wf_store_def)
  obtain pair s1 st1 where cp: "create_pipe s st = (pair, s1, st1)" by (metis prod_cases3)
  obtain rfd where a1: "allocate_fd t = Inr (rfd, t\<lparr>pft_next_fd := saturating_succ rfd\<rparr>)"
    using allocate_fd_succeeds assms(2,3) by (metis Suc_lessD)
  define t1 where "t1 = t\<lparr>pft_next_fd := saturating_succ rfd,
    pft_entries := bt_insert rfd (stdio_entry rfd ?rl FILETYPE_PIPE) (pft_entries t)\<rparr>"
  have rn: "\<not> bt_contains (pft_entries t) rfd" using allocate_fd_InrD(1) [OF a1] by simp
  have "pft_max_fds t1 \<le> 2 ^ 32" "bt_len (pft_entries t1) < pft_max_fds t1"
    using assms(2,3) rn by (simp_all add: t1_def bt_len_insert)
  then obtain wfd where a2: "allocate_fd t1 = Inr (wfd, t1\<lparr>pft_next_fd := saturating_succ wfd\<rparr>)"
    using allocate_fd_succeeds by blast
  have wn: "\<not> bt_contains (pft_entries t) wfd" "wfd \<noteq> rfd"
    using allocate_fd_InrD(1) [OF a2] by (auto simp: t1_def)
  note c = create_pipe_cells [OF assms(1) cp]
  have res: "r = Inr (rfd, wfd)" "s' = increment_ref_count ?wl (increment_ref_count ?rl s1)" "st' = st1"
      "bt_get (pft_entries t') rfd = Some (stdio_entry rfd ?rl FILETYPE_PIPE)"
      "bt_get (pft_entries t') wfd = Some (stdio_entry wfd ?wl FILETYPE_PIPE)"
    using assms(4) a1 a2 wn c(2,3) by (auto simp: create_pipe_fds_def cp open_with_def t1_def Let_def)
  have "bt_get (desc_to_pipe st1) ?rid = Some \<lparr>ref_pipe_id = next_pipe_id st, ref_end = Read_side\<rparr>"
      "bt_get (desc_to_pipe st1) (?rid + 1) = Some \<lparr>ref_pipe_id = next_pipe_id st, ref_end = Write_side\<rparr>"
      "bt_get (pipes st1) (next_pipe_id st) = Some default_pipe"
    by (simp_all add: c(1) register_pipe_def Let_def)
  note rt = fresh_pipe_roundtrip [OF this(2,1,3) assms(5,6)]
  have de: "fde_description (stdio_entry fd l ft) = l" for fd l ft by (simp add: stdio_entry_def)
  show ?thesis
    using res rn wn rt [where nonblocking = nonblocking and timeout = timeout and start = start and now = now] c(4-9) by (simp add: de)
qed

theorem pipe_fds_roundtrip_witness:
  "\<exists>s' t' st' rfd wfd. create_pipe_fds (new_store 1) (new_table 8) (new_pipe_manager None) =
     (Inr (rfd, wfd), s', t', st') \<and> rfd \<noteq> wfd"
proof -
  obtain r s' t' st' where c: "create_pipe_fds (new_store 1) (new_table 8) (new_pipe_manager None) = (r, s', t', st')"
    by (metis prod_cases4)
  have pre: "wf_store (new_store 1)" "pft_max_fds (new_table 8) \<le> 2 ^ 32"
      "Suc (bt_len (pft_entries (new_table 8))) < pft_max_fds (new_table 8)"
      "[1 :: u8] \<noteq> []" "length [1 :: u8] \<le> PIPE_BUF_BYTES"
    by (simp_all add: new_store_def wf_store_def new_table_def PIPE_BUF_BYTES_def)
  obtain rfd wfd where "r = Inr (rfd, wfd)" "rfd \<noteq> wfd"
    using pipe_fds_roundtrip [OF pre(1-3) c pre(4,5)] by blast
  with c show ?thesis by blast
qed

end
