(* ===== verification/Pipe_Stream.thy ===== *)
theory Pipe_Stream
  imports Pipe
begin

text \<open>
  What a pipe promises to the processes at its ends: a byte stream.  The operations of \<open>Pipe\<close> are put
  into a world of interleaved threads with a ledger of what was written and what was read, and every
  step keeps the ledger balanced with the buffer and the bytes under way to a sleeping reader.  A write
  attempt names the pipe, so that the first pass of a call and the passes after a wake-up are the same
  event.
\<close>

section \<open>Streams\<close>

text \<open>
  A world is a manager, the reader blocked on each pipe, and two ledgers: the bytes that writes have
  reported as accepted and the bytes that reads have returned, per pipe.
\<close>

record blocked_reader =
  br_length :: nat
  br_deadline :: "nat option"
  br_waiter :: u64

record stream_world =
  mgr :: pipe_manager
  blocked :: "(u64, blocked_reader) btreemap"
  written :: "u64 \<Rightarrow> bytes"
  returned :: "u64 \<Rightarrow> bytes"

definition new_world :: "u64 option \<Rightarrow> stream_world" where
  "new_world n = \<lparr>mgr = new_pipe_manager n, blocked = bt_empty, written = (\<lambda>_. []), returned = (\<lambda>_. [])\<rparr>"

datatype stream_event =
    Make_pipe
  | Close_desc u64
  | Write_to u64 bytes bool
  | Read_from u64 nat "nat option" nat nat
  | Resume_reader u64 bool nat

text \<open>The end of a pass of a reader on pipe \<open>i\<close>: it goes to sleep, or it returns.\<close>

definition settle :: "u64 \<Rightarrow> nat \<Rightarrow> nat option \<Rightarrow> read_outcome \<times> pipe_manager \<Rightarrow> stream_world \<Rightarrow> stream_world" where
  "settle i len deadline r w =
     (case fst r of
        Read_wait waiter \<Rightarrow>
          w\<lparr>mgr := snd r,
            blocked := bt_insert i \<lparr>br_length = len, br_deadline = deadline, br_waiter = waiter\<rparr> (blocked w)\<rparr>
      | Read_return v \<Rightarrow>
          w\<lparr>mgr := snd r, blocked := bt_remove i (blocked w),
            returned := (case v of
                Inr (Some bs) \<Rightarrow> (returned w)(i := returned w i @ bs)
              | _ \<Rightarrow> returned w)\<rparr>)"

fun stream_step :: "stream_event \<Rightarrow> stream_world \<Rightarrow> stream_world" where
  "stream_step Make_pipe w = w\<lparr>mgr := snd (register_pipe (mgr w))\<rparr>"
| "stream_step (Close_desc d) w = w\<lparr>mgr := pipe_close d (mgr w)\<rparr>"
| "stream_step (Write_to i payload nb) w =
     (case write_loop i payload nb (mgr w) of
        (Some (Inr n), m) \<Rightarrow> w\<lparr>mgr := m, written := (written w)(i := written w i @ take n payload)\<rparr>
      | (_, m) \<Rightarrow> w\<lparr>mgr := m\<rparr>)"
| "stream_step (Read_from d len timeout start now) w =
     (case enter_read d (mgr w) of
        Inl _ \<Rightarrow> w
      | Inr i \<Rightarrow> settle i len (map_option (\<lambda>t. start + t) timeout)
          (read_with_timeout d len timeout start now (mgr w)) w)"
| "stream_step (Resume_reader i timed_out now) w =
     (case bt_get (blocked w) i of
        None \<Rightarrow> w
      | Some b \<Rightarrow> settle i (br_length b) (br_deadline b)
          (read_resume i (br_length b) (br_deadline b) timed_out now (br_waiter b) (mgr w)) w)"

definition pending_of :: "stream_world \<Rightarrow> u64 \<Rightarrow> bytes option option" where
  "pending_of w i =
     (case bt_get (blocked w) i of
        None \<Rightarrow> None
      | Some b \<Rightarrow> (case bt_get (waiters (mgr w)) (br_waiter b) of None \<Rightarrow> None | Some pr \<Rightarrow> pending_result pr))"

text \<open>
  The discipline under which the stream is faithful: one reader at a time per pipe, and a wait does not
  time out after bytes have been delivered to it.
\<close>

fun stream_enabled :: "stream_event \<Rightarrow> stream_world \<Rightarrow> bool" where
  "stream_enabled Make_pipe w = can_create (mgr w)"
| "stream_enabled (Read_from d len timeout start now) w =
     (next_waiter_id (mgr w) \<noteq> - 1 \<and>
      (case enter_read d (mgr w) of Inl _ \<Rightarrow> True | Inr i \<Rightarrow> bt_get (blocked w) i = None))"
| "stream_enabled (Resume_reader i timed_out now) w = (timed_out \<longrightarrow> pending_of w i = None)"
| "stream_enabled _ w = True"

definition in_flight :: "stream_world \<Rightarrow> u64 \<Rightarrow> bytes" where
  "in_flight w i = (case pending_of w i of Some (Some bs) \<Rightarrow> bs | _ \<Rightarrow> [])"

section \<open>The stream invariant\<close>

text \<open>What holds of pipe \<open>i\<close> and of the reader blocked on it, if any.\<close>

definition local_ok :: "stream_world \<Rightarrow> u64 \<Rightarrow> bool" where
  "local_ok w i \<longleftrightarrow>
     (\<forall>p. bt_get (pipes (mgr w)) i = Some p \<longrightarrow>
        written w i = returned w i @ in_flight w i @ concat (pipe_buffer p) \<and>
        (bt_get (blocked w) i = None \<longrightarrow> waiting_reads p = [])) \<and>
     (\<forall>b. bt_get (blocked w) i = Some b \<longrightarrow>
        br_waiter b < next_waiter_id (mgr w) \<and>
        (\<exists>pr. bt_get (waiters (mgr w)) (br_waiter b) = Some pr \<and> pending_length pr = br_length b \<and>
           (case pending_result pr of
              None \<Rightarrow> \<exists>p. bt_get (pipes (mgr w)) i = Some p \<and> waiting_reads p = [br_waiter b] \<and>
                 pipe_buffer p = [] \<and> \<not> closed_write p
            | Some _ \<Rightarrow> \<forall>p. bt_get (pipes (mgr w)) i = Some p \<longrightarrow> waiting_reads p = [])))"

definition stream_ok :: "stream_world \<Rightarrow> bool" where
  "stream_ok w \<longleftrightarrow>
     ends_ok (mgr w) \<and> (\<forall>i. local_ok w i) \<and>
     (\<forall>i. \<not> i < next_pipe_id (mgr w) \<longrightarrow>
        written w i = [] \<and> returned w i = [] \<and> bt_get (blocked w) i = None) \<and>
     (\<forall>i j b c. bt_get (blocked w) i = Some b \<longrightarrow> bt_get (blocked w) j = Some c \<longrightarrow>
        br_waiter b = br_waiter c \<longrightarrow> i = j)"

text \<open>A step on pipe \<open>i\<close> leaves the other pipes and their readers as they are.\<close>

definition others_same :: "u64 \<Rightarrow> stream_world \<Rightarrow> stream_world \<Rightarrow> bool" where
  "others_same i w w' \<longleftrightarrow>
     (\<forall>j. j \<noteq> i \<longrightarrow>
        bt_get (pipes (mgr w')) j = bt_get (pipes (mgr w)) j \<and> bt_get (blocked w') j = bt_get (blocked w) j \<and>
        written w' j = written w j \<and> returned w' j = returned w j \<and>
        (\<forall>b. bt_get (blocked w) j = Some b \<longrightarrow>
           bt_get (waiters (mgr w')) (br_waiter b) = bt_get (waiters (mgr w)) (br_waiter b)))"

lemma stream_okD:
  assumes "stream_ok w"
  shows "ends_ok (mgr w)" "local_ok w i"
    and "\<not> i < next_pipe_id (mgr w) \<Longrightarrow> written w i = [] \<and> returned w i = [] \<and> bt_get (blocked w) i = None"
    and "bt_get (blocked w) i = Some b \<Longrightarrow> bt_get (blocked w) j = Some c \<Longrightarrow> br_waiter b = br_waiter c \<Longrightarrow> i = j"
  using assms unfolding stream_ok_def by blast+

lemma local_ok_frame:
  assumes "local_ok w j" "others_same i w w'" "j \<noteq> i" "next_waiter_id (mgr w) \<le> next_waiter_id (mgr w')"
  shows "local_ok w' j"
proof -
  have same: "bt_get (pipes (mgr w')) j = bt_get (pipes (mgr w)) j" "bt_get (blocked w') j = bt_get (blocked w) j"
      "written w' j = written w j" "returned w' j = returned w j"
    and wt: "\<And>b. bt_get (blocked w) j = Some b \<Longrightarrow>
      bt_get (waiters (mgr w')) (br_waiter b) = bt_get (waiters (mgr w)) (br_waiter b)"
    using assms(2,3) by (auto simp: others_same_def)
  have "in_flight w' j = in_flight w j"
    using wt by (auto simp: in_flight_def pending_of_def same split: option.splits)
  then show ?thesis
    using assms(1,4) wt unfolding local_ok_def same by (auto elim: order_less_le_trans)
qed

lemma stream_frame:
  assumes ok: "stream_ok w" and "ends_ok (mgr w')" "others_same i w w'" "local_ok w' i"
    and "i < next_pipe_id (mgr w')" "next_pipe_id (mgr w) \<le> next_pipe_id (mgr w')"
    and "next_waiter_id (mgr w) \<le> next_waiter_id (mgr w')"
    and own: "\<And>b. bt_get (blocked w') i = Some b \<Longrightarrow>
      br_waiter b = next_waiter_id (mgr w) \<or> (\<exists>c. bt_get (blocked w) i = Some c \<and> br_waiter b = br_waiter c)"
  shows "stream_ok w'"
proof -
  have same: "bt_get (blocked w') j = bt_get (blocked w) j" "written w' j = written w j" "returned w' j = returned w j"
    if "j \<noteq> i" for j
    using assms(3) that by (auto simp: others_same_def)
  have below: "br_waiter b \<noteq> next_waiter_id (mgr w)" if "bt_get (blocked w) j = Some b" for j b
    using stream_okD(2) [OF ok, of j] that by (auto simp: local_ok_def)
  have sep: "br_waiter b \<noteq> br_waiter c" if "bt_get (blocked w') i = Some b" "bt_get (blocked w') j = Some c" "j \<noteq> i" for b c j
    using own [OF that(1)] that(2,3) below stream_okD(4) [OF ok] by (metis same(1))
  have "i' = j'" if "bt_get (blocked w') i' = Some b" "bt_get (blocked w') j' = Some c" "br_waiter b = br_waiter c" for i' j' b c
    using that sep stream_okD(4) [OF ok] by (metis same(1))
  moreover have "written w' j = [] \<and> returned w' j = [] \<and> bt_get (blocked w') j = None"
    if "\<not> j < next_pipe_id (mgr w')" for j
  proof -
    have "j \<noteq> i" "\<not> j < next_pipe_id (mgr w)" using that assms(5,6) by auto
    with stream_okD(3) [OF ok] same show ?thesis by simp
  qed
  moreover have "local_ok w' j" for j
    using assms(4) local_ok_frame [OF stream_okD(2) [OF ok] assms(3) _ assms(7)] by (cases "j = i") auto
  ultimately show ?thesis using assms(2) unfolding stream_ok_def by blast
qed

text \<open>The three situations of a pipe: nobody waits, a reader waits, a reader has been served.\<close>

lemma local_cases:
  assumes "local_ok w i" "bt_get (pipes (mgr w)) i = Some p"
  obtains (idle) "bt_get (blocked w) i = None" "waiting_reads p = []" "in_flight w i = []"
  | (waiting) b pr where "bt_get (blocked w) i = Some b" "bt_get (waiters (mgr w)) (br_waiter b) = Some pr"
      "pending_result pr = None" "pending_length pr = br_length b" "waiting_reads p = [br_waiter b]"
      "pipe_buffer p = []" "\<not> closed_write p" "in_flight w i = []"
  | (served) b pr res where "bt_get (blocked w) i = Some b" "bt_get (waiters (mgr w)) (br_waiter b) = Some pr"
      "pending_result pr = Some res" "pending_length pr = br_length b" "waiting_reads p = []"
      "in_flight w i = (case res of None \<Rightarrow> [] | Some bs \<Rightarrow> bs)"
proof (cases "bt_get (blocked w) i")
  case None
  with assms idle show ?thesis by (simp add: local_ok_def in_flight_def pending_of_def)
next
  case (Some b)
  with assms obtain pr where pr: "bt_get (waiters (mgr w)) (br_waiter b) = Some pr" "pending_length pr = br_length b"
    and res: "case pending_result pr of
        None \<Rightarrow> \<exists>p. bt_get (pipes (mgr w)) i = Some p \<and> waiting_reads p = [br_waiter b] \<and>
           pipe_buffer p = [] \<and> \<not> closed_write p
      | Some _ \<Rightarrow> \<forall>p. bt_get (pipes (mgr w)) i = Some p \<longrightarrow> waiting_reads p = []"
    by (auto simp: local_ok_def)
  show ?thesis
  proof (cases "pending_result pr")
    case None
    with res assms(2) Some pr show ?thesis
      by (intro waiting) (auto simp: in_flight_def pending_of_def)
  next
    case (Some res')
    with res assms(2) \<open>bt_get (blocked w) i = Some b\<close> pr show ?thesis
      by (intro served) (auto simp: in_flight_def pending_of_def split: option.splits)
  qed
qed

lemma local_written:
  "local_ok w i \<Longrightarrow> bt_get (pipes (mgr w)) i = Some p \<Longrightarrow>
     written w i = returned w i @ in_flight w i @ concat (pipe_buffer p)"
  by (simp add: local_ok_def)

lemma local_waiter:
  "local_ok w i \<Longrightarrow> bt_get (blocked w) i = Some b \<Longrightarrow>
     br_waiter b < next_waiter_id (mgr w) \<and>
     (\<exists>pr. bt_get (waiters (mgr w)) (br_waiter b) = Some pr \<and> pending_length pr = br_length b)"
  by (auto simp: local_ok_def)

lemma waiter_live:
  assumes "local_ok w i" "bt_get (pipes (mgr w)) i = Some p" "x \<in> set (waiting_reads p)"
  shows "bt_contains (waiters (mgr w)) x"
  using assms by (cases rule: local_cases [OF assms(1,2)]) (auto simp: bt_contains_def)

lemma in_flight_ledger [simp]:
  "in_flight (w\<lparr>mgr := m, written := x\<rparr>) = in_flight (w\<lparr>mgr := m\<rparr>)"
  "in_flight (w\<lparr>mgr := m, blocked := bl, returned := x\<rparr>) = in_flight (w\<lparr>mgr := m, blocked := bl\<rparr>)"
  by (simp_all add: in_flight_def pending_of_def fun_eq_iff cong: option.case_cong)

lemma in_flight_mgr: "waiters m = waiters (mgr w) \<Longrightarrow> in_flight (w\<lparr>mgr := m\<rparr>) = in_flight w"
  by (simp add: in_flight_def pending_of_def fun_eq_iff cong: option.case_cong)

text \<open>Appending to the buffer of a pipe on which nobody waits, with the ledger kept in step.\<close>

lemma local_ok_push:
  assumes "local_ok w i" "bt_get (pipes (mgr w)) i = Some p" "waiting_reads p = []"
    and m: "pipes m = bt_insert i (p\<lparr>pipe_buffer := pipe_buffer p @ [c]\<rparr>) (pipes (mgr w))"
      "waiters m = waiters (mgr w)" "next_waiter_id m = next_waiter_id (mgr w)"
  shows "local_ok (w\<lparr>mgr := m, written := (written w)(i := written w i @ c)\<rparr>) i"
proof -
  have fl: "in_flight (w\<lparr>mgr := m\<rparr>) i = in_flight w i" by (simp add: in_flight_mgr m)
  show ?thesis
    using assms(1-3) local_written [OF assms(1,2)]
    by (cases rule: local_cases [OF assms(1,2)])
       (auto simp: local_ok_def fl m)
qed

lemma stream_ok_write_buffered:
  assumes ok: "stream_ok w" and p: "bt_get (pipes (mgr w)) i = Some p" and "waiting_reads p = []"
    and "\<not> closed_write p" "\<not> closed_read p"
  shows "stream_ok (stream_step (Write_to i payload nb) w)"
proof -
  have lt: "i < next_pipe_id (mgr w)" using ends_okD(4) [OF stream_okD(1) [OF ok] p] .
  have "skip_waiters i p [] (mgr w) = mgr w"
    using p assms(3) by (simp add: skip_waiters_def bt_insert_idem)
  then have wl: "write_loop i payload nb (mgr w) = write_buffered i payload nb p (mgr w)"
    using write_loop_open [OF p assms(4,5), of payload nb] assms(3) by simp
  show ?thesis
  proof (cases "accepted (available_capacity p) payload > 0 \<or> payload = []")
    case True
    let ?n = "accepted (available_capacity p) payload"
    let ?m = "notify_waiters_and_pollers (push_chunk i (take ?n payload) (mgr w))"
    let ?w = "w\<lparr>mgr := ?m, written := (written w)(i := written w i @ take ?n payload)\<rparr>"
    have "pipes ?m = bt_insert i (p\<lparr>pipe_buffer := pipe_buffer p @ [take ?n payload]\<rparr>) (pipes (mgr w))"
      using p by (simp add: push_chunk_def bt_adjust_def)
    then have "local_ok ?w i"
      by (intro local_ok_push [OF stream_okD(2) [OF ok] p assms(3)]) simp_all
    moreover have "others_same i w ?w" by (auto simp: others_same_def)
    moreover have "ends_ok ?m"
      using same_ends_ok [OF stream_okD(1) [OF ok] same_ends_write_loop [of "mgr w" i payload nb]]
      by (simp add: wl write_buffered_accepts [OF True])
    ultimately have "stream_ok ?w"
      using lt by (intro stream_frame [OF ok, of _ i]) auto
    then show ?thesis by (simp add: wl write_buffered_accepts [OF True])
  next
    case False
    with ok show ?thesis by (simp add: wl write_buffered_full)
  qed
qed

lemma stream_ok_write:
  assumes ok: "stream_ok w"
  shows "stream_ok (stream_step (Write_to i payload nb) w)"
proof (cases "bt_get (pipes (mgr w)) i")
  case None
  with ok show ?thesis by (simp add: write_loop_errors)
next
  case (Some p)
  note lo = stream_okD(2) [OF ok, of i]
  have lt: "i < next_pipe_id (mgr w)" using ends_okD(4) [OF stream_okD(1) [OF ok] Some] .
  obtain r m where wl: "write_loop i payload nb (mgr w) = (r, m)" by fastforce
  have ends: "ends_ok m"
    using same_ends_ok [OF stream_okD(1) [OF ok] same_ends_write_loop [of "mgr w" i payload nb]] by (simp add: wl)
  consider "closed_write p" | "\<not> closed_write p" "closed_read p" | (op) "\<not> closed_write p" "\<not> closed_read p" by blast
  then show ?thesis
  proof cases
    case op
    note wo = write_loop_open [OF Some op, of payload nb, unfolded wl]
    show ?thesis
      using lo Some
    proof (cases rule: local_cases)
      case (waiting b pr)
      have r: "r = Some (Inr (length payload))"
        and m: "m = deliver i (br_waiter b) pr payload (skip_waiters i p [] (mgr w))"
        using wo waiting by (auto simp: bt_contains_def)
      let ?w = "w\<lparr>mgr := m, written := (written w)(i := written w i @ payload)\<rparr>"
      have pm: "bt_get (pipes m) j = (if j = i then Some (p\<lparr>waiting_reads := [],
          pipe_buffer := (if br_length b < length payload then [drop (br_length b) payload] else [])\<rparr>)
          else bt_get (pipes (mgr w)) j)" for j
        using waiting by (auto simp: m pipes_deliver)
      have wm: "waiters m = bt_insert (br_waiter b) (pr\<lparr>pending_result := Some (Some (take (br_length b) payload))\<rparr>)
          (waiters (mgr w))" "next_waiter_id m = next_waiter_id (mgr w)" "next_pipe_id m = next_pipe_id (mgr w)"
        using waiting by (simp_all add: m frame_simps)
      have "in_flight ?w i = take (br_length b) payload"
        using waiting unfolding in_flight_ledger by (simp add: in_flight_def pending_of_def wm)
      then have "local_ok ?w i"
        using waiting local_written [OF lo Some] local_waiter [OF lo waiting(1)]
        by (auto simp: local_ok_def pm wm)
      moreover have "others_same i w ?w"
        using stream_okD(4) [OF ok waiting(1)] by (auto simp: others_same_def pm wm)
      ultimately have "stream_ok ?w"
        using waiting(1) lt by (intro stream_frame [OF ok, of _ i]) (auto simp: ends wm)
      then show ?thesis by (simp add: wl r)
    next
      case idle
      then show ?thesis using stream_ok_write_buffered [OF ok Some _ op] by simp
    next
      case (served b pr res)
      then show ?thesis using stream_ok_write_buffered [OF ok Some _ op] by simp
    qed
  qed (use ok Some in \<open>simp_all add: write_loop_errors\<close>)
qed

lemma stream_ok_make:
  assumes ok: "stream_ok w" and c: "can_create (mgr w)"
  shows "stream_ok (stream_step Make_pipe w)"
proof -
  let ?i = "next_pipe_id (mgr w)" and ?m = "snd (register_pipe (mgr w))"
  have lt: "?i < ?i + 1" using c less_succ_word by (auto simp: can_create_def)
  have m: "pipes ?m = bt_insert ?i default_pipe (pipes (mgr w))" "waiters ?m = waiters (mgr w)"
      "next_waiter_id ?m = next_waiter_id (mgr w)" "next_pipe_id ?m = ?i + 1"
    by (simp_all add: register_pipe_def Let_def)
  have "local_ok (w\<lparr>mgr := ?m\<rparr>) ?i"
    using stream_okD(3) [OF ok, of ?i]
    by (simp add: local_ok_def m in_flight_def pending_of_def default_pipe_def)
  moreover have "others_same ?i w (w\<lparr>mgr := ?m\<rparr>)" by (simp add: others_same_def m)
  ultimately have "stream_ok (w\<lparr>mgr := ?m\<rparr>)"
    using lt stream_okD(3) [OF ok, of ?i] ends_ok_register_pipe [OF stream_okD(1) [OF ok] c]
    by (intro stream_frame [OF ok, of _ ?i]) (simp_all add: m)
  then show ?thesis by simp
qed

text \<open>
  Removing the reader from a pipe, after it has been served or has given up: its entry is gone, nobody
  waits, and the ledger has taken what it returned.
\<close>

lemma stream_ok_unblock:
  assumes ok: "stream_ok w" and lt: "i < next_pipe_id (mgr w)"
    and m: "\<And>j. j \<noteq> i \<Longrightarrow> bt_get (pipes m) j = bt_get (pipes (mgr w)) j"
      "\<And>x. (\<forall>b. bt_get (blocked w) i = Some b \<longrightarrow> x \<noteq> br_waiter b) \<Longrightarrow> x < next_waiter_id (mgr w) \<Longrightarrow>
         bt_get (waiters m) x = bt_get (waiters (mgr w)) x"
      "next_waiter_id (mgr w) \<le> next_waiter_id m" "next_pipe_id m = next_pipe_id (mgr w)" "ends_ok m"
    and p: "\<And>p. bt_get (pipes m) i = Some p \<Longrightarrow>
       waiting_reads p = [] \<and> written w i = returned w i @ out @ concat (pipe_buffer p)"
  shows "stream_ok (w\<lparr>mgr := m, blocked := bt_remove i (blocked w),
    returned := (returned w)(i := returned w i @ out)\<rparr>)" (is "stream_ok ?w")
proof (rule stream_frame [OF ok, of _ i])
  show "local_ok ?w i"
    using p by (auto simp: local_ok_def in_flight_def pending_of_def)
  have "bt_get (waiters m) (br_waiter b) = bt_get (waiters (mgr w)) (br_waiter b)"
    if "bt_get (blocked w) j = Some b" "j \<noteq> i" for j b
    using that stream_okD(4) [OF ok that(1)] local_waiter [OF stream_okD(2) [OF ok] that(1)] by (intro m(2)) metis+
  then show "others_same i w ?w"
    using m(1) unfolding others_same_def by auto
qed (use lt m in simp_all)

lemma settle_return:
  "settle i len dl (Read_return (Inr (Some bs)), m) w =
     w\<lparr>mgr := m, blocked := bt_remove i (blocked w), returned := (returned w)(i := returned w i @ bs)\<rparr>"
  "settle i len dl (Read_return (Inr None), m) w =
     w\<lparr>mgr := m, blocked := bt_remove i (blocked w), returned := (returned w)(i := returned w i @ [])\<rparr>"
  "settle i len dl (Read_return (Inl e), m) w =
     w\<lparr>mgr := m, blocked := bt_remove i (blocked w), returned := (returned w)(i := returned w i @ [])\<rparr>"
  "settle i len dl (Read_wait x, m) w =
     w\<lparr>mgr := m, blocked := bt_insert i \<lparr>br_length = len, br_deadline = dl, br_waiter = x\<rparr> (blocked w)\<rparr>"
  by (simp_all add: settle_def)

text \<open>A waiting reader that gives up.\<close>

lemma stream_ok_cancel:
  assumes ok: "stream_ok w" and p: "bt_get (pipes (mgr w)) i = Some p"
    and b: "bt_get (blocked w) i = Some b" "pending_of w i = None"
  shows "stream_ok (settle i len dl (Read_return (Inl e), cancel_reader i (br_waiter b) (mgr w)) w)"
proof -
  have lo: "local_ok w i" by (rule stream_okD(2) [OF ok])
  have lt: "i < next_pipe_id (mgr w)" using ends_okD(4) [OF stream_okD(1) [OF ok] p] .
  have "waiting_reads p = [br_waiter b] \<and> in_flight w i = []"
    using lo p b by (cases rule: local_cases) (auto simp: pending_of_def)
  then have wt: "waiting_reads p = [br_waiter b]" "in_flight w i = []" by simp_all
  show ?thesis
    unfolding settle_return
    using p wt b local_written [OF lo p] same_ends_ok [OF stream_okD(1) [OF ok] same_ends_cancel]
    by (intro stream_ok_unblock [OF ok lt]) (auto simp: cancel_reader_def)
qed

lemma stream_ok_resume:
  assumes ok: "stream_ok w" and en: "stream_enabled (Resume_reader i timed_out now) w"
  shows "stream_ok (stream_step (Resume_reader i timed_out now) w)"
proof (cases "bt_get (blocked w) i")
  case None
  with ok show ?thesis by simp
next
  case (Some b)
  have lo: "local_ok w i" by (rule stream_okD(2) [OF ok])
  have lt: "i < next_pipe_id (mgr w)" using stream_okD(3) [OF ok, of i] Some by auto
  obtain pr where pr: "bt_get (waiters (mgr w)) (br_waiter b) = Some pr" "pending_length pr = br_length b"
    using local_waiter [OF lo Some] by blast
  let ?r = "read_resume i (br_length b) (br_deadline b) timed_out now (br_waiter b) (mgr w)"
  have step: "stream_step (Resume_reader i timed_out now) w = settle i (br_length b) (br_deadline b) ?r w"
    using Some by simp
  show ?thesis
  proof (cases "pending_result pr")
    case (Some res)
    let ?m = "(mgr w)\<lparr>waiters := bt_remove (br_waiter b) (waiters (mgr w))\<rparr>"
    have pend: "pending_of w i = Some res" using pr Some \<open>bt_get (blocked w) i = Some b\<close> by (simp add: pending_of_def)
    with en have r: "?r = (Read_return (Inr res), ?m)"
      using pr Some by (simp add: read_resume_def read_pass_def delivered_result_def bt_contains_def)
    have "same_ends (mgr w) ?m" by (simp add: same_ends_def)
    then have ends: "ends_ok ?m" by (rule same_ends_ok [OF stream_okD(1) [OF ok]])
    have "stream_ok (w\<lparr>mgr := ?m, blocked := bt_remove i (blocked w),
        returned := (returned w)(i := returned w i @ (case res of None \<Rightarrow> [] | Some bs \<Rightarrow> bs))\<rparr>)"
    proof (rule stream_ok_unblock [OF ok lt])
      show "waiting_reads p = [] \<and> written w i =
          returned w i @ (case res of None \<Rightarrow> [] | Some bs \<Rightarrow> bs) @ concat (pipe_buffer p)"
        if "bt_get (pipes ?m) i = Some p" for p
      proof -
        from that have p: "bt_get (pipes (mgr w)) i = Some p" by simp
        from lo p pend local_written [OF lo p] show ?thesis
          by (cases rule: local_cases) (auto simp: pending_of_def)
      qed
    qed (use ends \<open>bt_get (blocked w) i = Some b\<close> in auto)
    then show ?thesis unfolding step r by (cases res) (simp_all only: settle_return option.case)
  next
    case None
    with lo Some pr obtain p where p: "bt_get (pipes (mgr w)) i = Some p" "pipe_buffer p = []" "\<not> closed_write p"
      by (auto simp: local_ok_def)
    have pend: "pending_of w i = None" using pr Some None by (simp add: pending_of_def)
    let ?give_up = "(br_deadline b \<noteq> None \<and> timed_out) \<or> (\<exists>d. br_deadline b = Some d \<and> d \<le> now)"
    show ?thesis
    proof (cases ?give_up)
      case True
      then have "\<exists>e. ?r = (Read_return (Inl e), cancel_reader i (br_waiter b) (mgr w))"
        using p pr None by (auto simp: read_resume_def read_pass_def delivered_result_def bt_contains_def Let_def)
      with stream_ok_cancel [OF ok p(1) Some pend] show ?thesis unfolding step by auto
    next
      case False
      then have "?r = (Read_wait (br_waiter b), mgr w)"
        using p pr None by (auto simp: read_resume_def read_pass_def delivered_result_def bt_contains_def split: option.splits)
      with ok show ?thesis unfolding step by (simp add: settle_return Some bt_insert_idem)
    qed
  qed
qed

lemma stream_ok_read:
  assumes ok: "stream_ok w" and en: "stream_enabled (Read_from d len timeout start now) w"
  shows "stream_ok (stream_step (Read_from d len timeout start now) w)"
proof (cases "enter_read d (mgr w)")
  case (Inl e)
  with ok show ?thesis by simp
next
  case (Inr i)
  let ?dl = "map_option (\<lambda>t. start + t) timeout"
  let ?r = "read_pass i len ?dl now None (mgr w)"
  have nb: "bt_get (blocked w) i = None" and nw: "next_waiter_id (mgr w) < next_waiter_id (mgr w) + 1"
    using en Inr less_succ_word by auto
  have step: "stream_step (Read_from d len timeout start now) w = settle i len ?dl ?r w"
    using Inr by (simp add: read_with_timeout_def)
  obtain p where p: "bt_get (pipes (mgr w)) i = Some p"
    using Inr ends_okD(2) [OF stream_okD(1) [OF ok]]
    by (fastforce simp: enter_read_def err_simps split: if_splits)
  note lo = stream_okD(2) [OF ok, of i] and ends = stream_okD(1) [OF ok]
  have lt: "i < next_pipe_id (mgr w)" using ends_okD(4) [OF ends p] .
  have idle: "waiting_reads p = []" "written w i = returned w i @ concat (pipe_buffer p)"
    using lo p nb local_written [OF lo p] by (cases rule: local_cases, auto)+
  have dr: "delivered_result None (mgr w) = None" by (simp add: delivered_result_def)
  consider (buffered) "pipe_buffer p \<noteq> []" | (eof) "pipe_buffer p = []" "closed_write p"
    | (empty) "pipe_buffer p = []" "\<not> closed_write p" by blast
  then show ?thesis
  proof cases
    case buffered
    obtain out left where d: "drain_buffer (pipe_buffer p) len = (out, left)" by fastforce
    let ?m = "notify_waiters_and_pollers ((mgr w)\<lparr>pipes := bt_insert i (p\<lparr>pipe_buffer := left\<rparr>) (pipes (mgr w))\<rparr>)"
    have r: "?r = (Read_return (Inr (Some out)), ?m)" using buffered p d by (simp add: read_pass_def dr)
    have "ends_ok ?m" using same_ends_ok [OF ends same_ends_read_pass [of "mgr w" i len ?dl now None]] by (simp add: r)
    then show ?thesis
      unfolding step r settle_return
      using idle chunk_queue.drain_splits [OF d] by (intro stream_ok_unblock [OF ok lt]) (auto split: if_splits)
  next
    case eof
    then have "?r = (Read_return (Inr None), mgr w)" using p by (simp add: read_pass_def dr)
    with ok nb show ?thesis unfolding step by (simp add: settle_return bt_remove_absent)
  next
    case empty
    let ?x = "next_waiter_id (mgr w)"
    obtain m where rg: "register_reader i p len (mgr w) = (?x, m)" by (simp add: register_reader_def Let_def)
    have m: "pipes m = bt_insert i (p\<lparr>waiting_reads := [?x]\<rparr>) (pipes (mgr w))" "next_waiter_id m = ?x + 1"
        "waiters m = bt_insert ?x \<lparr>pending_length = len, pending_result = None\<rparr> (waiters (mgr w))"
        "next_pipe_id m = next_pipe_id (mgr w)"
      using rg idle(1) by (auto simp: register_reader_def Let_def)
    have em: "ends_ok m" using same_ends_ok [OF ends same_ends_register [OF p, of len]] by (simp add: rg)
    let ?w = "w\<lparr>mgr := m, blocked := bt_insert i \<lparr>br_length = len, br_deadline = ?dl, br_waiter = ?x\<rparr> (blocked w)\<rparr>"
    have "local_ok ?w i"
      using idle empty nw by (auto simp: local_ok_def m in_flight_def pending_of_def)
    moreover have "others_same i w ?w"
      using local_waiter [OF stream_okD(2) [OF ok]] by (fastforce simp: others_same_def m)
    ultimately have wok: "stream_ok ?w"
      using lt em nw by (intro stream_frame [OF ok, of _ i]) (auto simp: m)
    show ?thesis
    proof (cases "\<exists>d. ?dl = Some d \<and> d \<le> now")
      case True
      then obtain e where r: "?r = (Read_return (Inl e), cancel_reader i ?x m)"
        using empty p by (auto simp: read_pass_def dr rg)
      have "stream_ok (settle i len ?dl (Read_return (Inl e), cancel_reader i ?x (mgr ?w)) ?w)"
        using stream_ok_cancel [OF wok, of i _ "\<lparr>br_length = len, br_deadline = ?dl, br_waiter = ?x\<rparr>"]
        by (simp add: m pending_of_def)
      moreover have "bt_remove i (blocked ?w) = bt_remove i (blocked w)" by (rule bt_eqI) simp
      ultimately show ?thesis unfolding step r settle_return by simp
    next
      case False
      then have "?r = (Read_wait ?x, m)" using empty p by (cases timeout) (auto simp: read_pass_def dr rg)
      with wok show ?thesis unfolding step by (simp add: settle_return)
    qed
  qed
qed

lemma stream_ok_close:
  assumes ok: "stream_ok w"
  shows "stream_ok (stream_step (Close_desc d) w)"
proof (cases "bt_get (desc_to_pipe (mgr w)) d")
  case None
  with ok show ?thesis by (simp add: pipe_close_def)
next
  case (Some r)
  let ?i = "ref_pipe_id r" and ?m = "pipe_close d (mgr w)"
  note ends = stream_okD(1) [OF ok] and lo = stream_okD(2) [OF ok, of ?i]
  obtain p where p: "bt_get (pipes (mgr w)) ?i = Some p" using ends_okD(2) [OF ends Some] by blast
  note ps = pipe_close_pipe [OF Some p]
  have wt: "bt_get (waiters ?m) x = (if ref_end r = Write_side \<and> x \<in> set (waiting_reads p)
      then map_option (\<lambda>w. w\<lparr>pending_result := Some None\<rparr>) (bt_get (waiters (mgr w)) x)
      else bt_get (waiters (mgr w)) x)" for x
    using Some p by (cases "ref_end r") (auto simp: pipe_close_def Let_def)
  have "local_ok (w\<lparr>mgr := ?m\<rparr>) ?i"
    using lo p
  proof (cases rule: local_cases)
    case idle
    with local_written [OF lo p] show ?thesis
      by (auto simp: local_ok_def ps wt in_flight_def pending_of_def split: pipe_side.splits if_splits)
  next
    case (waiting b pr)
    with local_written [OF lo p] local_waiter [OF lo waiting(1)] show ?thesis
      by (cases "ref_end r") (auto simp: local_ok_def ps wt frame_simps in_flight_def pending_of_def)
  next
    case (served b pr res)
    with local_written [OF lo p] local_waiter [OF lo served(1)] show ?thesis
      by (cases "ref_end r") (auto simp: local_ok_def ps wt frame_simps in_flight_def pending_of_def split: option.splits)
  qed
  moreover have "others_same ?i w (w\<lparr>mgr := ?m\<rparr>)"
    using lo p stream_okD(4) [OF ok]
    by (cases rule: local_cases) (auto simp: others_same_def ps wt)
  ultimately have "stream_ok (w\<lparr>mgr := ?m\<rparr>)"
    using ends_okD(4) [OF ends p] ends_ok_close [OF ends]
    by (intro stream_frame [OF ok, of _ ?i]) (auto simp: frame_simps)
  then show ?thesis by simp
qed

interpretation stream_system: guarded_system "new_world n" stream_enabled stream_step stream_ok
proof
  show "stream_ok (new_world n)"
    using pipe_system.init_inv [of n]
    by (simp add: stream_ok_def new_world_def local_ok_def new_pipe_manager_def)
  show "stream_ok (stream_step e w)" if "stream_ok w" "stream_enabled e w" for w e
    using that stream_ok_make stream_ok_close stream_ok_write stream_ok_read stream_ok_resume
    by (cases e) (simp_all del: stream_step.simps stream_enabled.simps, auto)
qed

section \<open>Properties\<close>

text \<open>
  (C19) A pipe is a FIFO byte stream: in every interleaving of creations, closes, writes (blocking or
  not, retried or not), reads and wake-ups, with one reader at a time per pipe and no wait timing out
  on delivered bytes, the bytes accepted by writes are exactly the bytes returned by reads, then those
  handed to a reader that has not run yet, then those in the buffer, in this order.
\<close>

theorem pipe_stream_fifo:
  assumes "valid_run stream_enabled stream_step (new_world n) es"
    and "w = fold stream_step es (new_world n)" and "bt_get (pipes (mgr w)) i = Some p"
  shows "written w i = returned w i @ in_flight w i @ concat (pipe_buffer p)"
  using local_written [OF stream_okD(2) [OF stream_system.run_inv [OF assms(1)]]] assms(2,3) by simp

theorem pipe_stream_fifo_witness:
  "\<exists>w p. w = fold stream_step [Make_pipe, Read_from 100000 2 None 0 0, Write_to 1 [1, 2, 3] True,
      Write_to 1 [4] False] (new_world None) \<and> bt_get (pipes (mgr w)) 1 = Some p \<and>
     [1, 2, 3, 4] = returned w 1 @ in_flight w 1 @ concat (pipe_buffer p)"
proof -
  define es where "es = [Make_pipe, Read_from 100000 2 None 0 0, Write_to 1 [1, 2, 3] True, Write_to 1 [4] False]"
  define w where "w = fold stream_step es (new_world None)"
  have v: "valid_run stream_enabled stream_step (new_world None) es" unfolding es_def by code_simp
  have "written w 1 = [1, 2, 3, 4]" unfolding w_def es_def by code_simp
  moreover have "bt_contains (pipes (mgr w)) 1" unfolding w_def es_def by code_simp
  then obtain p where "bt_get (pipes (mgr w)) 1 = Some p" by (auto simp: bt_contains_iff)
  ultimately show ?thesis using pipe_stream_fifo [OF v w_def] w_def unfolding es_def by metis
qed

text \<open>
  (C35) End of file is never early: in a run with one reader at a time per pipe and no wait that times out
  on delivered bytes, when a read that starts on a pipe (where no reader is blocked) reports end of file,
  every byte ever accepted by a write on that pipe has been returned by a read, and the write end is
  closed.
\<close>

theorem end_of_file_is_complete:
  assumes "valid_run stream_enabled stream_step (new_world n) es"
    and "w = fold stream_step es (new_world n)"
    and "enter_read d (mgr w) = Inr i" "bt_get (blocked w) i = None"
    and "fst (read_with_timeout d len timeout start now (mgr w)) = Read_return (Inr None)"
  shows "written w i = returned w i \<and> (\<exists>p. bt_get (pipes (mgr w)) i = Some p \<and> closed_write p)"
proof -
  have ok: "stream_ok w" using stream_system.run_inv [OF assms(1)] assms(2) by simp
  note lo = stream_okD(2) [OF ok, of i]
  obtain p where p: "bt_get (pipes (mgr w)) i = Some p" "pipe_buffer p = []" "closed_write p"
    using assms(3,5)
    by (auto simp: read_with_timeout_def read_pass_def delivered_result_def register_reader_def Let_def
        split: option.splits if_splits prod.splits)
  have "in_flight w i = []" using lo p(1) assms(4) by (cases rule: local_cases) auto
  with local_written [OF lo p(1)] p show ?thesis by simp
qed

theorem end_of_file_is_complete_witness:
  "\<exists>w. w = fold stream_step [Make_pipe, Write_to 1 [5, 6] True, Close_desc 100001,
      Read_from 100000 9 None 0 0] (new_world None) \<and> written w 1 = returned w 1"
proof -
  define es where "es = [Make_pipe, Write_to 1 [5, 6] True, Close_desc 100001, Read_from 100000 9 None 0 0]"
  define w where "w = fold stream_step es (new_world None)"
  have v: "valid_run stream_enabled stream_step (new_world None) es" unfolding es_def by code_simp
  have e: "enter_read 100000 (mgr w) = Inr 1" unfolding w_def es_def by code_simp
  have b: "bt_get (blocked w) 1 = None" unfolding w_def es_def by code_simp
  have r: "fst (read_with_timeout 100000 9 None 0 0 (mgr w)) = Read_return (Inr None)"
    unfolding w_def es_def by code_simp
  from end_of_file_is_complete [OF v w_def e b r] w_def show ?thesis unfolding es_def by blast
qed

end
