(* ===== verification/Two_Ended.thy ===== *)
theory Two_Ended
  imports Rust_Prelude
begin

text \<open>
  Registries of objects with two ends.  Pseudo-terminals are kept this way: descriptor numbers refer to an end
  of an object, an object lives until both ends are closed, and both kinds of numbers are handed
  out in increasing order.  The invariant and its two transitions are stated on plain functions.
\<close>

text \<open>Whether an end of an object is closed, by side.\<close>

type_synonym end_refs = "u64 \<Rightarrow> (u64 \<times> bool) option"
type_synonym end_objects = "u64 \<Rightarrow> (bool \<Rightarrow> bool) option"

definition ends_inv :: "end_refs \<Rightarrow> end_objects \<Rightarrow> u64 \<Rightarrow> u64 \<Rightarrow> bool" where
  "ends_inv refs objs next_desc next_obj \<longleftrightarrow>
     (\<forall>d i e. refs d = Some (i, e) \<longrightarrow> d < next_desc \<and> (\<exists>c. objs i = Some c \<and> \<not> c e)) \<and>
     (\<forall>d d' r. refs d = Some r \<longrightarrow> refs d' = Some r \<longrightarrow> d = d') \<and>
     (\<forall>i c. objs i = Some c \<longrightarrow> i < next_obj \<and> \<not> (c True \<and> c False) \<and> (\<forall>e. \<not> c e \<longrightarrow> (\<exists>d. refs d = Some (i, e))))"

lemma ends_invD:
  assumes "ends_inv refs objs nd n"
  shows "refs d = Some (i, e) \<Longrightarrow> d < nd" "refs d = Some (i, e) \<Longrightarrow> \<exists>c. objs i = Some c \<and> \<not> c e"
    "refs d = Some r \<Longrightarrow> refs d' = Some r \<Longrightarrow> d = d'"
    "objs i = Some c \<Longrightarrow> i < n" "objs i = Some c \<Longrightarrow> \<not> (c True \<and> c False)"
    "objs i = Some c \<Longrightarrow> \<not> c e \<Longrightarrow> \<exists>d. refs d = Some (i, e)"
  using assms unfolding ends_inv_def by blast+

lemma ends_inv_empty: "ends_inv (\<lambda>_. None) (\<lambda>_. None) nd n"
  by (simp add: ends_inv_def)

lemma ends_inv_create:
  assumes inv: "ends_inv refs objs nd n" and n: "n \<noteq> - 1" "nd \<noteq> - 1" "nd + 1 \<noteq> - 1"
  shows "ends_inv (refs(nd \<mapsto> (n, True), nd + 1 \<mapsto> (n, False))) (objs(n \<mapsto> \<lambda>_. False)) (nd + 1 + 1) (n + 1)"
proof -
  have lt: "n < n + 1" "nd < nd + 1" "nd + 1 < nd + 1 + 1" using less_succ_word n by blast+
  note D = ends_invD [OF inv]
  have fresh: "objs n = None" using D(4) [of n] by (cases "objs n") auto
  have old: "d < nd" "i < n" if "refs d = Some (i, e)" for d i e using D(1,2,4) that by blast+
  have free: "d < nd" if "refs d = Some r" for d r using D(1) [of d "fst r" "snd r"] that by simp
  show ?thesis
    unfolding ends_inv_def
  proof (intro conjI allI impI)
    fix d i e
    assume "(refs(nd \<mapsto> (n, True), nd + 1 \<mapsto> (n, False))) d = Some (i, e)"
    then consider "d \<in> {nd, nd + 1}" "i = n" | "refs d = Some (i, e)" by (auto split: if_splits)
    then have "d < nd + 1 + 1 \<and> (i = n \<or> i \<noteq> n \<and> refs d = Some (i, e))"
    proof cases
      case 1
      then show ?thesis using lt(2,3) less_trans by auto
    next
      case 2
      with old [OF 2] lt(2,3) show ?thesis using less_trans by blast
    qed
    then show "d < nd + 1 + 1" "\<exists>c. (objs(n \<mapsto> \<lambda>_. False)) i = Some c \<and> \<not> c e" using D(2) by auto
  next
    fix d d' r
    assume "(refs(nd \<mapsto> (n, True), nd + 1 \<mapsto> (n, False))) d = Some r" "(refs(nd \<mapsto> (n, True), nd + 1 \<mapsto> (n, False))) d' = Some r"
    moreover have "refs x \<noteq> Some (n, y)" for x y using old(2) [of x n y] by auto
    ultimately show "d = d'" using D(3) by (auto split: if_splits)
  next
    fix i c
    assume c: "(objs(n \<mapsto> \<lambda>_. False)) i = Some c"
    then show "i < n + 1" using D(4) [of i c] lt(1) by (auto split: if_splits)
    from c show "\<not> (c True \<and> c False)" using D(5) by (auto split: if_splits)
    fix e
    assume e: "\<not> c e"
    show "\<exists>d. (refs(nd \<mapsto> (n, True), nd + 1 \<mapsto> (n, False))) d = Some (i, e)"
    proof (cases "i = n")
      case True
      then show ?thesis using lt(2) by (intro exI [of _ "if e then nd else nd + 1"]) auto
    next
      case False
      with c D(6) [of i c e] e obtain d where "refs d = Some (i, e)" by auto
      moreover from free [OF this] lt(2) have "d \<noteq> nd" "d \<noteq> nd + 1" by auto
      ultimately show ?thesis by (intro exI [of _ d]) simp
    qed
  qed
qed

lemma ends_inv_close:
  assumes inv: "ends_inv refs objs nd n" and d: "refs d = Some (i, e)" "objs i = Some c"
  shows "ends_inv (refs(d := None)) (objs(i := if c (\<not> e) then None else Some (c(e := True)))) nd n"
proof -
  note D = ends_invD [OF inv]
  have other: "refs d' = Some (i, e) \<Longrightarrow> d' = d" for d' using D(3) d(1) by blast
  show ?thesis
    unfolding ends_inv_def
  proof (intro conjI allI impI)
    fix d' i' e'
    assume r: "(refs(d := None)) d' = Some (i', e')"
    then show "d' < nd" using D(1) by (auto split: if_splits)
    from r have r': "refs d' = Some (i', e')" "d' \<noteq> d" by (auto split: if_splits)
    from D(2) [OF r'(1)] obtain c' where c': "objs i' = Some c'" "\<not> c' e'" by blast
    with r' other d(2) show "\<exists>c'. (objs(i := if c (\<not> e) then None else Some (c(e := True)))) i' = Some c' \<and> \<not> c' e'"
      by (cases "i' = i"; cases e; cases e') auto
  next
    fix d1 d2 r
    assume "(refs(d := None)) d1 = Some r" "(refs(d := None)) d2 = Some r"
    then show "d1 = d2" using D(3) by (auto split: if_splits)
  next
    fix i' c'
    assume c': "(objs(i := if c (\<not> e) then None else Some (c(e := True)))) i' = Some c'"
    then show "i' < n" using D(4) d(2) by (auto split: if_splits)
    from c' show "\<not> (c' True \<and> c' False)" using D(5) by (cases e) (auto split: if_splits)
    fix e'
    assume e': "\<not> c' e'"
    from c' e' d(2) have "\<exists>c0. objs i' = Some c0 \<and> \<not> c0 e'" "i' \<noteq> i \<or> e' \<noteq> e" by (auto split: if_splits)
    then obtain d' where "refs d' = Some (i', e')" using D(6) by blast
    with \<open>i' \<noteq> i \<or> e' \<noteq> e\<close> d(1) have "(refs(d := None)) d' = Some (i', e')" by auto
    then show "\<exists>d'. (refs(d := None)) d' = Some (i', e')" by blast
  qed
qed

lemma ends_inv_exists: "ends_inv refs objs nd n \<Longrightarrow> objs i \<noteq> None \<longleftrightarrow> (\<exists>d e. refs d = Some (i, e))"
proof
  assume inv: "ends_inv refs objs nd n" and "objs i \<noteq> None"
  then obtain c where c: "objs i = Some c" by auto
  with ends_invD(5) [OF inv c] have "\<exists>e. \<not> c e" by blast
  with ends_invD(6) [OF inv c] show "\<exists>d e. refs d = Some (i, e)" by blast
next
  assume "ends_inv refs objs nd n" "\<exists>d e. refs d = Some (i, e)"
  then show "objs i \<noteq> None" using ends_invD(2) by fastforce
qed

end
