(* ===== verification/Line_Discipline.thy ===== *)
theory Line_Discipline
  imports BTree_Map Chunk_Buffer "HOL-Library.Code_Target_Nat"
begin

text \<open>
  The line discipline of pseudo-terminals (\<open>crates/kernel/src/pty.rs\<close>): terminal settings, the state of one
  terminal, output and input processing and delivery to buffers or waiting readers.  \<open>process_input\<close> is
  related to a line editor that knows nothing of buffers and readers: per byte it yields the pending
  line and the lines, echoes and signals that leave the discipline.
\<close>

section \<open>Settings\<close>

definition MAX_PTY_BUFFER_BYTES :: nat where "MAX_PTY_BUFFER_BYTES = 65536"
definition MAX_CANON :: nat where "MAX_CANON = 4096"
definition PTY_SIGINT :: int where "PTY_SIGINT = 2"
definition PTY_SIGQUIT :: int where "PTY_SIGQUIT = 3"
definition PTY_SIGTSTP :: int where "PTY_SIGTSTP = 20"
definition DEFAULT_PTY_COLUMNS :: u16 where "DEFAULT_PTY_COLUMNS = 80"
definition DEFAULT_PTY_ROWS :: u16 where "DEFAULT_PTY_ROWS = 24"

datatype pty_error = Pty_bad_fd string | Pty_io string | Pty_would_block string

fun pty_error_code :: "pty_error \<Rightarrow> string" where
  "pty_error_code (Pty_bad_fd _) = ''EBADF''"
| "pty_error_code (Pty_io _) = ''EIO''"
| "pty_error_code (Pty_would_block _) = ''EAGAIN''"

record line_discipline_config =
  ldc_canonical :: "bool option"
  ldc_echo :: "bool option"
  ldc_isig :: "bool option"

record control_chars =
  vintr :: u8
  vquit :: u8
  vsusp :: u8
  veof :: u8
  verase :: u8

record termios =
  icrnl :: bool
  opost :: bool
  onlcr :: bool
  icanon :: bool
  echo :: bool
  isig :: bool
  cc :: control_chars

record partial_control_chars =
  p_vintr :: "u8 option"
  p_vquit :: "u8 option"
  p_vsusp :: "u8 option"
  p_veof :: "u8 option"
  p_verase :: "u8 option"

record partial_termios =
  p_icrnl :: "bool option"
  p_opost :: "bool option"
  p_onlcr :: "bool option"
  p_icanon :: "bool option"
  p_echo :: "bool option"
  p_isig :: "bool option"
  p_cc :: "partial_control_chars option"

record window_size =
  ws_cols :: u16
  ws_rows :: u16

definition default_window_size :: window_size where
  "default_window_size = \<lparr>ws_cols = DEFAULT_PTY_COLUMNS, ws_rows = DEFAULT_PTY_ROWS\<rparr>"

definition default_termios :: termios where
  "default_termios =
     \<lparr>icrnl = True, opost = True, onlcr = True, icanon = True, echo = True, isig = True,
      cc = \<lparr>vintr = 0x03, vquit = 0x1C, vsusp = 0x1A, veof = 0x04, verase = 0x7F\<rparr>\<rparr>"

text \<open>\<open>if let Some(x) = update { self = x }\<close>.\<close>

definition or_keep :: "'a option \<Rightarrow> 'a \<Rightarrow> 'a" where
  "or_keep update old = (case update of None \<Rightarrow> old | Some x \<Rightarrow> x)"

definition merge_control_chars :: "partial_control_chars \<Rightarrow> control_chars \<Rightarrow> control_chars" where
  "merge_control_chars u c =
     \<lparr>vintr = or_keep (p_vintr u) (vintr c), vquit = or_keep (p_vquit u) (vquit c), vsusp = or_keep (p_vsusp u) (vsusp c),
      veof = or_keep (p_veof u) (veof c), verase = or_keep (p_verase u) (verase c)\<rparr>"

definition merge_termios :: "partial_termios \<Rightarrow> termios \<Rightarrow> termios" where
  "merge_termios u t =
     \<lparr>icrnl = or_keep (p_icrnl u) (icrnl t), opost = or_keep (p_opost u) (opost t), onlcr = or_keep (p_onlcr u) (onlcr t),
      icanon = or_keep (p_icanon u) (icanon t), echo = or_keep (p_echo u) (echo t), isig = or_keep (p_isig u) (isig t),
      cc = (case p_cc u of None \<Rightarrow> cc t | Some c \<Rightarrow> merge_control_chars c (cc t))\<rparr>"

section \<open>The state of a terminal\<close>

record pty_pending_read =
  ppr_result :: "bytes option option"

record pty_state =
  pty_path :: string
  input_buffer :: "bytes list"
  output_buffer :: "bytes list"
  closed_master :: bool
  closed_slave :: bool
  waiting_input_reads :: "u64 list"
  waiting_output_reads :: "u64 list"
  pty_termios :: termios
  line_buffer :: bytes
  foreground_pgid :: u32
  pty_window_size :: window_size

definition default_pty :: "string \<Rightarrow> pty_state" where
  "default_pty path =
     \<lparr>pty_path = path, input_buffer = [], output_buffer = [], closed_master = False, closed_slave = False,
      waiting_input_reads = [], waiting_output_reads = [], pty_termios = default_termios, line_buffer = [],
      foreground_pgid = 0, pty_window_size = default_window_size\<rparr>"

text \<open>The arguments that \<open>process_input\<close> takes by mutable reference.\<close>

record pty_ctx =
  ctx_pty :: pty_state
  ctx_waiters :: "(u64, pty_pending_read) btreemap"
  ctx_signals :: "(u32 \<times> int) list"

section \<open>Delivery\<close>

text \<open>The front of a queue of readers, when its entry is still there.\<close>

definition live_waiter :: "u64 list \<Rightarrow> (u64, pty_pending_read) btreemap \<Rightarrow> u64 option" where
  "live_waiter queue ws =
     (case queue of [] \<Rightarrow> None | waiter_id # _ \<Rightarrow> if bt_contains ws waiter_id then Some waiter_id else None)"

definition hand_over :: "u64 \<Rightarrow> bytes \<Rightarrow> pty_ctx \<Rightarrow> pty_ctx" where
  "hand_over waiter_id data c =
     c\<lparr>ctx_waiters := bt_adjust waiter_id (\<lambda>w. w\<lparr>ppr_result := Some (Some data)\<rparr>) (ctx_waiters c)\<rparr>"

definition deliver_input :: "bytes \<Rightarrow> pty_ctx \<Rightarrow> (pty_error + unit) \<times> pty_ctx" where
  "deliver_input data c =
     (let pty = (ctx_pty c)\<lparr>waiting_input_reads := tl (waiting_input_reads (ctx_pty c))\<rparr>; c1 = c\<lparr>ctx_pty := pty\<rparr>
      in case live_waiter (waiting_input_reads (ctx_pty c)) (ctx_waiters c) of
           Some waiter_id \<Rightarrow> (Inr (), hand_over waiter_id data c1)
         | None \<Rightarrow>
             if buffer_size (input_buffer pty) + length data > MAX_PTY_BUFFER_BYTES
             then (Inl (Pty_would_block ''PTY input buffer full''), c1)
             else (Inr (), c1\<lparr>ctx_pty := pty\<lparr>input_buffer := input_buffer pty @ [data]\<rparr>\<rparr>))"

definition deliver_output :: "bytes \<Rightarrow> bool \<Rightarrow> pty_ctx \<Rightarrow> (pty_error + unit) \<times> pty_ctx" where
  "deliver_output data is_echo c =
     (let pty = (ctx_pty c)\<lparr>waiting_output_reads := tl (waiting_output_reads (ctx_pty c))\<rparr>; c1 = c\<lparr>ctx_pty := pty\<rparr>
      in case live_waiter (waiting_output_reads (ctx_pty c)) (ctx_waiters c) of
           Some waiter_id \<Rightarrow> (Inr (), hand_over waiter_id data c1)
         | None \<Rightarrow>
             if buffer_size (output_buffer pty) + length data > MAX_PTY_BUFFER_BYTES
             then (Inl (Pty_would_block (if is_echo then ''PTY output buffer full (echo backpressure)''
                                         else ''PTY output buffer full'')), c1)
             else (Inr (), c1\<lparr>ctx_pty := pty\<lparr>output_buffer := output_buffer pty @ [data]\<rparr>\<rparr>))"

section \<open>Output and input processing\<close>

text \<open>The loop of \<open>process_output\<close>; the flag is whether the byte before is a carriage return.\<close>

fun add_crs :: "bool \<Rightarrow> bytes \<Rightarrow> bytes" where
  "add_crs after_cr [] = []"
| "add_crs after_cr (b # bs) =
     (if b = 0x0A \<and> \<not> after_cr then [0x0D, b] else [b]) @ add_crs (b = 0x0D) bs"

fun bare_newlines :: "bool \<Rightarrow> bytes \<Rightarrow> nat" where
  "bare_newlines after_cr [] = 0"
| "bare_newlines after_cr (b # bs) = (if b = 0x0A \<and> \<not> after_cr then 1 else 0) + bare_newlines (b = 0x0D) bs"

definition process_output :: "termios \<Rightarrow> bytes \<Rightarrow> bytes" where
  "process_output t data =
     (if \<not> opost t \<or> \<not> onlcr t \<or> 0x0A \<notin> set data then data
      else if bare_newlines False data = 0 then data
      else add_crs False data)"

definition translate_input :: "termios \<Rightarrow> bytes \<Rightarrow> bytes" where
  "translate_input t data =
     (if \<not> icrnl t \<or> 0x0D \<notin> set data then data else map (\<lambda>b. if b = 0x0D then 0x0A else b) data)"

definition signal_for_byte :: "termios \<Rightarrow> u8 \<Rightarrow> int option" where
  "signal_for_byte t byte =
     (if byte = vintr (cc t) then Some PTY_SIGINT
      else if byte = vquit (cc t) then Some PTY_SIGQUIT
      else if byte = vsusp (cc t) then Some PTY_SIGTSTP
      else None)"

text \<open>The byte after the translation of carriage returns, and the signal it stands for.\<close>

definition input_byte :: "termios \<Rightarrow> u8 \<Rightarrow> u8" where
  "input_byte t byte = (if icrnl t \<and> byte = 0x0D then 0x0A else byte)"

definition input_signal :: "termios \<Rightarrow> u8 \<Rightarrow> int option" where
  "input_signal t byte = (if isig t then signal_for_byte t byte else None)"

text \<open>A call with \<open>?\<close> between statements that change the state.\<close>

definition then_do :: "('e + unit) \<times> 's \<Rightarrow> ('s \<Rightarrow> ('e + unit) \<times> 's) \<Rightarrow> ('e + unit) \<times> 's" where
  "then_do r f = (case r of (Inl e, s) \<Rightarrow> (Inl e, s) | (Inr _, s) \<Rightarrow> f s)"

definition set_line :: "bytes \<Rightarrow> pty_ctx \<Rightarrow> pty_ctx" where
  "set_line line c = c\<lparr>ctx_pty := (ctx_pty c)\<lparr>line_buffer := line\<rparr>\<rparr>"

definition echo_bytes :: "bytes \<Rightarrow> pty_ctx \<Rightarrow> (pty_error + unit) \<times> pty_ctx" where
  "echo_bytes data c = (if echo (pty_termios (ctx_pty c)) then deliver_output data True c else (Inr (), c))"

definition deliver_line :: "pty_ctx \<Rightarrow> (pty_error + unit) \<times> pty_ctx" where
  "deliver_line c = then_do (deliver_input (line_buffer (ctx_pty c)) c) (\<lambda>c. (Inr (), set_line [] c))"

text \<open>The canonical branch of the loop of \<open>process_input\<close>, and the body of the loop.\<close>

definition canonical_byte :: "termios \<Rightarrow> u8 \<Rightarrow> pty_ctx \<Rightarrow> (pty_error + unit) \<times> pty_ctx" where
  "canonical_byte t byte c =
     (let line = line_buffer (ctx_pty c)
      in if byte = veof (cc t) then if line = [] then deliver_input [] c else deliver_line c
         else if byte = verase (cc t) \<or> byte = 0x08 then
           if line \<noteq> [] then echo_bytes [0x08, 0x20, 0x08] (set_line (butlast line) c) else (Inr (), c)
         else if byte = 0x0A then then_do (echo_bytes [0x0D, 0x0A] (set_line (line @ [0x0A]) c)) deliver_line
         else if length line \<ge> MAX_CANON then (Inr (), c)
         else echo_bytes [byte] (set_line (line @ [byte]) c))"

definition process_byte :: "u8 \<Rightarrow> pty_ctx \<Rightarrow> (pty_error + unit) \<times> pty_ctx" where
  "process_byte raw c =
     (let pty = ctx_pty c; t = pty_termios pty; byte = input_byte t raw
      in case input_signal t byte of
           Some signal \<Rightarrow>
             let c1 = (if icanon t then set_line [] c else c)
             in (Inr (), if foreground_pgid pty > 0
                         then c1\<lparr>ctx_signals := ctx_signals c1 @ [(foreground_pgid pty, signal)]\<rparr> else c1)
         | None \<Rightarrow>
             if icanon t then canonical_byte t byte c
             else then_do (echo_bytes [byte] c) (deliver_input [byte]))"

fun process_bytes :: "bytes \<Rightarrow> pty_ctx \<Rightarrow> (pty_error + unit) \<times> pty_ctx" where
  "process_bytes [] c = (Inr (), c)"
| "process_bytes (b # bs) c = then_do (process_byte b c) (process_bytes bs)"

definition process_input :: "bytes \<Rightarrow> pty_ctx \<Rightarrow> (pty_error + unit) \<times> pty_ctx" where
  "process_input data c =
     (let t = pty_termios (ctx_pty c)
      in if \<not> icanon t \<and> \<not> echo t \<and> \<not> isig t then deliver_input (translate_input t data) c
         else process_bytes data c)"

section \<open>Output processing\<close>

text \<open>Whether every newline follows a carriage return.\<close>

fun crlf :: "bool \<Rightarrow> bytes \<Rightarrow> bool" where
  "crlf after_cr [] = True"
| "crlf after_cr (b # bs) = ((b = 0x0A \<longrightarrow> after_cr) \<and> crlf (b = 0x0D) bs)"

lemma crlf_iff: "crlf after_cr bs \<longleftrightarrow> bare_newlines after_cr bs = 0"
  by (induction bs arbitrary: after_cr) auto

lemma crlf_no_newline: "0x0A \<notin> set bs \<Longrightarrow> crlf after_cr bs"
  by (induction bs arbitrary: after_cr) auto

lemma add_crs_fixed: "crlf after_cr bs \<Longrightarrow> add_crs after_cr bs = bs"
  by (induction bs arbitrary: after_cr) auto

lemma crlf_add_crs: "crlf after_cr (add_crs after_cr bs)"
  by (induction bs arbitrary: after_cr) auto

lemma filter_add_crs: "filter (\<lambda>b. b \<noteq> 0x0D) (add_crs after_cr bs) = filter (\<lambda>b. b \<noteq> 0x0D) bs"
  by (induction bs arbitrary: after_cr) auto

lemma length_add_crs: "length (add_crs after_cr bs) = length bs + bare_newlines after_cr bs"
  by (induction bs arbitrary: after_cr) auto

lemma process_output_eq: "process_output t data = (if opost t \<and> onlcr t then add_crs False data else data)"
  using add_crs_fixed crlf_no_newline by (auto simp: process_output_def crlf_iff [symmetric])

lemma crlf_nth: "crlf after_cr bs \<Longrightarrow> i < length bs \<Longrightarrow> bs ! i = 0x0A \<Longrightarrow> if i = 0 then after_cr else bs ! (i - 1) = 0x0D"
proof (induction bs arbitrary: after_cr i)
  case (Cons b bs)
  show ?case
  proof (cases i)
    case (Suc j)
    with Cons.IH [of "b = 0x0D" j] Cons.prems show ?thesis by (cases j) auto
  qed (use Cons.prems in auto)
qed simp

section \<open>The line editor\<close>

text \<open>
  What the discipline does to a terminal with unlimited buffers and no readers: the lines and the echoes
  it passes on, the signals it raises, and the line left.
\<close>

record edit =
  ed_lines :: "bytes list"
  ed_echoes :: "bytes list"
  ed_signals :: "int list"
  ed_line :: bytes

definition echoed :: "termios \<Rightarrow> bytes \<Rightarrow> bytes list" where
  "echoed t data = (if echo t then [data] else [])"

definition edit_char :: "termios \<Rightarrow> u8 \<Rightarrow> edit \<Rightarrow> edit" where
  "edit_char t byte e =
     (let line = ed_line e
      in if byte = veof (cc t) then e\<lparr>ed_lines := ed_lines e @ [line], ed_line := []\<rparr>
         else if byte = verase (cc t) \<or> byte = 0x08 then
           (if line = [] then e
            else e\<lparr>ed_line := butlast line, ed_echoes := ed_echoes e @ echoed t [0x08, 0x20, 0x08]\<rparr>)
         else if byte = 0x0A then
           e\<lparr>ed_echoes := ed_echoes e @ echoed t [0x0D, 0x0A], ed_lines := ed_lines e @ [line @ [0x0A]], ed_line := []\<rparr>
         else if length line \<ge> MAX_CANON then e
         else e\<lparr>ed_line := line @ [byte], ed_echoes := ed_echoes e @ echoed t [byte]\<rparr>)"

definition edit_byte :: "termios \<Rightarrow> u8 \<Rightarrow> edit \<Rightarrow> edit" where
  "edit_byte t raw e =
     (let byte = input_byte t raw
      in case input_signal t byte of
           Some signal \<Rightarrow> e\<lparr>ed_line := (if icanon t then [] else ed_line e), ed_signals := ed_signals e @ [signal]\<rparr>
         | None \<Rightarrow>
             if icanon t then edit_char t byte e
             else e\<lparr>ed_echoes := ed_echoes e @ echoed t [byte], ed_lines := ed_lines e @ [[byte]]\<rparr>)"

definition edit_bytes :: "termios \<Rightarrow> bytes \<Rightarrow> edit \<Rightarrow> edit" where
  "edit_bytes t data = fold (edit_byte t) data"

definition start_edit :: "bytes \<Rightarrow> edit" where
  "start_edit line = \<lparr>ed_lines = [], ed_echoes = [], ed_signals = [], ed_line = line\<rparr>"

text \<open>The state after the editor's results have been buffered.\<close>

definition apply_edit :: "edit \<Rightarrow> pty_ctx \<Rightarrow> pty_ctx" where
  "apply_edit e c =
     (let pty = ctx_pty c
      in c\<lparr>ctx_pty := pty\<lparr>input_buffer := input_buffer pty @ ed_lines e, output_buffer := output_buffer pty @ ed_echoes e,
                           line_buffer := ed_line e\<rparr>,
           ctx_signals := ctx_signals c @
             (if foreground_pgid pty > 0 then map (\<lambda>signal. (foreground_pgid pty, signal)) (ed_signals e) else [])\<rparr>)"

definition fits :: "edit \<Rightarrow> pty_state \<Rightarrow> bool" where
  "fits e pty \<longleftrightarrow>
     buffer_size (input_buffer pty) + buffer_size (ed_lines e) \<le> MAX_PTY_BUFFER_BYTES \<and>
     buffer_size (output_buffer pty) + buffer_size (ed_echoes e) \<le> MAX_PTY_BUFFER_BYTES"

definition unattended :: "pty_state \<Rightarrow> bool" where
  "unattended pty \<longleftrightarrow> waiting_input_reads pty = [] \<and> waiting_output_reads pty = []"

lemma deliver_unattended:
  assumes "unattended (ctx_pty c)"
  shows "buffer_size (input_buffer (ctx_pty c)) + length data \<le> MAX_PTY_BUFFER_BYTES \<Longrightarrow>
      deliver_input data c = (Inr (), c\<lparr>ctx_pty := (ctx_pty c)\<lparr>input_buffer := input_buffer (ctx_pty c) @ [data]\<rparr>\<rparr>)"
    "buffer_size (output_buffer (ctx_pty c)) + length data \<le> MAX_PTY_BUFFER_BYTES \<Longrightarrow>
      deliver_output data is_echo c = (Inr (), c\<lparr>ctx_pty := (ctx_pty c)\<lparr>output_buffer := output_buffer (ctx_pty c) @ [data]\<rparr>\<rparr>)"
  using assms by (simp_all add: deliver_input_def deliver_output_def unattended_def live_waiter_def Let_def)

lemma edit_byte_grows:
  "\<exists>ls es. ed_lines (edit_byte t b e) = ed_lines e @ ls \<and> ed_echoes (edit_byte t b e) = ed_echoes e @ es"
  by (auto simp: edit_byte_def edit_char_def Let_def split: option.splits if_splits)

lemma edit_bytes_grow:
  "\<exists>ls es. ed_lines (edit_bytes t data e) = ed_lines e @ ls \<and> ed_echoes (edit_bytes t data e) = ed_echoes e @ es"
proof (induction data arbitrary: e)
  case (Cons b bs)
  from Cons [of "edit_byte t b e"] edit_byte_grows [of t b e] show ?case by (auto simp: edit_bytes_def)
qed (simp add: edit_bytes_def)

lemma fits_before: "fits (edit_bytes t data e) pty \<Longrightarrow> fits e pty"
  using edit_bytes_grow [of t data e] by (auto simp: fits_def)

lemma apply_edit_sel [simp]:
  "pty_termios (ctx_pty (apply_edit e c)) = pty_termios (ctx_pty c)"
  "foreground_pgid (ctx_pty (apply_edit e c)) = foreground_pgid (ctx_pty c)"
  "line_buffer (ctx_pty (apply_edit e c)) = ed_line e"
  "ctx_waiters (apply_edit e c) = ctx_waiters c"
  "set_line line (apply_edit e c) = apply_edit (e\<lparr>ed_line := line\<rparr>) c"
  by (simp_all add: apply_edit_def set_line_def Let_def)

lemma apply_edit_signal:
  "foreground_pgid (ctx_pty c) > 0 \<Longrightarrow>
     (apply_edit e c)\<lparr>ctx_signals := ctx_signals (apply_edit e c) @ [(foreground_pgid (ctx_pty c), signal)]\<rparr> =
       apply_edit (e\<lparr>ed_signals := ed_signals e @ [signal]\<rparr>) c"
  "\<not> foreground_pgid (ctx_pty c) > 0 \<Longrightarrow> apply_edit (e\<lparr>ed_signals := sigs\<rparr>) c = apply_edit e c"
  by (simp_all add: apply_edit_def Let_def)

lemma apply_edit_deliver:
  assumes "unattended (ctx_pty c)"
  shows "fits (e\<lparr>ed_lines := ed_lines e @ [data]\<rparr>) (ctx_pty c) \<Longrightarrow>
      deliver_input data (apply_edit e c) = (Inr (), apply_edit (e\<lparr>ed_lines := ed_lines e @ [data]\<rparr>) c)"
    "fits (e\<lparr>ed_echoes := ed_echoes e @ echoed (pty_termios (ctx_pty c)) data\<rparr>) (ctx_pty c) \<Longrightarrow>
      echo_bytes data (apply_edit e c) =
        (Inr (), apply_edit (e\<lparr>ed_echoes := ed_echoes e @ echoed (pty_termios (ctx_pty c)) data\<rparr>) c)"
proof -
  have u: "unattended (ctx_pty (apply_edit e c))" using assms by (simp add: apply_edit_def Let_def unattended_def)
  have b: "input_buffer (ctx_pty (apply_edit e c)) = input_buffer (ctx_pty c) @ ed_lines e"
    "output_buffer (ctx_pty (apply_edit e c)) = output_buffer (ctx_pty c) @ ed_echoes e"
    by (simp_all add: apply_edit_def Let_def)
  show "deliver_input data (apply_edit e c) = (Inr (), apply_edit (e\<lparr>ed_lines := ed_lines e @ [data]\<rparr>) c)"
    if "fits (e\<lparr>ed_lines := ed_lines e @ [data]\<rparr>) (ctx_pty c)"
    using that by (simp add: deliver_unattended(1) [OF u] b fits_def) (simp add: apply_edit_def Let_def)
  show "echo_bytes data (apply_edit e c) =
      (Inr (), apply_edit (e\<lparr>ed_echoes := ed_echoes e @ echoed (pty_termios (ctx_pty c)) data\<rparr>) c)"
    if "fits (e\<lparr>ed_echoes := ed_echoes e @ echoed (pty_termios (ctx_pty c)) data\<rparr>) (ctx_pty c)"
  proof (cases "echo (pty_termios (ctx_pty c))")
    case True
    with that show ?thesis
      by (simp add: deliver_unattended(2) [OF u] b fits_def echo_bytes_def echoed_def) (simp add: apply_edit_def Let_def)
  qed (simp add: echo_bytes_def echoed_def)
qed

lemma fits_line [simp]: "fits (e\<lparr>ed_line := l\<rparr>) pty = fits e pty" "fits (e\<lparr>ed_signals := ss\<rparr>) pty = fits e pty"
  by (simp_all add: fits_def)

lemma fits_parts:
  "fits (e\<lparr>ed_lines := ls @ ms, ed_echoes := es\<rparr>) pty \<Longrightarrow> fits (e\<lparr>ed_lines := ls, ed_echoes := es\<rparr>) pty"
  by (simp add: fits_def)

lemma edit_idle: "e\<lparr>ed_lines := ed_lines e\<rparr> = e" "e\<lparr>ed_line := ed_line e\<rparr> = e"
  by simp_all


lemma canonical_edits:
  assumes u: "unattended (ctx_pty c)" and t: "t = pty_termios (ctx_pty c)" and f: "fits (edit_char t byte e) (ctx_pty c)"
  shows "canonical_byte t byte (apply_edit e c) = (Inr (), apply_edit (edit_char t byte e) c)"
proof -
  note deliver = apply_edit_deliver [OF u, folded t] and run = canonical_byte_def edit_char_def Let_def
  consider "byte = veof (cc t)" | "byte \<noteq> veof (cc t)" "byte = verase (cc t) \<or> byte = 0x08"
    | "byte \<noteq> veof (cc t)" "\<not> (byte = verase (cc t) \<or> byte = 0x08)" "byte = 0x0A"
    | "byte \<noteq> veof (cc t)" "\<not> (byte = verase (cc t) \<or> byte = 0x08)" "byte \<noteq> 0x0A" by blast
  then show ?thesis
  proof cases
    case 1
    show ?thesis
    proof (cases "ed_line e = []")
      case True
      with 1 have e: "edit_char t byte e = e\<lparr>ed_lines := ed_lines e @ [[]]\<rparr>" by (cases e) (simp add: edit_char_def)
      from 1 True deliver(1) [of e "[]"] f show ?thesis unfolding e by (simp add: canonical_byte_def)
    qed (use 1 f in \<open>simp add: run deliver_line_def then_do_def deliver\<close>)
  next
    case 2
    with f show ?thesis by (simp add: run deliver split: if_splits)
  next
    case 3
    with f have "fits (e\<lparr>ed_echoes := ed_echoes e @ echoed t [0x0D, 0x0A], ed_lines := ed_lines e @ [ed_line e @ [0x0A]]\<rparr>) (ctx_pty c)"
      by (simp add: run)
    with 3 show ?thesis by (simp add: run then_do_def deliver_line_def deliver fits_def)
  next
    case 4
    with f show ?thesis by (simp add: run deliver split: if_splits)
  qed
qed

lemma process_byte_edits:
  assumes u: "unattended (ctx_pty c)" and t: "t = pty_termios (ctx_pty c)" and f: "fits (edit_byte t b e) (ctx_pty c)"
  shows "process_byte b (apply_edit e c) = (Inr (), apply_edit (edit_byte t b e) c)"
proof (cases "input_signal t (input_byte t b)")
  case (Some signal)
  then show ?thesis
    by (cases "foreground_pgid (ctx_pty c) > 0"; cases "icanon t")
       (simp_all add: process_byte_def edit_byte_def Let_def t [symmetric] apply_edit_signal)
next
  case None
  note run = process_byte_def edit_byte_def Let_def t [symmetric] None
  show ?thesis
  proof (cases "icanon t")
    case True
    with canonical_edits [OF u t, of "input_byte t b" e] f show ?thesis by (simp add: run)
  next
    case False
    with f apply_edit_deliver [OF u, folded t] show ?thesis by (simp add: run then_do_def fits_def)
  qed
qed

lemma process_bytes_edits:
  assumes "unattended (ctx_pty c)" "fits (edit_bytes (pty_termios (ctx_pty c)) data e) (ctx_pty c)"
  shows "process_bytes data (apply_edit e c) = (Inr (), apply_edit (edit_bytes (pty_termios (ctx_pty c)) data e) c)"
  using assms
proof (induction data arbitrary: e)
  case (Cons b bs)
  let ?t = "pty_termios (ctx_pty c)"
  have f: "fits (edit_bytes ?t bs (edit_byte ?t b e)) (ctx_pty c)" using Cons.prems(2) by (simp add: edit_bytes_def)
  from process_byte_edits [OF Cons.prems(1) refl fits_before [OF f]] Cons.IH [OF Cons.prems(1) f] show ?case
    by (simp add: then_do_def edit_bytes_def)
qed (simp add: edit_bytes_def)

lemma apply_start: "apply_edit (start_edit (line_buffer (ctx_pty c))) c = c"
  by (simp add: apply_edit_def start_edit_def Let_def)

lemma process_bytes_from_start:
  assumes "unattended (ctx_pty c)"
    and "fits (edit_bytes (pty_termios (ctx_pty c)) data (start_edit (line_buffer (ctx_pty c)))) (ctx_pty c)"
  shows "process_bytes data c =
    (Inr (), apply_edit (edit_bytes (pty_termios (ctx_pty c)) data (start_edit (line_buffer (ctx_pty c)))) c)"
  using process_bytes_edits [OF assms] by (simp add: apply_start)

text \<open>In raw mode the bytes go through in one piece.\<close>

definition raw_mode :: "termios \<Rightarrow> bool" where
  "raw_mode t \<longleftrightarrow> \<not> icanon t \<and> \<not> echo t \<and> \<not> isig t"

lemma translate_input_eq: "translate_input t data = map (input_byte t) data"
  by (auto simp: translate_input_def input_byte_def intro!: map_idI [symmetric])

lemma edit_bytes_raw:
  "raw_mode t \<Longrightarrow> edit_bytes t data e = e\<lparr>ed_lines := ed_lines e @ map (\<lambda>b. [input_byte t b]) data\<rparr>"
proof (induction data arbitrary: e)
  case (Cons b bs)
  then show ?case
    by (simp add: edit_bytes_def edit_byte_def raw_mode_def input_signal_def echoed_def Let_def)
qed (simp add: edit_bytes_def)

section \<open>Editing\<close>

text \<open>A byte without a meaning of its own to the line editor.\<close>

definition ordinary :: "termios \<Rightarrow> u8 \<Rightarrow> bool" where
  "ordinary t b \<longleftrightarrow>
     input_signal t (input_byte t b) = None \<and> input_byte t b \<notin> {veof (cc t), verase (cc t), 0x08, 0x0A}"

definition erasing :: "termios \<Rightarrow> u8 \<Rightarrow> bool" where
  "erasing t b \<longleftrightarrow>
     input_signal t (input_byte t b) = None \<and> input_byte t b \<noteq> veof (cc t) \<and> input_byte t b \<in> {verase (cc t), 0x08}"

lemma edit_ordinary:
  "icanon t \<Longrightarrow> ordinary t b \<Longrightarrow> length (ed_line e) < MAX_CANON \<Longrightarrow>
     edit_byte t b e = e\<lparr>ed_line := ed_line e @ [input_byte t b], ed_echoes := ed_echoes e @ echoed t [input_byte t b]\<rparr>"
  by (simp add: edit_byte_def edit_char_def ordinary_def Let_def)

lemma edit_erase:
  "icanon t \<Longrightarrow> erasing t b \<Longrightarrow> ed_line e \<noteq> [] \<Longrightarrow>
     edit_byte t b e = e\<lparr>ed_line := butlast (ed_line e), ed_echoes := ed_echoes e @ echoed t [0x08, 0x20, 0x08]\<rparr>"
  by (auto simp: edit_byte_def edit_char_def erasing_def Let_def)

text \<open>What the program at the terminal gets: everything but the echoes, which nothing else depends on.\<close>

definition silent :: "edit \<Rightarrow> edit" where
  "silent e = e\<lparr>ed_echoes := []\<rparr>"

lemma silent_byte: "silent e = silent e' \<Longrightarrow> silent (edit_byte t b e) = silent (edit_byte t b e')"
proof -
  assume s: "silent e = silent e'"
  have "silent (edit_byte t b e) = silent (edit_byte t b (silent e))" for e
    by (auto simp: edit_byte_def edit_char_def silent_def Let_def split: option.splits)
  with s show ?thesis by metis
qed

lemma silent_bytes: "silent e = silent e' \<Longrightarrow> silent (edit_bytes t data e) = silent (edit_bytes t data e')"
proof (induction data arbitrary: e e')
  case (Cons b bs)
  from Cons.IH [OF silent_byte [OF Cons.prems, of t b]] show ?case by (simp add: edit_bytes_def)
qed (simp add: edit_bytes_def)

lemma edit_bytes_append: "edit_bytes t (xs @ ys) e = edit_bytes t ys (edit_bytes t xs e)"
  by (simp add: edit_bytes_def)

lemma erase_undoes:
  assumes "icanon t" "ordinary t b" "erasing t d" "length (ed_line (edit_bytes t xs e)) < MAX_CANON"
  shows "silent (edit_bytes t (xs @ [b, d] @ ys) e) = silent (edit_bytes t (xs @ ys) e)"
proof -
  let ?e = "edit_bytes t xs e"
  have "silent (edit_byte t d (edit_byte t b ?e)) = silent ?e"
    using edit_ordinary [OF assms(1,2,4)] by (simp add: edit_erase [OF assms(1,3)] silent_def)
  from silent_bytes [OF this, of t ys] show ?thesis by (simp add: edit_bytes_append) (simp add: edit_bytes_def)
qed

lemma edit_line_bound:
  "length (ed_line e) \<le> MAX_CANON \<Longrightarrow> length (ed_line (edit_bytes t data e)) \<le> MAX_CANON"
proof (induction data arbitrary: e)
  case (Cons b bs)
  have "length (ed_line (edit_byte t b e)) \<le> MAX_CANON"
    using Cons.prems by (auto simp: edit_byte_def edit_char_def Let_def split: option.splits)
  from Cons.IH [OF this] show ?case by (simp add: edit_bytes_def)
qed (simp add: edit_bytes_def)

text \<open>A call that succeeds keeps a line within its limit, whoever waits and however full the buffers are.\<close>

lemma then_do_Inr: "then_do r f = (Inr u, s) \<longleftrightarrow> (\<exists>s1. r = (Inr (), s1) \<and> f s1 = (Inr u, s))"
  by (auto simp: then_do_def split: prod.splits sum.splits)

lemma deliver_line_kept [simp]:
  "line_buffer (ctx_pty (snd (deliver_input data c))) = line_buffer (ctx_pty c)"
  "line_buffer (ctx_pty (snd (deliver_output data is_echo c))) = line_buffer (ctx_pty c)"
  "line_buffer (ctx_pty (snd (echo_bytes data c))) = line_buffer (ctx_pty c)"
  by (simp_all add: deliver_input_def deliver_output_def echo_bytes_def hand_over_def Let_def split: option.splits)

lemma line_set_line [simp]: "line_buffer (ctx_pty (set_line line c)) = line"
  by (simp add: set_line_def)

lemma process_byte_line:
  assumes "process_byte b c = (Inr u, c')" "length (line_buffer (ctx_pty c)) \<le> MAX_CANON"
  shows "length (line_buffer (ctx_pty c')) \<le> MAX_CANON"
proof -
  have keep: "deliver_input data a = (r, a') \<Longrightarrow> line_buffer (ctx_pty a') = line_buffer (ctx_pty a)"
    "echo_bytes data a = (r, a') \<Longrightarrow> line_buffer (ctx_pty a') = line_buffer (ctx_pty a)" for data a r a'
    using deliver_line_kept(1) [of data a] deliver_line_kept(3) [of data a] by simp_all
  show ?thesis
    using assms
    by (auto simp: process_byte_def canonical_byte_def deliver_line_def Let_def then_do_Inr dest!: keep
        split: option.splits if_splits)
qed

lemma process_bytes_line:
  "process_bytes data c = (Inr u, c') \<Longrightarrow> length (line_buffer (ctx_pty c)) \<le> MAX_CANON \<Longrightarrow>
     length (line_buffer (ctx_pty c')) \<le> MAX_CANON"
proof (induction data arbitrary: c)
  case (Cons b bs)
  from Cons.prems(1) obtain c1 where "process_byte b c = (Inr (), c1)" "process_bytes bs c1 = (Inr u, c')"
    by (auto simp: then_do_Inr)
  with Cons.IH process_byte_line Cons.prems(2) show ?case by blast
qed simp

lemma silent_iff: "silent e = silent e' \<longleftrightarrow> ed_lines e = ed_lines e' \<and> ed_line e = ed_line e' \<and> ed_signals e = ed_signals e'"
  by (cases e; cases e') (auto simp: silent_def)

lemma process_input_edits:
  assumes "unattended (ctx_pty c)"
    and "fits (edit_bytes (pty_termios (ctx_pty c)) data (start_edit (line_buffer (ctx_pty c)))) (ctx_pty c)"
  shows "case (process_input data c, edit_bytes (pty_termios (ctx_pty c)) data (start_edit (line_buffer (ctx_pty c)))) of
    ((r, c'), e) \<Rightarrow> r = Inr () \<and>
      concat (input_buffer (ctx_pty c')) = concat (input_buffer (ctx_pty c)) @ concat (ed_lines e) \<and>
      concat (output_buffer (ctx_pty c')) = concat (output_buffer (ctx_pty c)) @ concat (ed_echoes e) \<and>
      line_buffer (ctx_pty c') = ed_line e \<and> ctx_waiters c' = ctx_waiters c \<and>
      ctx_signals c' = ctx_signals c @
        (if foreground_pgid (ctx_pty c) > 0 then map (\<lambda>s. (foreground_pgid (ctx_pty c), s)) (ed_signals e) else [])"
proof -
  let ?t = "pty_termios (ctx_pty c)"
  show ?thesis
  proof (cases "raw_mode ?t")
    case True
    have "length (translate_input ?t data) = buffer_size (map (\<lambda>b. [input_byte ?t b]) data)"
      by (simp add: translate_input_eq buffer_size_def comp_def sum_list_triv)
    with assms True deliver_unattended(1) [OF assms(1), of "translate_input ?t data"] show ?thesis
      by (simp add: process_input_def raw_mode_def Let_def edit_bytes_raw [unfolded raw_mode_def] start_edit_def fits_def
          translate_input_eq concat_map_singleton)
  next
    case False
    then have "process_input data c = process_bytes data c" by (auto simp: process_input_def raw_mode_def)
    with process_bytes_from_start [OF assms] show ?thesis by (simp add: apply_edit_def Let_def)
  qed
qed

section \<open>Properties\<close>

text \<open>
  (C6) The line discipline refines the line editor.  With room for what it passes on and nobody waiting, a write
  to the master is accepted as a whole: the slave's input grows by the finished lines, the master's
  output by the echoes, the foreground group gets the signals in order, and the unfinished line stays.
\<close>

theorem line_discipline_edits:
  assumes "unattended (ctx_pty c)"
    and "fits (edit_bytes (pty_termios (ctx_pty c)) data (start_edit (line_buffer (ctx_pty c)))) (ctx_pty c)"
  shows "case (process_input data c, edit_bytes (pty_termios (ctx_pty c)) data (start_edit (line_buffer (ctx_pty c)))) of
    ((r, c'), e) \<Rightarrow> r = Inr () \<and>
      concat (input_buffer (ctx_pty c')) = concat (input_buffer (ctx_pty c)) @ concat (ed_lines e) \<and>
      concat (output_buffer (ctx_pty c')) = concat (output_buffer (ctx_pty c)) @ concat (ed_echoes e) \<and>
      line_buffer (ctx_pty c') = ed_line e \<and> ctx_waiters c' = ctx_waiters c \<and>
      ctx_signals c' = ctx_signals c @
        (if foreground_pgid (ctx_pty c) > 0 then map (\<lambda>s. (foreground_pgid (ctx_pty c), s)) (ed_signals e) else [])"
  by (rule process_input_edits [OF assms])

theorem line_discipline_edits_witness:
  "let c = \<lparr>ctx_pty = default_pty ''/dev/pts/0'', ctx_waiters = bt_empty, ctx_signals = []\<rparr>
   in fst (process_input [0x61, 0x0D] c) = Inr () \<and>
      concat (input_buffer (ctx_pty (snd (process_input [0x61, 0x0D] c)))) = [0x61, 0x0A]"
proof -
  define c where "c = \<lparr>ctx_pty = default_pty ''/dev/pts/0'', ctx_waiters = bt_empty, ctx_signals = []\<rparr>"
  have u: "unattended (ctx_pty c)" unfolding c_def by code_simp
  have f: "fits (edit_bytes (pty_termios (ctx_pty c)) [0x61, 0x0D] (start_edit (line_buffer (ctx_pty c)))) (ctx_pty c)"
    unfolding c_def by code_simp
  have e: "concat (input_buffer (ctx_pty c)) @
      concat (ed_lines (edit_bytes (pty_termios (ctx_pty c)) [0x61, 0x0D] (start_edit (line_buffer (ctx_pty c))))) = [0x61, 0x0A]"
    unfolding c_def by code_simp
  from line_discipline_edits [OF u f] e show ?thesis unfolding c_def [symmetric] Let_def by (simp add: split_beta)
qed

text \<open>
  (C24) Erasing undoes typing: in canonical mode, with room in the buffers, nobody waiting and a pending line
  shorter than \<open>MAX_CANON\<close>, typing a byte without a meaning of its own and erasing it leaves the finished
  lines, the pending line and the signals as if neither had been typed.
\<close>

theorem erase_undoes_typing:
  assumes "icanon (pty_termios (ctx_pty c))" "unattended (ctx_pty c)"
    and "ordinary (pty_termios (ctx_pty c)) b" "erasing (pty_termios (ctx_pty c)) d"
    and "\<And>typed. typed \<in> {xs, xs @ ys, xs @ [b, d] @ ys} \<Longrightarrow>
      fits (edit_bytes (pty_termios (ctx_pty c)) typed (start_edit (line_buffer (ctx_pty c)))) (ctx_pty c)"
    and "length (line_buffer (ctx_pty (snd (process_input xs c)))) < MAX_CANON"
  shows "case (snd (process_input (xs @ [b, d] @ ys) c), snd (process_input (xs @ ys) c)) of (c1, c2) \<Rightarrow>
    input_buffer (ctx_pty c1) = input_buffer (ctx_pty c2) \<and> line_buffer (ctx_pty c1) = line_buffer (ctx_pty c2) \<and>
    ctx_signals c1 = ctx_signals c2"
proof -
  let ?t = "pty_termios (ctx_pty c)" and ?e = "start_edit (line_buffer (ctx_pty c))"
  have run: "process_input typed c = (Inr (), apply_edit (edit_bytes ?t typed ?e) c)"
    if "typed \<in> {xs, xs @ ys, xs @ [b, d] @ ys}" for typed
    using process_bytes_from_start [OF assms(2) assms(5) [OF that]] assms(1) by (simp add: process_input_def)
  have "length (ed_line (edit_bytes ?t xs ?e)) < MAX_CANON" using assms(6) run [of xs] by simp
  from erase_undoes [OF assms(1,3,4) this, of ys]
  have "ed_lines (edit_bytes ?t (xs @ [b, d] @ ys) ?e) = ed_lines (edit_bytes ?t (xs @ ys) ?e) \<and>
      ed_line (edit_bytes ?t (xs @ [b, d] @ ys) ?e) = ed_line (edit_bytes ?t (xs @ ys) ?e) \<and>
      ed_signals (edit_bytes ?t (xs @ [b, d] @ ys) ?e) = ed_signals (edit_bytes ?t (xs @ ys) ?e)"
    by (simp add: silent_iff)
  then show ?thesis by (simp add: run) (simp add: apply_edit_def Let_def)
qed

theorem erase_undoes_typing_witness:
  "let c = \<lparr>ctx_pty = default_pty ''/dev/pts/0'', ctx_waiters = bt_empty, ctx_signals = []\<rparr>
   in input_buffer (ctx_pty (snd (process_input [0x61, 0x62, 0x7F, 0x0A] c))) =
        input_buffer (ctx_pty (snd (process_input [0x61, 0x0A] c)))"
proof -
  define c where "c = \<lparr>ctx_pty = default_pty ''/dev/pts/0'', ctx_waiters = bt_empty, ctx_signals = []\<rparr>"
  have pre: "icanon (pty_termios (ctx_pty c))" "unattended (ctx_pty c)" "ordinary (pty_termios (ctx_pty c)) 0x62"
    "erasing (pty_termios (ctx_pty c)) 0x7F" "length (line_buffer (ctx_pty (snd (process_input [0x61] c)))) < MAX_CANON"
    unfolding c_def by code_simp+
  have "fits (edit_bytes (pty_termios (ctx_pty c)) [0x61] (start_edit (line_buffer (ctx_pty c)))) (ctx_pty c)"
    "fits (edit_bytes (pty_termios (ctx_pty c)) [0x61, 0x0A] (start_edit (line_buffer (ctx_pty c)))) (ctx_pty c)"
    "fits (edit_bytes (pty_termios (ctx_pty c)) [0x61, 0x62, 0x7F, 0x0A] (start_edit (line_buffer (ctx_pty c)))) (ctx_pty c)"
    unfolding c_def by code_simp+
  then have "fits (edit_bytes (pty_termios (ctx_pty c)) typed (start_edit (line_buffer (ctx_pty c)))) (ctx_pty c)"
    if "typed \<in> {[0x61], [0x61] @ [0x0A], [0x61] @ [0x62, 0x7F] @ [0x0A]}" for typed using that by auto
  from erase_undoes_typing [OF pre(1-4) this pre(5)] show ?thesis unfolding c_def [symmetric] Let_def by simp
qed

text \<open>
  (C25) Output processing: with \<open>opost\<close> and \<open>onlcr\<close> every newline that leaves follows a carriage return, exactly
  the missing carriage returns are added, nothing else changes, and processing again changes nothing;
  otherwise the data passes unchanged.
\<close>

theorem process_output_newlines:
  "if opost t \<and> onlcr t then
     (\<forall>i < length (process_output t data). process_output t data ! i = 0x0A \<longrightarrow>
        i > 0 \<and> process_output t data ! (i - 1) = 0x0D) \<and>
     length (process_output t data) = length data + bare_newlines False data \<and>
     filter (\<lambda>b. b \<noteq> 0x0D) (process_output t data) = filter (\<lambda>b. b \<noteq> 0x0D) data \<and>
     process_output t (process_output t data) = process_output t data
   else process_output t data = data"
proof -
  have "i > 0 \<and> add_crs False data ! (i - 1) = 0x0D" if "i < length (add_crs False data)" "add_crs False data ! i = 0x0A" for i
    using crlf_nth [OF crlf_add_crs that] by (simp split: if_splits)
  then show ?thesis
    using add_crs_fixed [OF crlf_add_crs, of False data] by (simp add: process_output_eq filter_add_crs length_add_crs)
qed


theorem process_output_newlines_witness:
  "process_output default_termios [0x61, 0x0A] ! 1 = 0x0D \<and> length (process_output default_termios [0x61, 0x0A]) = 3"
proof -
  have t: "opost default_termios \<and> onlcr default_termios" by (simp add: default_termios_def)
  have l: "2 < length (process_output default_termios [0x61, 0x0A])" "process_output default_termios [0x61, 0x0A] ! 2 = 0x0A"
    "bare_newlines False [0x61, 0x0A] = 1" by code_simp+
  from process_output_newlines [of default_termios "[0x61, 0x0A]"] t l show ?thesis by (auto dest!: spec [of _ 2])
qed

end
