(* ===== verification/Pty.thy ===== *)
theory Pty
  imports Fd_Table Poll Two_Ended Line_Discipline
begin

text \<open>
  The pseudo-terminal manager of \<open>crates/kernel/src/pty.rs\<close>.  As for pipes, the state is behind one mutex and a
  blocking read is a first pass and one more pass per wake-up; \<open>notify_all\<close> is counted, and clock readings
  are arguments.  A write returns the calls of the signal handler it makes after the lock is released.
\<close>

unbundle bit_operations_syntax

datatype pty_side = Master_side | Slave_side

record pty_ref =
  pref_pty_id :: u64
  pref_end :: pty_side

record pty_manager =
  ptys :: "(u64, pty_state) btreemap"
  desc_to_pty :: "(u64, pty_ref) btreemap"
  pty_waiters :: "(u64, pty_pending_read) btreemap"
  next_pty_id :: u64
  next_pty_desc_id :: u64
  next_pty_waiter_id :: u64
  pty_on_signal :: bool
  pty_wakeups :: nat
  pty_notifier :: "u64 option"

record pty_end =
  pend_description :: loc
  pend_filetype :: u8

record pty_pair =
  pty_master :: pty_end
  pty_slave :: pty_end
  pair_path :: string

definition new_pty_manager :: "bool \<Rightarrow> u64 option \<Rightarrow> pty_manager" where
  "new_pty_manager on_signal n =
     \<lparr>ptys = bt_empty, desc_to_pty = bt_empty, pty_waiters = bt_empty, next_pty_id = 0,
      next_pty_desc_id = 200000, next_pty_waiter_id = 1, pty_on_signal = on_signal, pty_wakeups = 0, pty_notifier = n\<rparr>"

definition pty_available_capacity :: "bytes list \<Rightarrow> nat" where
  "pty_available_capacity buffer = MAX_PTY_BUFFER_BYTES - buffer_size buffer"

definition pty_notify :: "pty_manager \<Rightarrow> pty_manager" where
  "pty_notify st = st\<lparr>pty_wakeups := Suc (pty_wakeups st), pty_notifier := map_option notify (pty_notifier st)\<rparr>"

section \<open>Creating, polling and settings\<close>

text \<open>The part of \<open>create_pty\<close> under the lock.\<close>

definition register_pty :: "pty_manager \<Rightarrow> (u64 \<times> u64 \<times> u64 \<times> string) \<times> pty_manager" where
  "register_pty st =
     (let pty_id = next_pty_id st; master_id = next_pty_desc_id st; slave_id = next_pty_desc_id st + 1;
          path = ''/dev/pts/'' @ decimal (unat pty_id)
      in ((pty_id, master_id, slave_id, path),
          st\<lparr>next_pty_id := pty_id + 1, next_pty_desc_id := slave_id + 1,
             ptys := bt_insert pty_id (default_pty path) (ptys st),
             desc_to_pty :=
               bt_insert slave_id \<lparr>pref_pty_id = pty_id, pref_end = Slave_side\<rparr>
                 (bt_insert master_id \<lparr>pref_pty_id = pty_id, pref_end = Master_side\<rparr> (desc_to_pty st))\<rparr>))"

definition create_pty :: "desc_store \<Rightarrow> pty_manager \<Rightarrow> pty_pair \<times> desc_store \<times> pty_manager" where
  "create_pty s st =
     (let ((pty_id, master_id, slave_id, path), st') = register_pty st;
          (ml, s1) = arc_new (with_ref_count master_id (''pty:'' @ decimal (unat pty_id) @ '':master'') O_RDWR 0) s;
          (sl, s2) = arc_new (with_ref_count slave_id path O_RDWR 0) s1
      in (\<lparr>pty_master = \<lparr>pend_description = ml, pend_filetype = FILETYPE_CHARACTER_DEVICE\<rparr>,
           pty_slave = \<lparr>pend_description = sl, pend_filetype = FILETYPE_CHARACTER_DEVICE\<rparr>,
           pair_path = path\<rparr>, s2, st'))"

text \<open>The two lookups that most methods start with.\<close>

definition pty_of :: "u64 \<Rightarrow> pty_manager \<Rightarrow> pty_error + pty_ref \<times> pty_state" where
  "pty_of description_id st =
     and_then (ok_or (bt_get (desc_to_pty st) description_id) (Pty_bad_fd ''not a PTY end'')) (\<lambda>r.
     and_then (ok_or (bt_get (ptys st) (pref_pty_id r)) (Pty_bad_fd ''PTY not found'')) (\<lambda>pty. Inr (r, pty)))"

definition pty_poll :: "u64 \<Rightarrow> poll_events \<Rightarrow> pty_manager \<Rightarrow> pty_error + poll_events" where
  "pty_poll description_id requested st =
     and_then (pty_of description_id st) (\<lambda>(r, pty).
     Inr (case pref_end r of
        Master_side \<Rightarrow>
          (if intersects requested POLLIN \<and> output_buffer pty \<noteq> [] then POLLIN else 0) OR
          (if closed_slave pty then POLLHUP
           else if intersects requested POLLOUT \<and>
                   (pty_available_capacity (input_buffer pty) > 0 \<or> waiting_input_reads pty \<noteq> []) then POLLOUT
           else 0)
      | Slave_side \<Rightarrow>
          (if intersects requested POLLIN \<and> input_buffer pty \<noteq> [] then POLLIN else 0) OR
          (if closed_master pty then POLLHUP
           else if intersects requested POLLOUT \<and>
                   (pty_available_capacity (output_buffer pty) > 0 \<or> waiting_output_reads pty \<noteq> []) then POLLOUT
           else 0)))"

definition put_pty :: "u64 \<Rightarrow> pty_state \<Rightarrow> pty_manager \<Rightarrow> pty_manager" where
  "put_pty pty_id pty st = st\<lparr>ptys := bt_insert pty_id pty (ptys st)\<rparr>"

definition update_pty ::
  "u64 \<Rightarrow> (pty_state \<Rightarrow> pty_state) \<Rightarrow> pty_manager \<Rightarrow> (pty_error + unit) \<times> pty_manager" where
  "update_pty description_id f st =
     (case pty_of description_id st of
        Inl e \<Rightarrow> (Inl e, st)
      | Inr (r, pty) \<Rightarrow> (Inr (), put_pty (pref_pty_id r) (f pty) st))"

definition set_discipline ::
  "u64 \<Rightarrow> line_discipline_config \<Rightarrow> pty_manager \<Rightarrow> (pty_error + unit) \<times> pty_manager" where
  "set_discipline description_id config =
     update_pty description_id (\<lambda>pty.
       let t = pty_termios pty
       in pty\<lparr>pty_termios := t\<lparr>icanon := or_keep (ldc_canonical config) (icanon t), echo := or_keep (ldc_echo config) (echo t),
                               isig := or_keep (ldc_isig config) (isig t)\<rparr>\<rparr>)"

definition get_termios :: "u64 \<Rightarrow> pty_manager \<Rightarrow> pty_error + termios" where
  "get_termios description_id st = and_then (pty_of description_id st) (\<lambda>(_, pty). Inr (pty_termios pty))"

definition set_termios :: "u64 \<Rightarrow> partial_termios \<Rightarrow> pty_manager \<Rightarrow> (pty_error + unit) \<times> pty_manager" where
  "set_termios description_id update =
     update_pty description_id (\<lambda>pty. pty\<lparr>pty_termios := merge_termios update (pty_termios pty)\<rparr>)"

definition set_foreground_pgid :: "u64 \<Rightarrow> u32 \<Rightarrow> pty_manager \<Rightarrow> (pty_error + unit) \<times> pty_manager" where
  "set_foreground_pgid description_id pgid = update_pty description_id (\<lambda>pty. pty\<lparr>foreground_pgid := pgid\<rparr>)"

definition get_foreground_pgid :: "u64 \<Rightarrow> pty_manager \<Rightarrow> pty_error + u32" where
  "get_foreground_pgid description_id st = and_then (pty_of description_id st) (\<lambda>(_, pty). Inr (foreground_pgid pty))"

definition resize_pty :: "u64 \<Rightarrow> u16 \<Rightarrow> u16 \<Rightarrow> pty_manager \<Rightarrow> (pty_error + u32 option) \<times> pty_manager" where
  "resize_pty description_id cols rows st =
     (case pty_of description_id st of
        Inl e \<Rightarrow> (Inl e, st)
      | Inr (r, pty) \<Rightarrow>
          let next_size = \<lparr>ws_cols = cols, ws_rows = rows\<rparr>
          in if pty_window_size pty = next_size then (Inr None, st)
             else (Inr (if foreground_pgid pty > 0 then Some (foreground_pgid pty) else None),
                   put_pty (pref_pty_id r) (pty\<lparr>pty_window_size := next_size\<rparr>) st))"

definition is_pty :: "u64 \<Rightarrow> pty_manager \<Rightarrow> bool" where
  "is_pty description_id st = bt_contains (desc_to_pty st) description_id"

definition is_slave :: "u64 \<Rightarrow> pty_manager \<Rightarrow> bool" where
  "is_slave description_id st =
     (case bt_get (desc_to_pty st) description_id of None \<Rightarrow> False | Some r \<Rightarrow> pref_end r = Slave_side)"

definition pty_count :: "pty_manager \<Rightarrow> nat" where
  "pty_count st = bt_len (ptys st)"

definition buffered_input_bytes :: "pty_manager \<Rightarrow> nat" where
  "buffered_input_bytes st = bt_sum (\<lambda>p. buffer_size (input_buffer p)) (ptys st)"

definition buffered_output_bytes :: "pty_manager \<Rightarrow> nat" where
  "buffered_output_bytes st = bt_sum (\<lambda>p. buffer_size (output_buffer p)) (ptys st)"

definition path_for :: "u64 \<Rightarrow> pty_manager \<Rightarrow> string option" where
  "path_for description_id st =
     (case bt_get (desc_to_pty st) description_id of
        None \<Rightarrow> None
      | Some r \<Rightarrow> map_option pty_path (bt_get (ptys st) (pref_pty_id r)))"

section \<open>Writing\<close>

text \<open>
  The result, the calls of the signal handler and the new state.  An error of the line discipline
  returns before the notification and before the signals are sent.
\<close>

definition pty_write :: "u64 \<Rightarrow> bytes \<Rightarrow> pty_manager \<Rightarrow> (pty_error + nat) \<times> (u32 \<times> int) list \<times> pty_manager" where
  "pty_write description_id payload st =
     (case pty_of description_id st of
        Inl e \<Rightarrow> (Inl e, [], st)
      | Inr (r, pty) \<Rightarrow>
          if pref_end r = Master_side \<and> closed_master pty then (Inl (Pty_io ''master closed''), [], st)
          else if closed_slave pty then (Inl (Pty_io ''slave closed''), [], st)
          else if closed_master pty then (Inl (Pty_io ''master closed''), [], st)
          else
            let c = \<lparr>ctx_pty = pty, ctx_waiters = pty_waiters st, ctx_signals = []\<rparr>;
                (outcome, c1) =
                  (case pref_end r of
                     Master_side \<Rightarrow> process_input payload c
                   | Slave_side \<Rightarrow> deliver_output (process_output (pty_termios pty) payload) False c);
                st1 = (put_pty (pref_pty_id r) (ctx_pty c1) st)\<lparr>pty_waiters := ctx_waiters c1\<rparr>
            in case outcome of
                 Inl e \<Rightarrow> (Inl e, [], st1)
               | Inr _ \<Rightarrow>
                   (Inr (length payload),
                    if pty_on_signal st1 then filter (\<lambda>(pgid, signal). pgid > 0) (ctx_signals c1) else [],
                    pty_notify st1))"

section \<open>Reading\<close>

datatype pty_read_outcome = Pty_return "pty_error + bytes option" | Pty_wait u64

definition drop_waiter :: "u64 option \<Rightarrow> pty_manager \<Rightarrow> pty_manager" where
  "drop_waiter waiter_id st =
     (case waiter_id of None \<Rightarrow> st | Some i \<Rightarrow> st\<lparr>pty_waiters := bt_remove i (pty_waiters st)\<rparr>)"

definition register_pty_reader :: "pty_ref \<Rightarrow> pty_state \<Rightarrow> pty_manager \<Rightarrow> u64 \<times> pty_manager" where
  "register_pty_reader r pty st =
     (let next = next_pty_waiter_id st;
          pty1 = (case pref_end r of
                    Master_side \<Rightarrow> pty\<lparr>waiting_output_reads := waiting_output_reads pty @ [next]\<rparr>
                  | Slave_side \<Rightarrow> pty\<lparr>waiting_input_reads := waiting_input_reads pty @ [next]\<rparr>)
      in (next, pty_notify (put_pty (pref_pty_id r) pty1
           (st\<lparr>next_pty_waiter_id := next + 1, pty_waiters := bt_insert next \<lparr>ppr_result = None\<rparr> (pty_waiters st)\<rparr>))))"

definition cancel_pty_reader :: "u64 \<Rightarrow> u64 \<Rightarrow> pty_manager \<Rightarrow> pty_manager" where
  "cancel_pty_reader pty_id waiter_id st =
     pty_notify
       (st\<lparr>pty_waiters := bt_remove waiter_id (pty_waiters st),
           ptys := bt_adjust pty_id (\<lambda>p.
             p\<lparr>waiting_input_reads := filter (\<lambda>queued. queued \<noteq> waiter_id) (waiting_input_reads p),
               waiting_output_reads := filter (\<lambda>queued. queued \<noteq> waiter_id) (waiting_output_reads p)\<rparr>) (ptys st)\<rparr>)"

definition pty_delivered :: "u64 option \<Rightarrow> pty_manager \<Rightarrow> (u64 \<times> bytes option) option" where
  "pty_delivered waiter_id st =
     (case waiter_id of
        None \<Rightarrow> None
      | Some i \<Rightarrow> (case bt_get (pty_waiters st) i of
                     None \<Rightarrow> None
                   | Some w \<Rightarrow> map_option (\<lambda>r. (i, r)) (ppr_result w)))"

text \<open>The end of the loop body: the reader is registered, unless it is already, and waits or has timed out.\<close>

definition pty_wait_for_data ::
  "pty_ref \<Rightarrow> pty_state \<Rightarrow> nat option \<Rightarrow> nat \<Rightarrow> u64 option \<Rightarrow> pty_manager \<Rightarrow> pty_read_outcome \<times> pty_manager" where
  "pty_wait_for_data r pty deadline now waiter_id st =
     (let (i, st1) = (case waiter_id of Some i \<Rightarrow> (i, st) | None \<Rightarrow> register_pty_reader r pty st)
      in case deadline of
           None \<Rightarrow> (Pty_wait i, st1)
         | Some d \<Rightarrow>
             if now \<ge> d
             then (Pty_return (Inl (Pty_would_block ''PTY read timed out'')), cancel_pty_reader (pref_pty_id r) i st1)
             else (Pty_wait i, st1))"

definition pty_read_pass ::
  "pty_ref \<Rightarrow> nat \<Rightarrow> nat option \<Rightarrow> nat \<Rightarrow> u64 option \<Rightarrow> pty_manager \<Rightarrow> pty_read_outcome \<times> pty_manager" where
  "pty_read_pass r len deadline now waiter_id st =
     (case pty_delivered waiter_id st of
        Some (i, result) \<Rightarrow> (Pty_return (Inr result), st\<lparr>pty_waiters := bt_remove i (pty_waiters st)\<rparr>)
      | None \<Rightarrow>
     (case bt_get (ptys st) (pref_pty_id r) of
        None \<Rightarrow> (Pty_return (Inl (Pty_bad_fd ''PTY not found'')), st)
      | Some pty \<Rightarrow>
          (case pref_end r of
             Master_side \<Rightarrow>
               if closed_master pty then (Pty_return (Inl (Pty_io ''master closed'')), drop_waiter waiter_id st)
               else if output_buffer pty \<noteq> [] then
                 let (result, left) = drain_buffer (output_buffer pty) len
                 in (Pty_return (Inr (Some result)), pty_notify (put_pty (pref_pty_id r) (pty\<lparr>output_buffer := left\<rparr>) st))
               else if closed_slave pty then (Pty_return (Inr None), drop_waiter waiter_id st)
               else pty_wait_for_data r pty deadline now waiter_id st
           | Slave_side \<Rightarrow>
               if closed_slave pty then (Pty_return (Inl (Pty_io ''slave closed'')), drop_waiter waiter_id st)
               else if input_buffer pty \<noteq> [] then
                 let (result, left) = drain_buffer (input_buffer pty) len
                 in (Pty_return (Inr (Some result)), pty_notify (put_pty (pref_pty_id r) (pty\<lparr>input_buffer := left\<rparr>) st))
               else if closed_master pty then (Pty_return (Inr None), drop_waiter waiter_id st)
               else pty_wait_for_data r pty deadline now waiter_id st)))"

definition pty_read_resume ::
  "pty_ref \<Rightarrow> nat \<Rightarrow> nat option \<Rightarrow> bool \<Rightarrow> nat \<Rightarrow> u64 \<Rightarrow> pty_manager \<Rightarrow> pty_read_outcome \<times> pty_manager" where
  "pty_read_resume r len deadline timed_out now i st =
     (let waiter_id = (if bt_contains (pty_waiters st) i then Some i else None)
      in if deadline \<noteq> None \<and> timed_out then
           (Pty_return (Inl (Pty_would_block ''PTY read timed out'')),
            case waiter_id of None \<Rightarrow> st | Some i \<Rightarrow> cancel_pty_reader (pref_pty_id r) i st)
         else pty_read_pass r len deadline now waiter_id st)"

definition pty_read_with_timeout ::
  "u64 \<Rightarrow> nat \<Rightarrow> nat option \<Rightarrow> nat \<Rightarrow> nat \<Rightarrow> pty_manager \<Rightarrow> pty_read_outcome \<times> pty_manager" where
  "pty_read_with_timeout description_id len timeout start now st =
     (case bt_get (desc_to_pty st) description_id of
        None \<Rightarrow> (Pty_return (Inl (Pty_bad_fd ''not a PTY end'')), st)
      | Some r \<Rightarrow> pty_read_pass r len (map_option (\<lambda>d. start + d) timeout) now None st)"

definition pty_read :: "u64 \<Rightarrow> nat \<Rightarrow> nat \<Rightarrow> nat \<Rightarrow> pty_manager \<Rightarrow> pty_read_outcome \<times> pty_manager" where
  "pty_read description_id len start now st = pty_read_with_timeout description_id len None start now st"

section \<open>Closing\<close>

definition finish_pty_waiters :: "u64 list \<Rightarrow> pty_manager \<Rightarrow> pty_manager" where
  "finish_pty_waiters ids st =
     st\<lparr>pty_waiters := fold (\<lambda>i. bt_adjust i (\<lambda>w. w\<lparr>ppr_result := Some None\<rparr>)) ids (pty_waiters st)\<rparr>"

definition pty_close :: "u64 \<Rightarrow> pty_manager \<Rightarrow> pty_manager" where
  "pty_close description_id st =
     (case bt_get (desc_to_pty st) description_id of
        None \<Rightarrow> st
      | Some r \<Rightarrow>
          let st0 = st\<lparr>desc_to_pty := bt_remove description_id (desc_to_pty st)\<rparr>
          in (case bt_get (ptys st) (pref_pty_id r) of
                None \<Rightarrow> pty_notify st0
              | Some pty \<Rightarrow>
                  let idle = pty\<lparr>waiting_input_reads := [], waiting_output_reads := []\<rparr>;
                      (pty1, waiter_ids) =
                        (case pref_end r of
                           Master_side \<Rightarrow> (idle\<lparr>closed_master := True\<rparr>, waiting_input_reads pty @ waiting_output_reads pty)
                         | Slave_side \<Rightarrow> (idle\<lparr>closed_slave := True\<rparr>, waiting_output_reads pty @ waiting_input_reads pty));
                      st1 = finish_pty_waiters waiter_ids (put_pty (pref_pty_id r) pty1 st0);
                      st2 = (if closed_master pty1 \<and> closed_slave pty1
                             then st1\<lparr>ptys := bt_remove (pref_pty_id r) (ptys st1)\<rparr> else st1)
                  in pty_notify st2))"

definition create_pty_fds ::
  "desc_store \<Rightarrow> process_fd_table \<Rightarrow> pty_manager \<Rightarrow>
     (fd_error + u32 \<times> u32 \<times> string) \<times> desc_store \<times> process_fd_table \<times> pty_manager" where
  "create_pty_fds s t st =
     (let (pair, s1, st1) = create_pty s st;
          ml = pend_description (pty_master pair); sl = pend_description (pty_slave pair)
      in (case open_with ml FILETYPE_CHARACTER_DEVICE None s1 t of
            (Inl e, s2, t2) \<Rightarrow> (Inl e, s2, t2, st1)
          | (Inr master_fd, s2, t2) \<Rightarrow>
              (case open_with sl FILETYPE_CHARACTER_DEVICE None s2 t2 of
                 (Inr slave_fd, s3, t3) \<Rightarrow> (Inr (master_fd, slave_fd, pair_path pair), s3, t3, st1)
               | (Inl e, s3, t3) \<Rightarrow>
                   let (_, s4, t4) = close master_fd s3 t3
                   in (Inl e, s4, t4, pty_close (id_of s4 sl) (pty_close (id_of s4 ml) st1)))))"

section \<open>What the line discipline keeps\<close>

definition bounded :: "pty_state \<Rightarrow> bool" where
  "bounded p \<longleftrightarrow> buffer_size (input_buffer p) \<le> MAX_PTY_BUFFER_BYTES \<and> buffer_size (output_buffer p) \<le> MAX_PTY_BUFFER_BYTES"

definition closed_end :: "pty_state \<Rightarrow> bool \<Rightarrow> bool" where
  "closed_end p master = (if master then closed_master p else closed_slave p)"

text \<open>The closed ends stay and full buffers stay within their bounds.\<close>

definition kept :: "pty_state \<Rightarrow> pty_state \<Rightarrow> bool" where
  "kept p q \<longleftrightarrow> closed_master q = closed_master p \<and> closed_slave q = closed_slave p \<and> (bounded p \<longrightarrow> bounded q)"

lemma kept_closed_end: "kept p q \<Longrightarrow> closed_end q = closed_end p"
  by (rule ext) (simp add: kept_def closed_end_def)

lemma kept_refl [simp]: "kept p p"
  by (simp add: kept_def)

lemma kept_trans: "kept p q \<Longrightarrow> kept q r \<Longrightarrow> kept p r"
  by (simp add: kept_def)

lemma kept_update:
  "kept p q \<Longrightarrow> kept p (q\<lparr>waiting_input_reads := ws\<rparr>)" "kept p q \<Longrightarrow> kept p (q\<lparr>waiting_output_reads := ws\<rparr>)"
  "kept p q \<Longrightarrow> kept p (q\<lparr>pty_termios := t\<rparr>)" "kept p q \<Longrightarrow> kept p (q\<lparr>foreground_pgid := g\<rparr>)"
  "kept p q \<Longrightarrow> kept p (q\<lparr>pty_window_size := w\<rparr>)" "kept p q \<Longrightarrow> kept p (q\<lparr>line_buffer := line\<rparr>)"
  by (simp_all add: kept_def bounded_def)

lemma kept_buffers:
  "buffer_size b \<le> MAX_PTY_BUFFER_BYTES \<Longrightarrow> kept p (p\<lparr>input_buffer := b\<rparr>)"
  "buffer_size b \<le> MAX_PTY_BUFFER_BYTES \<Longrightarrow> kept p (p\<lparr>output_buffer := b\<rparr>)"
  by (simp_all add: kept_def bounded_def)

lemma kept_drained:
  assumes "drain_buffer b n = (out, left)"
  shows "b = input_buffer p \<Longrightarrow> kept p (p\<lparr>input_buffer := left\<rparr>)" "b = output_buffer p \<Longrightarrow> kept p (p\<lparr>output_buffer := left\<rparr>)"
proof -
  have "buffer_size left \<le> buffer_size b" using drain_buffer_content(2) [OF assms] by (simp add: buffer_size_concat)
  then show "b = input_buffer p \<Longrightarrow> kept p (p\<lparr>input_buffer := left\<rparr>)"
    "b = output_buffer p \<Longrightarrow> kept p (p\<lparr>output_buffer := left\<rparr>)"
    by (auto simp: kept_def bounded_def)
qed

lemma kept_deliver:
  "kept (ctx_pty c) (ctx_pty (snd (deliver_input data c)))" "kept (ctx_pty c) (ctx_pty (snd (deliver_output data is_echo c)))"
  by (auto simp: deliver_input_def deliver_output_def hand_over_def Let_def kept_def bounded_def
      split: option.splits)

lemma kept_then_do:
  "kept p (ctx_pty (snd r)) \<Longrightarrow> (\<And>c. kept p (ctx_pty c) \<Longrightarrow> kept p (ctx_pty (snd (f c)))) \<Longrightarrow> kept p (ctx_pty (snd (then_do r f)))"
  by (auto simp: then_do_def split: prod.splits sum.splits)

lemma kept_set_line: "kept p (ctx_pty c) \<Longrightarrow> kept p (ctx_pty (set_line line c))"
  by (simp add: set_line_def kept_update)

lemma kept_echo: "kept p (ctx_pty c) \<Longrightarrow> kept p (ctx_pty (snd (echo_bytes data c)))"
  using kept_trans kept_deliver(2) by (auto simp: echo_bytes_def)

lemma kept_input: "kept p (ctx_pty c) \<Longrightarrow> kept p (ctx_pty (snd (deliver_input data c)))"
  using kept_trans kept_deliver(1) by blast

lemma kept_line: "kept p (ctx_pty c) \<Longrightarrow> kept p (ctx_pty (snd (deliver_line c)))"
  unfolding deliver_line_def by (intro kept_then_do kept_input) (simp_all add: kept_set_line)

lemma kept_byte: "kept p (ctx_pty c) \<Longrightarrow> kept p (ctx_pty (snd (process_byte b c)))"
  by (auto simp: process_byte_def canonical_byte_def Let_def kept_set_line split: option.splits
      intro!: kept_then_do kept_input kept_echo kept_line)

lemma kept_process_bytes: "kept p (ctx_pty c) \<Longrightarrow> kept p (ctx_pty (snd (process_bytes data c)))"
  by (induction data arbitrary: c) (auto intro!: kept_then_do intro: kept_byte)

lemma kept_process_input: "kept (ctx_pty c) (ctx_pty (snd (process_input data c)))"
  by (simp add: process_input_def Let_def kept_input kept_process_bytes)

section \<open>The invariant of the manager\<close>

definition pty_refs :: "pty_manager \<Rightarrow> end_refs" where
  "pty_refs st d = map_option (\<lambda>r. (pref_pty_id r, pref_end r = Master_side)) (bt_get (desc_to_pty st) d)"

definition pty_objects :: "pty_manager \<Rightarrow> end_objects" where
  "pty_objects st i = map_option closed_end (bt_get (ptys st) i)"

definition pty_ok :: "pty_manager \<Rightarrow> bool" where
  "pty_ok st \<longleftrightarrow> ends_inv (pty_refs st) (pty_objects st) (next_pty_desc_id st) (next_pty_id st) \<and>
     (\<forall>i p. bt_get (ptys st) i = Some p \<longrightarrow> bounded p)"

text \<open>Operations that neither open nor close.\<close>

definition same_ptys :: "pty_manager \<Rightarrow> pty_manager \<Rightarrow> bool" where
  "same_ptys st st' \<longleftrightarrow>
     desc_to_pty st' = desc_to_pty st \<and> next_pty_desc_id st' = next_pty_desc_id st \<and> next_pty_id st' = next_pty_id st \<and>
     (\<forall>i. rel_option kept (bt_get (ptys st) i) (bt_get (ptys st') i))"

lemma same_ptys_refl [simp]: "same_ptys st st"
  by (simp add: same_ptys_def option.rel_refl)

lemma same_ptys_ok: "pty_ok st \<Longrightarrow> same_ptys st st' \<Longrightarrow> pty_ok st'"
proof -
  assume ok: "pty_ok st" and s: "same_ptys st st'"
  have obj: "pty_objects st' i = pty_objects st i" for i
    using s unfolding same_ptys_def by (auto simp: pty_objects_def elim!: option.rel_cases dest!: spec [of _ i] kept_closed_end)
  have refs: "pty_refs st' = pty_refs st" using s by (simp add: same_ptys_def pty_refs_def fun_eq_iff)
  have "bounded q" if "bt_get (ptys st') i = Some q" for i q
    using s ok that unfolding same_ptys_def pty_ok_def by (auto simp: kept_def option_rel_Some2 dest!: spec [of _ i])
  with ok s obj refs show ?thesis by (simp add: pty_ok_def same_ptys_def ext [of "pty_objects st'" "pty_objects st"])
qed


lemma same_ptysI:
  assumes "bt_get (ptys st) i = Some p" "kept p q" "\<And>j. bt_get (ptys st') j = (if j = i then Some q else bt_get (ptys st) j)"
    and "desc_to_pty st' = desc_to_pty st" "next_pty_desc_id st' = next_pty_desc_id st" "next_pty_id st' = next_pty_id st"
  shows "same_ptys st st'"
  using assms by (auto simp: same_ptys_def option.rel_refl)

lemma pty_notify_sel [simp]:
  "ptys (pty_notify st) = ptys st" "desc_to_pty (pty_notify st) = desc_to_pty st" "pty_waiters (pty_notify st) = pty_waiters st"
  "next_pty_id (pty_notify st) = next_pty_id st" "next_pty_desc_id (pty_notify st) = next_pty_desc_id st"
  by (simp_all add: pty_notify_def)

lemma put_pty_sel [simp]:
  "bt_get (ptys (put_pty i p st)) j = (if j = i then Some p else bt_get (ptys st) j)"
  "desc_to_pty (put_pty i p st) = desc_to_pty st" "pty_waiters (put_pty i p st) = pty_waiters st"
  "next_pty_id (put_pty i p st) = next_pty_id st" "next_pty_desc_id (put_pty i p st) = next_pty_desc_id st"
  by (simp_all add: put_pty_def)

lemma same_put: "bt_get (ptys st) i = Some p \<Longrightarrow> kept p q \<Longrightarrow> same_ptys st (put_pty i q st)"
  by (rule same_ptysI) auto

lemma same_outer [simp]:
  "same_ptys st (pty_notify st') \<longleftrightarrow> same_ptys st st'" "same_ptys st (st'\<lparr>pty_waiters := ws\<rparr>) \<longleftrightarrow> same_ptys st st'"
  by (simp_all add: same_ptys_def)

lemma pty_of_Inr: "pty_of d st = Inr (r, p) \<longleftrightarrow> bt_get (desc_to_pty st) d = Some r \<and> bt_get (ptys st) (pref_pty_id r) = Some p"
  by (auto simp: pty_of_def err_simps)

lemma same_update: "(\<And>p. kept p (f p)) \<Longrightarrow> same_ptys st (snd (update_pty d f st))"
  by (auto simp: update_pty_def pty_of_Inr split: sum.splits intro: same_put)

lemma same_resize: "same_ptys st (snd (resize_pty d cols rows st))"
  by (auto simp: resize_pty_def pty_of_Inr Let_def kept_update split: sum.splits intro: same_put)

lemma same_write: "same_ptys st (snd (snd (pty_write d payload st)))"
proof -
  have "kept p (ctx_pty c1)"
    if "(case e of Master_side \<Rightarrow> process_input payload c | Slave_side \<Rightarrow> deliver_output out False c) = (r, c1)" "ctx_pty c = p"
    for e c r c1 p out
    using that kept_process_input [of c payload] kept_deliver(2) [of c out False] by (cases e) auto
  then show ?thesis
    by (auto simp: pty_write_def pty_of_Inr Let_def split: sum.splits prod.splits intro!: same_put)
qed

lemma same_cancel: "same_ptys st (cancel_pty_reader i w st') \<longleftrightarrow> same_ptys st st'"
proof -
  have k: "kept p (q\<lparr>waiting_input_reads := xs, waiting_output_reads := ys\<rparr>) \<longleftrightarrow> kept p q" for p q xs ys
    by (simp add: kept_def bounded_def)
  have "rel_option kept x (map_option (\<lambda>p. p\<lparr>waiting_input_reads := f p, waiting_output_reads := g p\<rparr>) y) \<longleftrightarrow> rel_option kept x y"
    for x y f g by (cases x; cases y) (simp_all add: k)
  then show ?thesis unfolding same_ptys_def cancel_pty_reader_def by (simp add: if_distrib) metis
qed

lemma same_register_reader: "bt_get (ptys st) (pref_pty_id r) = Some p \<Longrightarrow> same_ptys st (snd (register_pty_reader r p st))"
proof -
  assume p: "bt_get (ptys st) (pref_pty_id r) = Some p"
  let ?q = "case pref_end r of
      Master_side \<Rightarrow> p\<lparr>waiting_output_reads := waiting_output_reads p @ [next_pty_waiter_id st]\<rparr>
    | Slave_side \<Rightarrow> p\<lparr>waiting_input_reads := waiting_input_reads p @ [next_pty_waiter_id st]\<rparr>"
  have "kept p ?q" by (simp add: kept_update split: pty_side.splits)
  with p show ?thesis by (intro same_ptysI [of _ _ p ?q]) (auto simp: register_pty_reader_def Let_def)
qed

lemma same_drop [simp]: "same_ptys st (drop_waiter w st') \<longleftrightarrow> same_ptys st st'"
  by (cases w) (simp_all add: drop_waiter_def)

lemma same_wait: "bt_get (ptys st) (pref_pty_id r) = Some p \<Longrightarrow> same_ptys st (snd (pty_wait_for_data r p deadline now w st))"
  using same_register_reader [of st r p]
  by (auto simp: pty_wait_for_data_def Let_def split_beta same_cancel split: option.splits)

lemma same_read_pass: "same_ptys st (snd (pty_read_pass r len deadline now w st))"
  using same_wait [of st r]
  by (auto simp: pty_read_pass_def Let_def split: option.splits prod.splits pty_side.splits
      intro!: same_put dest: kept_drained)

lemma same_read_resume: "same_ptys st (snd (pty_read_resume r len deadline timed_out now i st))"
  by (simp add: pty_read_resume_def Let_def same_read_pass same_cancel)

text \<open>Opening and closing.\<close>

lemma ok_register:
  assumes ok: "pty_ok st" and n: "next_pty_id st \<noteq> - 1" "next_pty_desc_id st \<noteq> - 1" "next_pty_desc_id st + 1 \<noteq> - 1"
  shows "pty_ok (snd (register_pty st))"
proof -
  let ?st = "snd (register_pty st)"
  have open_ends: "closed_end (default_pty path) = (\<lambda>_. False)" for path
    by (rule ext) (simp add: closed_end_def default_pty_def)
  have "pty_refs ?st = (pty_refs st)(next_pty_desc_id st \<mapsto> (next_pty_id st, True), next_pty_desc_id st + 1 \<mapsto> (next_pty_id st, False))"
    "pty_objects ?st = (pty_objects st)(next_pty_id st \<mapsto> \<lambda>_. False)"
    by (rule ext, simp add: register_pty_def Let_def pty_refs_def pty_objects_def open_ends)+
  with ends_inv_create [of "pty_refs st" "pty_objects st", OF _ n] ok show ?thesis
    by (simp add: pty_ok_def) (auto simp: register_pty_def Let_def default_pty_def bounded_def split: if_splits)
qed

lemma ok_close:
  assumes ok: "pty_ok st"
  shows "pty_ok (pty_close d st)"
proof (cases "bt_get (desc_to_pty st) d")
  case None
  with ok show ?thesis by (simp add: pty_close_def)
next
  case (Some r)
  let ?i = "pref_pty_id r" and ?e = "pref_end r = Master_side"
  have r: "pty_refs st d = Some (?i, ?e)" using Some by (simp add: pty_refs_def)
  have inv: "ends_inv (pty_refs st) (pty_objects st) (next_pty_desc_id st) (next_pty_id st)" using ok by (simp add: pty_ok_def)
  from ends_invD(2) [OF inv r] obtain p where p: "bt_get (ptys st) ?i = Some p" by (auto simp: pty_objects_def)
  define q where "q = (if ?e then p\<lparr>waiting_input_reads := [], waiting_output_reads := [], closed_master := True\<rparr>
    else p\<lparr>waiting_input_reads := [], waiting_output_reads := [], closed_slave := True\<rparr>)"
  have ps: "bt_get (ptys (pty_close d st)) j =
      (if j = ?i then if closed_end p (\<not> ?e) then None else Some q else bt_get (ptys st) j)" for j
    using Some p by (cases "pref_end r") (simp_all add: pty_close_def Let_def finish_pty_waiters_def closed_end_def q_def)
  have fr: "desc_to_pty (pty_close d st) = bt_remove d (desc_to_pty st)" "next_pty_id (pty_close d st) = next_pty_id st"
    "next_pty_desc_id (pty_close d st) = next_pty_desc_id st"
    using Some p by (cases "pref_end r"; simp add: pty_close_def Let_def finish_pty_waiters_def)+
  have "closed_end q = (closed_end p)(?e := True)" by (rule ext) (simp add: q_def closed_end_def)
  then have obj: "pty_objects (pty_close d st) =
      (pty_objects st)(?i := if closed_end p (\<not> ?e) then None else Some ((closed_end p)(?e := True)))"
    by (auto simp: pty_objects_def ps fun_eq_iff)
  have refs: "pty_refs (pty_close d st) = (pty_refs st)(d := None)" by (auto simp: pty_refs_def fr)
  have "bounded p" using ok p by (simp add: pty_ok_def)
  then have "bounded q" by (simp add: q_def bounded_def)
  with ok have "bounded q'" if "bt_get (ptys (pty_close d st)) j = Some q'" for j q'
    using that unfolding ps by (auto simp: pty_ok_def split: if_splits)
  with ends_inv_close [OF inv r, of "closed_end p"] p show ?thesis unfolding pty_ok_def obj refs fr by (simp add: pty_objects_def)
qed


section \<open>Runs\<close>

text \<open>Any interleaving of the operations; the passes of reads carry arbitrary arguments.\<close>

datatype pty_event =
    New_pty
  | Close_pty u64
  | Write_pty u64 bytes
  | Read_pty_pass pty_ref nat "nat option" nat "u64 option"
  | Read_pty_wakeup pty_ref nat "nat option" bool nat u64
  | Set_discipline u64 line_discipline_config
  | Set_termios u64 partial_termios
  | Set_foreground u64 u32
  | Resize_pty u64 u16 u16

fun pty_step :: "pty_event \<Rightarrow> pty_manager \<Rightarrow> pty_manager" where
  "pty_step New_pty st = snd (register_pty st)"
| "pty_step (Close_pty d) st = pty_close d st"
| "pty_step (Write_pty d payload) st = snd (snd (pty_write d payload st))"
| "pty_step (Read_pty_pass r len deadline now w) st = snd (pty_read_pass r len deadline now w st)"
| "pty_step (Read_pty_wakeup r len deadline timed_out now i) st = snd (pty_read_resume r len deadline timed_out now i st)"
| "pty_step (Set_discipline d config) st = snd (set_discipline d config st)"
| "pty_step (Set_termios d update) st = snd (set_termios d update st)"
| "pty_step (Set_foreground d pgid) st = snd (set_foreground_pgid d pgid st)"
| "pty_step (Resize_pty d cols rows) st = snd (resize_pty d cols rows st)"

fun pty_enabled :: "pty_event \<Rightarrow> pty_manager \<Rightarrow> bool" where
  "pty_enabled New_pty st = (next_pty_id st \<noteq> - 1 \<and> next_pty_desc_id st \<noteq> - 1 \<and> next_pty_desc_id st + 1 \<noteq> - 1)"
| "pty_enabled _ st = True"

interpretation pty_system: guarded_system "new_pty_manager on_signal n" pty_enabled pty_step pty_ok
proof
  have "pty_refs (new_pty_manager on_signal n) = (\<lambda>_. None)" "pty_objects (new_pty_manager on_signal n) = (\<lambda>_. None)"
    by (rule ext, simp add: new_pty_manager_def pty_refs_def pty_objects_def)+
  then show "pty_ok (new_pty_manager on_signal n)" using ends_inv_empty by (simp add: pty_ok_def) (simp add: new_pty_manager_def)
  show "pty_ok (pty_step e s)" if "pty_ok s" "pty_enabled e s" for s e
  proof (cases e)
    case New_pty
    with that ok_register show ?thesis by simp
  next
    case (Close_pty d)
    with that ok_close show ?thesis by simp
  qed (use that same_ptys_ok same_write same_read_pass same_read_resume same_update same_resize in
      \<open>auto simp: set_discipline_def set_termios_def set_foreground_pgid_def Let_def kept_update\<close>)
qed

section \<open>Writes that fail half way\<close>

text \<open>Delivery and editing neither read nor change the signals collected so far, nor the settings.\<close>

definition quiet :: "(pty_ctx \<Rightarrow> (pty_error + unit) \<times> pty_ctx) \<Rightarrow> bool" where
  "quiet f \<longleftrightarrow> (\<forall>c s. f (c\<lparr>ctx_signals := s\<rparr>) = (fst (f c), (snd (f c))\<lparr>ctx_signals := s\<rparr>) \<and>
     pty_termios (ctx_pty (snd (f c))) = pty_termios (ctx_pty c) \<and>
     foreground_pgid (ctx_pty (snd (f c))) = foreground_pgid (ctx_pty c))"

lemma quiet_deliver: "quiet (deliver_input data)" "quiet (deliver_output data is_echo)"
  by (auto simp: quiet_def deliver_input_def deliver_output_def hand_over_def Let_def split: option.splits)

lemma quiet_echo: "quiet (echo_bytes data)"
  using quiet_deliver(2) [of data True] by (auto simp: quiet_def echo_bytes_def)

lemma quiet_then_do: "quiet f \<Longrightarrow> quiet g \<Longrightarrow> quiet (\<lambda>c. then_do (f c) g)"
  by (auto simp: quiet_def then_do_def split_beta split: sum.splits)

lemma quiet_if: "quiet f \<Longrightarrow> quiet g \<Longrightarrow> quiet (\<lambda>c. if b then f c else g c)"
  by (cases b) simp_all

lemma quiet_return: "quiet (\<lambda>c. (Inr (), c))" "quiet (\<lambda>c. (Inr (), set_line line c))"
  by (auto simp: quiet_def set_line_def)

lemma quiet_on_line: "(\<And>line. quiet (f line)) \<Longrightarrow> quiet (\<lambda>c. f (line_buffer (ctx_pty c)) c)"
  by (auto simp: quiet_def)

lemma quiet_line: "quiet deliver_line"
  unfolding deliver_line_def
  by (rule quiet_on_line [where f = "\<lambda>line c. then_do (deliver_input line c) (\<lambda>c. (Inr (), set_line [] c))"])
     (intro quiet_then_do quiet_deliver quiet_return)

lemma quiet_canonical: "quiet (canonical_byte t b)"
proof -
  have "quiet (\<lambda>c. echo_bytes bs (set_line line c))" for bs line
    using quiet_then_do [OF quiet_return(2) [of line] quiet_echo [of bs]] by (simp add: then_do_def)
  note q = this quiet_then_do [OF this quiet_line]
  show ?thesis
    unfolding canonical_byte_def Let_def
    by (rule quiet_on_line [where f = "\<lambda>line c. if b = veof (cc t) then if line = [] then deliver_input [] c else deliver_line c
         else if b = verase (cc t) \<or> b = 0x08 then
           if line \<noteq> [] then echo_bytes [0x08, 0x20, 0x08] (set_line (butlast line) c) else (Inr (), c)
         else if b = 0x0A then then_do (echo_bytes [0x0D, 0x0A] (set_line (line @ [0x0A]) c)) deliver_line
         else if length line \<ge> MAX_CANON then (Inr (), c)
         else echo_bytes [b] (set_line (line @ [b]) c)"])
       (intro quiet_if q quiet_deliver quiet_line quiet_return)
qed

lemma quiet_process_byte:
  assumes "input_signal t (input_byte t b) = None"
  shows "pty_termios (ctx_pty c) = t \<Longrightarrow> process_byte b c =
    (if icanon t then canonical_byte t (input_byte t b) c
     else then_do (echo_bytes [input_byte t b] c) (deliver_input [input_byte t b]))"
    "quiet (\<lambda>c. if icanon t then canonical_byte t (input_byte t b) c
       else then_do (echo_bytes [input_byte t b] c) (deliver_input [input_byte t b]))"
  using assms quiet_canonical quiet_then_do [OF quiet_echo quiet_deliver(1)] by (cases "icanon t"; simp add: process_byte_def Let_def)+

text \<open>The signals that typed bytes stand for, for the foreground group if there is one.\<close>

definition typed_signals :: "pty_state \<Rightarrow> bytes \<Rightarrow> (u32 \<times> int) list" where
  "typed_signals pty data =
     (if foreground_pgid pty > 0
      then map (Pair (foreground_pgid pty))
        (List.map_filter (\<lambda>b. input_signal (pty_termios pty) (input_byte (pty_termios pty) b)) data)
      else [])"

lemma process_byte_signals:
  assumes "process_byte b c = (r, c')"
  shows "pty_termios (ctx_pty c') = pty_termios (ctx_pty c)" "foreground_pgid (ctx_pty c') = foreground_pgid (ctx_pty c)"
    "ctx_signals c' = ctx_signals c @ typed_signals (ctx_pty c) [b]"
    "r = Inl e \<Longrightarrow> process_byte b (c\<lparr>ctx_signals := s\<rparr>) = (Inl e, c'\<lparr>ctx_signals := s\<rparr>)"
proof -
  define t where "t = pty_termios (ctx_pty c)"
  define f where "f = (\<lambda>c. if icanon t then canonical_byte t (input_byte t b) c
     else then_do (echo_bytes [input_byte t b] c) (deliver_input [input_byte t b]))"
  have "pty_termios (ctx_pty c') = pty_termios (ctx_pty c) \<and> foreground_pgid (ctx_pty c') = foreground_pgid (ctx_pty c) \<and>
    ctx_signals c' = ctx_signals c @ typed_signals (ctx_pty c) [b] \<and>
    (r = Inl e \<longrightarrow> process_byte b (c\<lparr>ctx_signals := s\<rparr>) = (Inl e, c'\<lparr>ctx_signals := s\<rparr>))" for s
  proof (cases "input_signal t (input_byte t b)")
    case None
    have q: "quiet f" unfolding f_def by (rule quiet_process_byte(2) [OF None])
    have f: "process_byte b (c\<lparr>ctx_signals := s\<rparr>) = f (c\<lparr>ctx_signals := s\<rparr>)" for s
      using quiet_process_byte(1) [OF None, of "c\<lparr>ctx_signals := s\<rparr>"] by (simp add: f_def t_def)
    have fc: "f c = (r, c')" using quiet_process_byte(1) [OF None, of c] assms by (simp add: f_def t_def)
    from q have q2: "f (c\<lparr>ctx_signals := s\<rparr>) = (fst (f c), (snd (f c))\<lparr>ctx_signals := s\<rparr>)"
      "pty_termios (ctx_pty (snd (f c))) = pty_termios (ctx_pty c)" 
      "foreground_pgid (ctx_pty (snd (f c))) = foreground_pgid (ctx_pty c)" for s
      by (simp_all add: quiet_def)
    have "ctx_signals c' = ctx_signals c" using q2(1) [of "ctx_signals c"] fc by (cases c') simp
    with None q2 f fc show ?thesis by (simp add: typed_signals_def t_def List.map_filter_def)
  next
    case (Some sig)
    with assms show ?thesis by (auto simp: process_byte_def Let_def typed_signals_def t_def set_line_def List.map_filter_def)
  qed
  then show "pty_termios (ctx_pty c') = pty_termios (ctx_pty c)" "foreground_pgid (ctx_pty c') = foreground_pgid (ctx_pty c)"
    "ctx_signals c' = ctx_signals c @ typed_signals (ctx_pty c) [b]"
    "r = Inl e \<Longrightarrow> process_byte b (c\<lparr>ctx_signals := s\<rparr>) = (Inl e, c'\<lparr>ctx_signals := s\<rparr>)" by blast+
qed

lemma process_bytes_signals:
  "process_bytes data c = (Inr (), c') \<Longrightarrow> ctx_signals c' = ctx_signals c @ typed_signals (ctx_pty c) data \<and>
     pty_termios (ctx_pty c') = pty_termios (ctx_pty c)"
proof (induction data arbitrary: c)
  case (Cons b bs)
  from Cons.prems obtain c1 where c1: "process_byte b c = (Inr (), c1)" "process_bytes bs c1 = (Inr (), c')"
    by (auto simp: then_do_def split: prod.splits sum.splits)
  from process_byte_signals(1-3) [OF c1(1)] Cons.IH [OF c1(2)] show ?case
    by (auto simp: typed_signals_def List.map_filter_def)
qed (simp add: typed_signals_def List.map_filter_def)

lemma process_bytes_fails:
  "process_bytes data c = (Inl e, c') \<Longrightarrow>
     \<exists>acc b rest c1. data = acc @ b # rest \<and> process_bytes acc c = (Inr (), c1) \<and> process_byte b c1 = (Inl e, c')"
proof (induction data arbitrary: c)
  case (Cons b bs)
  show ?case
  proof (cases "process_byte b c")
    case (Pair r c1)
    show ?thesis
    proof (cases r)
      case (Inl e')
      with Pair Cons.prems show ?thesis by (intro exI [of _ "[]"]) (auto simp: then_do_def)
    next
      case (Inr u)
      with Pair Cons.prems Cons.IH [of c1] obtain acc b' rest c2 where
        "bs = acc @ b' # rest" "process_bytes acc c1 = (Inr (), c2)" "process_byte b' c2 = (Inl e, c')"
        by (auto simp: then_do_def)
      with Pair Inr show ?thesis by (intro exI [of _ "b # acc"]) (auto simp: then_do_def)
    qed
  qed
qed simp

lemma kept_open:
  assumes "process_bytes data c = (r, c')" "\<not> closed_master (ctx_pty c)" "\<not> closed_slave (ctx_pty c)"
  shows "\<not> closed_master (ctx_pty c')" "\<not> closed_slave (ctx_pty c')"
  using kept_process_bytes [of "ctx_pty c" c data] assms by (simp_all add: kept_def)

lemma write_master:
  assumes "pty_of m st = Inr (r, pty)" "pref_end r = Master_side" "\<not> closed_master pty" "\<not> closed_slave pty"
    and "icanon (pty_termios pty) \<or> echo (pty_termios pty) \<or> isig (pty_termios pty)"
    and "process_bytes data \<lparr>ctx_pty = pty, ctx_waiters = pty_waiters st, ctx_signals = []\<rparr> = (outcome, c)"
  shows "pty_write m data st =
    (let st1 = (put_pty (pref_pty_id r) (ctx_pty c) st)\<lparr>pty_waiters := ctx_waiters c\<rparr>
     in case outcome of Inl e \<Rightarrow> (Inl e, [], st1)
        | Inr _ \<Rightarrow> (Inr (length data), if pty_on_signal st then typed_signals pty data else [], pty_notify st1))"
proof -
  have "ctx_signals c = typed_signals pty data" if "outcome = Inr ()"
    using process_bytes_signals [of data _ c] assms(6) that by fastforce
  moreover have "filter (\<lambda>(pgid, signal). pgid > 0) (typed_signals pty data) = typed_signals pty data"
    by (auto simp: typed_signals_def filter_id_conv)
  moreover have "process_input data \<lparr>ctx_pty = pty, ctx_waiters = pty_waiters st, ctx_signals = []\<rparr> = (outcome, c)"
    using assms(5,6) by (auto simp: process_input_def Let_def)
  ultimately show ?thesis
    using assms(1-4) by (cases outcome) (simp_all add: pty_write_def Let_def put_pty_def)
qed

section \<open>Properties\<close>

text \<open>
  (C21) Life cycle and memory of terminals: after any interleaving of operations a terminal exists exactly as
  long as one of its ends has a descriptor, a descriptor refers to an open end that no other descriptor
  refers to, and neither buffer holds more than \<open>MAX_PTY_BUFFER_BYTES\<close>.
\<close>

theorem pty_lifecycle:
  assumes "valid_run pty_enabled pty_step (new_pty_manager on_signal n) es"
  shows "case fold pty_step es (new_pty_manager on_signal n) of st \<Rightarrow>
    (bt_contains (ptys st) i \<longleftrightarrow> (\<exists>d r. bt_get (desc_to_pty st) d = Some r \<and> pref_pty_id r = i)) \<and>
    (bt_get (desc_to_pty st) d = Some r \<longrightarrow> bt_get (desc_to_pty st) d' = Some r \<longrightarrow> d = d') \<and>
    (bt_get (desc_to_pty st) d = Some r \<longrightarrow>
       (\<exists>p. bt_get (ptys st) (pref_pty_id r) = Some p \<and>
          (case pref_end r of Master_side \<Rightarrow> \<not> closed_master p | Slave_side \<Rightarrow> \<not> closed_slave p))) \<and>
    (bt_get (ptys st) i = Some p \<longrightarrow>
       buffer_size (input_buffer p) \<le> MAX_PTY_BUFFER_BYTES \<and> buffer_size (output_buffer p) \<le> MAX_PTY_BUFFER_BYTES)"
proof -
  define st where "st = fold pty_step es (new_pty_manager on_signal n)"
  have ok: "pty_ok st" unfolding st_def by (rule pty_system.run_inv [OF assms])
  then have inv: "ends_inv (pty_refs st) (pty_objects st) (next_pty_desc_id st) (next_pty_id st)" by (simp add: pty_ok_def)
  have ref: "pty_refs st d = Some (pref_pty_id r, pref_end r = Master_side)" if "bt_get (desc_to_pty st) d = Some r" for d r
    using that by (simp add: pty_refs_def)
  have "bt_contains (ptys st) i \<longleftrightarrow> (\<exists>d r. bt_get (desc_to_pty st) d = Some r \<and> pref_pty_id r = i)"
    using ends_inv_exists [OF inv, of i] by (auto simp: pty_objects_def pty_refs_def bt_contains_iff)
  moreover have "d = d'" if "bt_get (desc_to_pty st) d = Some r" "bt_get (desc_to_pty st) d' = Some r"
    using ends_invD(3) [OF inv ref [OF that(1)] ref [OF that(2)]] .
  moreover have "\<exists>p. bt_get (ptys st) (pref_pty_id r) = Some p \<and>
      (case pref_end r of Master_side \<Rightarrow> \<not> closed_master p | Slave_side \<Rightarrow> \<not> closed_slave p)"
    if "bt_get (desc_to_pty st) d = Some r"
    using ends_invD(2) [OF inv ref [OF that]] by (cases "pref_end r") (auto simp: pty_objects_def closed_end_def)
  ultimately show ?thesis using ok unfolding st_def [symmetric] by (auto simp: pty_ok_def bounded_def)
qed

theorem pty_lifecycle_witness:
  "\<exists>r. bt_get (desc_to_pty (pty_step New_pty (new_pty_manager True None))) 200000 = Some r \<and>
     (\<exists>p. bt_get (ptys (pty_step New_pty (new_pty_manager True None))) (pref_pty_id r) = Some p \<and> \<not> closed_master p)"
proof -
  define st where "st = pty_step New_pty (new_pty_manager True None)"
  let ?r = "\<lparr>pref_pty_id = 0, pref_end = Master_side\<rparr>"
  have v: "valid_run pty_enabled pty_step (new_pty_manager True None) [New_pty]" by code_simp
  have st: "fold pty_step [New_pty] (new_pty_manager True None) = st" by (simp only: st_def fold_simps)
  have d: "bt_get (desc_to_pty st) 200000 = Some ?r" unfolding st_def by code_simp
  have "\<exists>p. bt_get (ptys st) (pref_pty_id ?r) = Some p \<and> (case pref_end ?r of Master_side \<Rightarrow> \<not> closed_master p | Slave_side \<Rightarrow> \<not> closed_slave p)"
    using pty_lifecycle [OF v, of 0 200000 ?r 200000] d unfolding st by blast
  with d show ?thesis unfolding st_def [symmetric] by auto
qed

text \<open>
  (C12) A conversation: with both ends open, room in the buffers, nobody waiting and something to read at
  the end, what is typed at the master reaches the reader at the slave as the line editor leaves it, behind what was unread before; the write is accepted whole and
  raises the editor's signals at the foreground group.
\<close>

theorem typed_lines_reach_reader:
  assumes "pty_of m st = Inr (rm, pty)" "pref_end rm = Master_side" "pty_of s st = Inr (rs, pty)" "pref_end rs = Slave_side"
    and "pref_pty_id rs = pref_pty_id rm" "\<not> closed_master pty" "\<not> closed_slave pty" "unattended pty"
    and e: "e = edit_bytes (pty_termios pty) data (start_edit (line_buffer pty))" "fits e pty"
    and "concat (input_buffer pty) @ concat (ed_lines e) \<noteq> []"
  shows "\<exists>st'. pty_write m data st =
      (Inr (length data),
       if pty_on_signal st \<and> foreground_pgid pty > 0 then map (\<lambda>sig. (foreground_pgid pty, sig)) (ed_signals e) else [], st') \<and>
    fst (pty_read s len start now st') = Pty_return (Inr (Some (take len (concat (input_buffer pty) @ concat (ed_lines e)))))"
proof -
  define c where "c = \<lparr>ctx_pty = pty, ctx_waiters = pty_waiters st, ctx_signals = []\<rparr>"
  obtain c1 where run: "process_input data c = (Inr (), c1)"
    and c1: "concat (input_buffer (ctx_pty c1)) = concat (input_buffer pty) @ concat (ed_lines e)"
      "ctx_signals c1 = (if foreground_pgid pty > 0 then map (\<lambda>sig. (foreground_pgid pty, sig)) (ed_signals e) else [])"
    using process_input_edits [of c data] assms(8) e by (cases "process_input data c") (simp add: c_def)
  have "kept pty (ctx_pty c1)" using kept_process_input [of c data] run by (simp add: c_def)
  then have cl: "\<not> closed_master (ctx_pty c1)" "\<not> closed_slave (ctx_pty c1)" using assms(6,7) by (simp_all add: kept_def)
  define st' where "st' = pty_notify ((put_pty (pref_pty_id rm) (ctx_pty c1) st)\<lparr>pty_waiters := ctx_waiters c1\<rparr>)"
  have sig: "filter (\<lambda>(pgid, signal). pgid > 0) (ctx_signals c1) = ctx_signals c1"
    by (auto simp: c1(2) filter_id_conv)
  have "pty_write m data st = (Inr (length data), if pty_on_signal st then ctx_signals c1 else [], st')"
    using assms(1,2,6,7) run sig
    by (simp add: pty_write_def c_def [symmetric] st'_def Let_def) (simp add: put_pty_def)
  moreover have "input_buffer (ctx_pty c1) \<noteq> []" using assms(11) c1(1) by (metis concat.simps(1))
  moreover have "fst (drain_buffer (input_buffer (ctx_pty c1)) len) = take len (concat (input_buffer (ctx_pty c1)))"
    using drain_buffer_content(1) [of "input_buffer (ctx_pty c1)" len] by (metis prod.collapse)
  ultimately show ?thesis
    using assms(3-5) cl c1
    by (auto simp: pty_read_def pty_read_with_timeout_def pty_read_pass_def pty_delivered_def pty_of_Inr st'_def split_beta Let_def)
qed


theorem typed_lines_reach_reader_witness:
  "case pty_step New_pty (new_pty_manager True None) of st \<Rightarrow>
     \<exists>st'. pty_write 200000 [0x61, 0x0D] st = (Inr 2, [], st') \<and>
       fst (pty_read 200001 9 0 0 st') = Pty_return (Inr (Some [0x61, 0x0A]))"
proof -
  define st where "st = pty_step New_pty (new_pty_manager True None)"
  let ?m = "\<lparr>pref_pty_id = 0, pref_end = Master_side\<rparr>" and ?s = "\<lparr>pref_pty_id = 0, pref_end = Slave_side\<rparr>"
  have st: "pty_of 200000 st = Inr (?m, default_pty ''/dev/pts/0'')" "pty_of 200001 st = Inr (?s, default_pty ''/dev/pts/0'')"
    unfolding st_def by code_simp+
  have p: "\<not> closed_master (default_pty ''/dev/pts/0'')" "\<not> closed_slave (default_pty ''/dev/pts/0'')"
    "unattended (default_pty ''/dev/pts/0'')" by (simp_all add: default_pty_def unattended_def)
  let ?e = "edit_bytes default_termios [0x61, 0x0D] (start_edit [])"
  have e: "fits ?e (default_pty ''/dev/pts/0'')" "concat (ed_lines ?e) = [0x61, 0x0A]" by code_simp+
  have d: "pty_termios (default_pty ''/dev/pts/0'') = default_termios" "line_buffer (default_pty ''/dev/pts/0'') = []"
    "input_buffer (default_pty ''/dev/pts/0'') = []" "foreground_pgid (default_pty ''/dev/pts/0'') = 0"
    by (simp_all add: default_pty_def)
  from typed_lines_reach_reader [OF st(1) _ st(2) _ _ p, of ?e "[0x61, 0x0D]" 9 0 0, unfolded d e(2)] e(1)
  show ?thesis unfolding st_def [symmetric] by (simp add: numeral_2_eq_2)
qed

text \<open>
  (C27) A write to the master that fails half way drops signals.  In every mode but raw, the bytes before
  the one that does not fit have their full effect: the terminal and the waiting readers are left as
  after a write of these bytes alone and then of the failing byte.  That first write alone sends the signals
  of its control characters to the foreground group; the failed write sends none.
\<close>

theorem failed_write_drops_signal:
  assumes w: "pty_of m st = Inr (r, pty)" "pref_end r = Master_side" "\<not> closed_master pty" "\<not> closed_slave pty"
      "icanon (pty_termios pty) \<or> echo (pty_termios pty) \<or> isig (pty_termios pty)"
    and f: "pty_write m data st = (Inl e, sigs, st')"
  shows "sigs = [] \<and> (\<exists>acc b rest st1 st2. data = acc @ b # rest \<and>
    pty_write m acc st = (Inr (length acc), if pty_on_signal st then typed_signals pty acc else [], st1) \<and>
    pty_write m [b] st1 = (Inl e, [], st2) \<and> pty_waiters st' = pty_waiters st2 \<and> (\<forall>d. pty_of d st' = pty_of d st2))"
proof -
  let ?c = "\<lparr>ctx_pty = pty, ctx_waiters = pty_waiters st, ctx_signals = []\<rparr>"
  let ?put = "\<lambda>c st. (put_pty (pref_pty_id r) (ctx_pty c) st)\<lparr>pty_waiters := ctx_waiters c\<rparr>"
  obtain outcome c where oc: "process_bytes data ?c = (outcome, c)" by fastforce
  from write_master [OF w oc] f have o: "outcome = Inl e" "sigs = []" "st' = ?put c st"
    by (auto simp: Let_def split: sum.splits)
  from process_bytes_fails [OF oc [unfolded o(1)]] obtain acc b rest c1 where
    acc: "data = acc @ b # rest" "process_bytes acc ?c = (Inr (), c1)" "process_byte b c1 = (Inl e, c)" by blast
  define st1 where "st1 = pty_notify (?put c1 st)"
  have a: "pty_write m acc st = (Inr (length acc), if pty_on_signal st then typed_signals pty acc else [], st1)"
    using write_master [OF w acc(2)] by (simp add: st1_def Let_def)
  have w1: "pty_of m st1 = Inr (r, ctx_pty c1)" using w(1) by (simp add: st1_def pty_of_Inr)
  have "process_bytes [b] \<lparr>ctx_pty = ctx_pty c1, ctx_waiters = pty_waiters st1, ctx_signals = []\<rparr> = (Inl e, c\<lparr>ctx_signals := []\<rparr>)"
    using process_byte_signals(4) [OF acc(3) refl, of "[]"] by (cases c1) (simp add: st1_def then_do_def)
  from write_master [OF w1 w(2) _ _ _ this] kept_open [OF acc(2)] process_bytes_signals [OF acc(2)] w(3-5)
  have b: "pty_write m [b] st1 = (Inl e, [], ?put c st1)" by (simp add: Let_def)
  have "pty_of d st' = pty_of d (?put c st1)" for d by (simp add: o(3) st1_def pty_of_def pty_notify_def cong: if_cong)
  moreover have "pty_waiters st' = pty_waiters (?put c st1)" by (simp add: o(3))
  ultimately show ?thesis using o(2) a b acc(1) by blast
qed

theorem failed_write_drops_signal_witness:
  "\<exists>st pty acc b rest st1 st2. [0x03, 0x61] = acc @ b # rest \<and>
     pty_write 200000 acc st = (Inr (length acc), typed_signals pty acc, st1) \<and>
     pty_write 200000 [b] st1 = (Inl (Pty_would_block ''PTY input buffer full''), [], st2) \<and>
     typed_signals pty [0x03, 0x61] = [(7, PTY_SIGINT)] \<and> fst (snd (pty_write 200000 [0x03, 0x61] st)) = []"
proof -
  define t where "t = default_termios\<lparr>icanon := False, echo := False\<rparr>"
  define pty where "pty = (default_pty ''/dev/pts/0'')\<lparr>pty_termios := t, foreground_pgid := 7,
    input_buffer := [replicate MAX_PTY_BUFFER_BYTES 0]\<rparr>"
  define st where "st = put_pty 0 pty (snd (register_pty (new_pty_manager True None)))"
  have st: "pty_of 200000 st = Inr (\<lparr>pref_pty_id = 0, pref_end = Master_side\<rparr>, pty)" "pty_on_signal st"
    by (simp_all add: st_def pty_of_Inr) (simp_all add: register_pty_def new_pty_manager_def Let_def put_pty_def)
  have t: "input_signal t (input_byte t 0x03) = Some PTY_SIGINT" "input_signal t (input_byte t 0x61) = None"
    "\<not> icanon t" "\<not> echo t" "isig t" unfolding t_def by code_simp+
  have p: "pty_termios pty = t" "foreground_pgid pty = 7" "\<not> closed_master pty" "\<not> closed_slave pty"
    "waiting_input_reads pty = []" "buffer_size (input_buffer pty) = MAX_PTY_BUFFER_BYTES"
    by (simp_all add: pty_def default_pty_def)
  have "fst (pty_write 200000 [0x03, 0x61] st) = Inl (Pty_would_block ''PTY input buffer full'')"
    by (simp add: pty_write_def st p t process_input_def process_byte_def then_do_def echo_bytes_def deliver_input_def
        live_waiter_def Let_def)
  then obtain sigs st' where w: "pty_write 200000 [0x03, 0x61] st = (Inl (Pty_would_block ''PTY input buffer full''), sigs, st')"
    by (metis prod.collapse)
  have s: "typed_signals pty [0x03, 0x61] = [(7, PTY_SIGINT)]" by (simp add: typed_signals_def p t List.map_filter_def)
  from failed_write_drops_signal [OF st(1) _ p(3,4) _ w] p(1) t(5) st(2) obtain acc b rest st1 st2 where
    "sigs = []" "[0x03, 0x61] = acc @ b # rest" "pty_write 200000 acc st = (Inr (length acc), typed_signals pty acc, st1)"
    "pty_write 200000 [b] st1 = (Inl (Pty_would_block ''PTY input buffer full''), [], st2)" by auto
  with s w show ?thesis by (metis fst_conv snd_conv)
qed

end
