(* ===== verification/Signals.thy ===== *)
theory Signals
  imports Rust_Prelude
begin

text \<open>
  Signal numbers, signal sets and wait flags of \<open>crates/kernel/src/process_table.rs\<close>.  A \<open>SignalSet\<close> is
  its \<open>u64\<close> of bits; signal numbers are \<open>i32\<close> values, kept as integers.  The abstraction \<open>sigs\<close> reads a
  signal set as a set of numbers between 1 and 64.
\<close>

unbundle bit_operations_syntax

definition SIGHUP :: int where "SIGHUP = 1"
definition SIGCHLD :: int where "SIGCHLD = 17"
definition SIGCONT :: int where "SIGCONT = 18"
definition SIGSTOP :: int where "SIGSTOP = 19"
definition SIGTSTP :: int where "SIGTSTP = 20"
definition SIGTERM :: int where "SIGTERM = 15"
definition SIGKILL :: int where "SIGKILL = 9"
definition SIGPIPE :: int where "SIGPIPE = 13"
definition SIGWINCH :: int where "SIGWINCH = 28"
definition MAX_SIGNAL :: int where "MAX_SIGNAL = 64"

lemmas sig_consts = SIGHUP_def SIGCHLD_def SIGCONT_def SIGSTOP_def SIGTSTP_def SIGTERM_def SIGKILL_def
  SIGPIPE_def SIGWINCH_def MAX_SIGNAL_def

text \<open>\<open>ProcessTableError\<close>: one constructor per constructor function of the source.\<close>

datatype process_error =
    Invalid_signal int
  | No_such_process u32
  | No_such_process_group u32
  | No_matching_child u32 int
  | Process_permission_denied string

fun process_error_code :: "process_error \<Rightarrow> string" where
  "process_error_code (Invalid_signal _) = ''EINVAL''"
| "process_error_code (No_such_process _) = ''ESRCH''"
| "process_error_code (No_such_process_group _) = ''ESRCH''"
| "process_error_code (No_matching_child _ _) = ''ECHILD''"
| "process_error_code (Process_permission_denied _) = ''EPERM''"

type_synonym signal_set = u64

definition signal_bit :: "int \<Rightarrow> process_error + u64" where
  "signal_bit signal =
     (if 1 \<le> signal \<and> signal \<le> MAX_SIGNAL then Inr (push_bit (nat (signal - 1)) 1) else Inl (Invalid_signal signal))"

definition sig_contains :: "signal_set \<Rightarrow> int \<Rightarrow> bool" where
  "sig_contains bits signal = (case signal_bit signal of Inl _ \<Rightarrow> False | Inr b \<Rightarrow> bits AND b \<noteq> 0)"

definition sig_insert :: "int \<Rightarrow> signal_set \<Rightarrow> process_error + signal_set" where
  "sig_insert signal bits = and_then (signal_bit signal) (\<lambda>b. Inr (bits OR b))"

definition sig_remove :: "int \<Rightarrow> signal_set \<Rightarrow> process_error + signal_set" where
  "sig_remove signal bits = and_then (signal_bit signal) (\<lambda>b. Inr (bits AND NOT b))"

definition from_signal :: "int \<Rightarrow> process_error + signal_set" where
  "from_signal signal = signal_bit signal"

fun insert_all :: "int list \<Rightarrow> signal_set \<Rightarrow> process_error + signal_set" where
  "insert_all [] bits = Inr bits"
| "insert_all (signal # rest) bits = and_then (sig_insert signal bits) (insert_all rest)"

definition from_signals :: "int list \<Rightarrow> process_error + signal_set" where
  "from_signals signals = insert_all signals 0"

definition sig_union :: "signal_set \<Rightarrow> signal_set \<Rightarrow> signal_set" where
  "sig_union s t = s OR t"

definition sig_difference :: "signal_set \<Rightarrow> signal_set \<Rightarrow> signal_set" where
  "sig_difference s t = s AND NOT t"

definition signals :: "signal_set \<Rightarrow> int list" where
  "signals bits = filter (sig_contains bits) [1..MAX_SIGNAL]"

definition signal_can_be_blocked :: "int \<Rightarrow> bool" where
  "signal_can_be_blocked signal \<longleftrightarrow> signal \<notin> {SIGKILL, SIGSTOP, SIGCONT}"

definition WNOHANG :: u32 where "WNOHANG = 1"
definition WUNTRACED :: u32 where "WUNTRACED = 2"
definition WCONTINUED :: u32 where "WCONTINUED = 4"

definition flags_contain :: "u32 \<Rightarrow> u32 \<Rightarrow> bool" where
  "flags_contain self other \<longleftrightarrow> self AND other = other"

section \<open>Signal sets as sets\<close>

definition sigs :: "signal_set \<Rightarrow> int set" where
  "sigs s = {signal. sig_contains s signal}"

lemma sig_contains_iff: "sig_contains s n \<longleftrightarrow> 1 \<le> n \<and> n \<le> 64 \<and> bit s (nat (n - 1))"
proof (cases "1 \<le> n \<and> n \<le> 64")
  case True
  let ?k = "nat (n - 1)"
  have k: "?k < 64" using True by auto
  have b: "bit (push_bit ?k 1 :: u64) j \<longleftrightarrow> j = ?k" for j
    using k by (auto simp: bit_simps)
  have "s AND push_bit ?k 1 \<noteq> 0 \<longleftrightarrow> bit s ?k"
  proof
    assume "s AND push_bit ?k 1 \<noteq> 0"
    then obtain j where "bit (s AND push_bit ?k 1) j" by (metis bit_eqI bit_0_eq bot_apply bot_bool_def)
    then show "bit s ?k" using b by (metis bit_and_iff)
  next
    assume "bit s ?k"
    then have "bit (s AND push_bit ?k 1) ?k" using b by (simp add: bit_and_iff)
    then show "s AND push_bit ?k 1 \<noteq> 0" by auto
  qed
  with True show ?thesis by (simp add: sig_contains_def signal_bit_def MAX_SIGNAL_def)
next
  case False
  then show ?thesis by (auto simp: sig_contains_def signal_bit_def MAX_SIGNAL_def)
qed

lemma sigs_range: "sigs s \<subseteq> {1..64}"
  by (auto simp: sigs_def sig_contains_iff)

lemma sigs_empty [simp]: "sigs 0 = {}"
  by (auto simp: sigs_def sig_contains_iff)

lemma sigs_inject: "sigs s = sigs t \<longleftrightarrow> s = t"
proof
  assume eq: "sigs s = sigs t"
  show "s = t"
  proof (rule bit_word_eqI)
    fix j
    assume "j < LENGTH(64)"
    moreover have "int j + 1 \<in> sigs s \<longleftrightarrow> int j + 1 \<in> sigs t" using eq by simp
    ultimately show "bit s j \<longleftrightarrow> bit t j" by (simp add: sigs_def sig_contains_iff)
  qed
qed simp

lemma sigs_union [simp]: "sigs (sig_union s t) = sigs s \<union> sigs t"
  by (auto simp: sigs_def sig_contains_iff sig_union_def bit_or_iff)

lemma sigs_difference [simp]: "sigs (sig_difference s t) = sigs s - sigs t"
proof -
  have "nat (n - 1) < 64" if "1 \<le> n" "n \<le> (64 :: int)" for n using that by auto
  then show ?thesis by (auto simp: sigs_def sig_contains_iff sig_difference_def bit_and_iff bit_not_iff)
qed

lemma signal_bit_Inr: "signal_bit n = Inr b \<Longrightarrow> 1 \<le> n \<and> n \<le> 64 \<and> sigs b = {n}"
proof -
  assume *: "signal_bit n = Inr b"
  then have n: "1 \<le> n" "n \<le> 64" and b: "b = push_bit (nat (n - 1)) 1"
    by (auto simp: signal_bit_def MAX_SIGNAL_def split: if_splits)
  have "nat (m - 1) = nat (n - 1) \<longleftrightarrow> m = n" if "1 \<le> m" for m using that n by auto
  then have "sigs b = {n}"
    using n by (auto simp: sigs_def sig_contains_iff b bit_simps)
  with n show ?thesis by simp
qed

lemma sig_insert_eq: "1 \<le> n \<Longrightarrow> n \<le> 64 \<Longrightarrow> \<exists>t. sig_insert n s = Inr t \<and> sigs t = insert n (sigs s)"
proof -
  assume n: "1 \<le> n" "n \<le> 64"
  then obtain b where b: "signal_bit n = Inr b" by (simp add: signal_bit_def MAX_SIGNAL_def)
  then have "sig_insert n s = Inr (sig_union s b)" by (simp add: sig_insert_def sig_union_def)
  with signal_bit_Inr [OF b] show ?thesis by auto
qed

lemma sig_remove_eq: "1 \<le> n \<Longrightarrow> n \<le> 64 \<Longrightarrow> \<exists>t. sig_remove n s = Inr t \<and> sigs t = sigs s - {n}"
proof -
  assume n: "1 \<le> n" "n \<le> 64"
  then obtain b where b: "signal_bit n = Inr b" by (simp add: signal_bit_def MAX_SIGNAL_def)
  then have "sig_remove n s = Inr (sig_difference s b)" by (simp add: sig_remove_def sig_difference_def)
  with signal_bit_Inr [OF b] show ?thesis by auto
qed

lemma set_signals: "set (signals s) = sigs s"
  using sigs_range [of s] by (auto simp: signals_def sigs_def MAX_SIGNAL_def sig_contains_iff)

lemma distinct_signals: "distinct (signals s)"
  by (simp add: signals_def)

lemma insert_all_sigs:
  assumes "\<forall>n \<in> set ns. 1 \<le> n \<and> n \<le> 64"
  shows "\<exists>t. insert_all ns s = Inr t \<and> sigs t = sigs s \<union> set ns"
  using assms
proof (induction ns arbitrary: s)
  case Nil
  then show ?case by simp
next
  case (Cons n ns)
  then obtain t where "sig_insert n s = Inr t" "sigs t = insert n (sigs s)"
    using sig_insert_eq [of n s] by auto
  moreover obtain u where "insert_all ns t = Inr u" "sigs u = sigs t \<union> set ns"
    using Cons.IH [of t] Cons.prems by auto
  ultimately show ?case by auto
qed

text \<open>Evaluation reads the bits of the set as an integer.\<close>

lemma sig_contains_code [code]:
  "sig_contains s n \<longleftrightarrow> s \<noteq> 0 \<and> 1 \<le> n \<and> n \<le> 64 \<and> bit (uint s) (nat (n - 1))"
  by (auto simp: sig_contains_iff bit_uint_iff)

lemma signals_code [code]: "signals s = (let k = uint s in filter (\<lambda>n. bit k (nat (n - 1))) [1..64])"
  by (auto simp: signals_def MAX_SIGNAL_def sig_contains_iff bit_uint_iff Let_def intro!: filter_cong)

section \<open>Properties\<close>

text \<open>
  A signal set is the set of its signals: listing it in increasing order and building a set from
  that list gives the same 64 bits back, so equal contents are equal words; union and difference of
  words are union and difference of contents.
\<close>

theorem signal_set_roundtrip:
  "from_signals (signals s) = Inr s \<and> sorted (signals s) \<and>
   set (signals (sig_union s t)) = set (signals s) \<union> set (signals t) \<and>
   set (signals (sig_difference s t)) = set (signals s) - set (signals t)"
proof -
  obtain u where "from_signals (signals s) = Inr u" "sigs u = sigs s"
    using insert_all_sigs [of "signals s" 0] sigs_range [of s]
    by (auto simp: from_signals_def set_signals subset_eq)
  moreover have "sorted (signals s)" by (simp add: signals_def sorted_wrt_filter)
  ultimately show ?thesis by (simp add: set_signals sigs_inject)
qed

end
