(* ===== verification/User.thy ===== *)
theory User
  imports Rust_Prelude
begin

text \<open>
  The identity of a process and the user database of \<open>crates/kernel/src/user.rs\<close>.
\<close>

record process_identity =
  id_uid :: u32
  id_gid :: u32
  id_euid :: u32
  id_egid :: u32
  id_supplementary_gids :: "u32 list"

definition default_identity :: process_identity where
  "default_identity =
     \<lparr>id_uid = 1000, id_gid = 1000, id_euid = 1000, id_egid = 1000, id_supplementary_gids = [1000]\<rparr>"

record user_config =
  cfg_uid :: "u32 option"
  cfg_gid :: "u32 option"
  cfg_euid :: "u32 option"
  cfg_egid :: "u32 option"
  cfg_username :: "string option"
  cfg_homedir :: "string option"
  cfg_shell :: "string option"
  cfg_gecos :: "string option"
  cfg_group_name :: "string option"
  cfg_supplementary_gids :: "u32 list"

record user_manager =
  um_uid :: u32
  um_gid :: u32
  um_euid :: u32
  um_egid :: u32
  um_username :: string
  um_homedir :: string
  um_shell :: string
  um_gecos :: string
  um_group_name :: string
  um_supplementary_gids :: "u32 list"

definition unwrap_or :: "'a option \<Rightarrow> 'a \<Rightarrow> 'a" where
  "unwrap_or x d = (case x of None \<Rightarrow> d | Some v \<Rightarrow> v)"

definition normalize_supplementary_gids :: "u32 \<Rightarrow> u32 list \<Rightarrow> u32 list" where
  "normalize_supplementary_gids primary_gid gids =
     fold (\<lambda>gid normalized. if gid \<in> set normalized then normalized else normalized @ [gid]) gids [primary_gid]"

definition default_user_config :: user_config where
  "default_user_config =
     \<lparr>cfg_uid = None, cfg_gid = None, cfg_euid = None, cfg_egid = None, cfg_username = None,
      cfg_homedir = None, cfg_shell = None, cfg_gecos = None, cfg_group_name = None,
      cfg_supplementary_gids = []\<rparr>"

definition from_config :: "user_config \<Rightarrow> user_manager" where
  "from_config config =
     (let uid = unwrap_or (cfg_uid config) 1000;
          gid = unwrap_or (cfg_gid config) 1000;
          username = unwrap_or (cfg_username config) ''user''
      in \<lparr>um_uid = uid, um_gid = gid,
          um_euid = unwrap_or (cfg_euid config) uid,
          um_egid = unwrap_or (cfg_egid config) gid,
          um_username = username,
          um_homedir = unwrap_or (cfg_homedir config) ''/home/user'',
          um_shell = unwrap_or (cfg_shell config) ''/bin/sh'',
          um_gecos = unwrap_or (cfg_gecos config) [],
          um_group_name = unwrap_or (cfg_group_name config) username,
          um_supplementary_gids = normalize_supplementary_gids gid (cfg_supplementary_gids config)\<rparr>)"

definition identity :: "user_manager \<Rightarrow> process_identity" where
  "identity um =
     \<lparr>id_uid = um_uid um, id_gid = um_gid um, id_euid = um_euid um, id_egid = um_egid um,
      id_supplementary_gids = um_supplementary_gids um\<rparr>"

definition getgroups :: "user_manager \<Rightarrow> u32 list" where
  "getgroups um = um_supplementary_gids um"

definition getpwuid :: "user_manager \<Rightarrow> u32 \<Rightarrow> string option" where
  "getpwuid um uid =
     (if uid = um_uid um
      then Some (um_username um @ '':x:'' @ decimal (unat (um_uid um)) @ '':'' @ decimal (unat (um_gid um)) @
                 '':'' @ um_gecos um @ '':'' @ um_homedir um @ '':'' @ um_shell um)
      else None)"

definition getgrgid :: "user_manager \<Rightarrow> u32 \<Rightarrow> string option" where
  "getgrgid um gid =
     (if gid = um_gid um
      then Some (um_group_name um @ '':x:'' @ decimal (unat (um_gid um)) @ '':'' @ um_username um)
      else if gid \<in> set (um_supplementary_gids um)
      then Some (''group'' @ decimal (unat gid) @ '':x:'' @ decimal (unat gid) @ '':'' @ um_username um)
      else None)"

lemma fold_add_new:
  "set (fold (\<lambda>g acc. if g \<in> set acc then acc else acc @ [g]) gids acc) = set acc \<union> set gids"
  "distinct acc \<Longrightarrow> distinct (fold (\<lambda>g acc. if g \<in> set acc then acc else acc @ [g]) gids acc)"
  "acc \<noteq> [] \<Longrightarrow> hd (fold (\<lambda>g acc. if g \<in> set acc then acc else acc @ [g]) gids acc) = hd acc"
  by (induction gids arbitrary: acc) auto

lemma normalize_gids:
  "set (normalize_supplementary_gids gid gids) = insert gid (set gids)"
  "distinct (normalize_supplementary_gids gid gids)"
  "hd (normalize_supplementary_gids gid gids) = gid"
  using fold_add_new [of gids "[gid]"] fold_add_new(2) [of "[gid]" gids] fold_add_new(3) [of "[gid]" gids]
  by (simp_all add: normalize_supplementary_gids_def)

section \<open>Properties\<close>

text \<open>
  The user database is closed under the identity it hands out: the groups of a configured user are
  its primary group followed by the configured ones without repetition, every one of them has a group
  entry and no other id has one, and the effective ids default to the real ones.
\<close>

theorem user_groups_resolve:
  "um = from_config config \<Longrightarrow>
    hd (getgroups um) = um_gid um \<and> distinct (getgroups um) \<and>
    set (getgroups um) = insert (um_gid um) (set (cfg_supplementary_gids config)) \<and>
    (\<forall>gid. (getgrgid um gid \<noteq> None) = (gid \<in> set (id_supplementary_gids (identity um)))) \<and>
    (\<forall>uid. (getpwuid um uid \<noteq> None) = (uid = id_uid (identity um))) \<and>
    (cfg_euid config = None \<longrightarrow> id_euid (identity um) = id_uid (identity um))"
  by (simp add: from_config_def Let_def getgroups_def getgrgid_def getpwuid_def identity_def normalize_gids
      unwrap_or_def)

theorem user_groups_resolve_witness:
  "set (getgroups (from_config (default_user_config\<lparr>cfg_supplementary_gids := [7, 7]\<rparr>))) = {1000, 7}"
  using user_groups_resolve [OF refl, of "default_user_config\<lparr>cfg_supplementary_gids := [7, 7]\<rparr>"]
  by (simp add: from_config_def default_user_config_def unwrap_or_def Let_def)

end
