(* ===== verification/Process_Table.thy ===== *)
theory Process_Table
  imports BTree_Map Signals User "HOL-Library.Code_Target_Nat"
begin

text \<open>
  The process table of \<open>crates/kernel/src/process_table.rs\<close>: registration, signals, process groups and
  sessions, exit, zombies and their reaper, and the wait calls.  A driver process is a handle; every
  \<open>kill\<close> the table sends to a driver is appended to the log \<open>pt_kills\<close>, and the exit a driver reports is a
  call of \<open>mark_exited\<close> of its own.  \<open>pt_exit_calls\<close> logs the calls of the exit callback and \<open>pt_wakeups\<close>
  counts the calls of \<open>notify_all\<close>.  The mutex makes each locked section atomic; a call that locks several
  times is modelled as one step.  Clock readings and the answers of \<open>DriverProcess::wait\<close> are arguments.
\<close>

unbundle bit_operations_syntax

section \<open>State\<close>

definition ZOMBIE_TTL :: nat where "ZOMBIE_TTL = 60000"
definition INIT_PID :: u32 where "INIT_PID = 1"
definition DEFAULT_PROCESS_UMASK :: u32 where "DEFAULT_PROCESS_UMASK = 18"

datatype process_status = Running | Stopped | Exited

datatype sigmask_how = Block | Unblock | Set_mask

datatype wait_event = Exited_event | Stopped_event | Continued_event

record wait_result =
  wr_pid :: u32
  wr_status :: int
  wr_event :: wait_event

record process_fds =
  pf_stdin :: u32
  pf_stdout :: u32
  pf_stderr :: u32

record process_context =
  ctx_pid :: u32
  ctx_ppid :: u32
  ctx_env :: "(string, string) btreemap"
  ctx_cwd :: string
  ctx_umask :: u32
  ctx_fds :: process_fds
  ctx_identity :: process_identity
  ctx_blocked_signals :: signal_set
  ctx_pending_signals :: signal_set

definition default_context :: process_context where
  "default_context =
     \<lparr>ctx_pid = 0, ctx_ppid = 0, ctx_env = bt_empty, ctx_cwd = ''/'', ctx_umask = DEFAULT_PROCESS_UMASK,
      ctx_fds = \<lparr>pf_stdin = 0, pf_stdout = 1, pf_stderr = 2\<rparr>, ctx_identity = default_identity,
      ctx_blocked_signals = 0, ctx_pending_signals = 0\<rparr>"

record process_entry =
  pe_pid :: u32
  pe_ppid :: u32
  pe_pgid :: u32
  pe_sid :: u32
  pe_driver :: string
  pe_command :: string
  pe_args :: "string list"
  pe_status :: process_status
  pe_exit_code :: "int option"
  pe_exit_time_ms :: "u64 option"
  pe_env :: "(string, string) btreemap"
  pe_cwd :: string
  pe_umask :: u32
  pe_identity :: process_identity

record process_info =
  pi_pid :: u32
  pi_ppid :: u32
  pi_pgid :: u32
  pi_sid :: u32
  pi_driver :: string
  pi_command :: string
  pi_status :: process_status
  pi_exit_code :: "int option"
  pi_identity :: process_identity

record pending_wait_event =
  we_status :: int
  we_event :: wait_event

type_synonym driver_handle = nat

record process_record =
  rec_entry :: process_entry
  rec_driver :: driver_handle
  rec_wait_events :: "pending_wait_event list"
  rec_blocked :: signal_set
  rec_pending :: signal_set

record delivery =
  d_pid :: u32
  d_signal :: int
  d_status :: process_status
  d_driver :: driver_handle

datatype wait_selector = Any_child | Child_pid u32 | Process_group u32

record process_table =
  pt_entries :: "(u32, process_record) btreemap"
  pt_next_pid :: u32
  pt_zombie_ttl :: nat
  pt_terminating_all :: bool
  pt_exit_callback :: bool
  pt_deadlines :: "(u32, nat) btreemap"
  pt_kills :: "(driver_handle \<times> int) list"
  pt_exit_calls :: "u32 list"
  pt_wakeups :: nat

definition new_process_table :: process_table where
  "new_process_table =
     \<lparr>pt_entries = bt_empty, pt_next_pid = 1, pt_zombie_ttl = ZOMBIE_TTL, pt_terminating_all = False,
      pt_exit_callback = False, pt_deadlines = bt_empty, pt_kills = [], pt_exit_calls = [], pt_wakeups = 0\<rparr>"

definition with_zombie_ttl :: "nat \<Rightarrow> process_table" where
  "with_zombie_ttl ttl = new_process_table\<lparr>pt_zombie_ttl := ttl\<rparr>"

definition set_on_process_exit :: "bool \<Rightarrow> process_table \<Rightarrow> process_table" where
  "set_on_process_exit callback st = st\<lparr>pt_exit_callback := callback\<rparr>"

abbreviation status_of :: "process_record \<Rightarrow> process_status" where
  "status_of r \<equiv> pe_status (rec_entry r)"

definition map_entry :: "(process_entry \<Rightarrow> process_entry) \<Rightarrow> process_record \<Rightarrow> process_record" where
  "map_entry f r = r\<lparr>rec_entry := f (rec_entry r)\<rparr>"

definition put_record :: "u32 \<Rightarrow> process_record \<Rightarrow> process_table \<Rightarrow> process_table" where
  "put_record pid r st = st\<lparr>pt_entries := bt_insert pid r (pt_entries st)\<rparr>"

definition notify_all :: "process_table \<Rightarrow> process_table" where
  "notify_all st = st\<lparr>pt_wakeups := Suc (pt_wakeups st)\<rparr>"

section \<open>The zombie reaper's schedule\<close>

definition reaper_schedule :: "u32 \<Rightarrow> nat \<Rightarrow> process_table \<Rightarrow> process_table" where
  "reaper_schedule pid deadline st = st\<lparr>pt_deadlines := bt_insert pid deadline (pt_deadlines st)\<rparr>"

definition reaper_cancel :: "u32 \<Rightarrow> process_table \<Rightarrow> process_table" where
  "reaper_cancel pid st = st\<lparr>pt_deadlines := bt_remove pid (pt_deadlines st)\<rparr>"

definition reaper_clear :: "process_table \<Rightarrow> process_table" where
  "reaper_clear st = st\<lparr>pt_deadlines := bt_empty\<rparr>"

definition zombie_timer_count :: "process_table \<Rightarrow> nat" where
  "zombie_timer_count st = bt_len (pt_deadlines st)"

text \<open>\<open>min_by_key\<close> over the deadlines in pid order: the first of the earliest ones.\<close>

fun earliest :: "(u32 \<times> nat) list \<Rightarrow> (u32 \<times> nat) option" where
  "earliest [] = None"
| "earliest (x # xs) =
     (case earliest xs of None \<Rightarrow> Some x | Some y \<Rightarrow> if snd y < snd x then Some y else Some x)"

definition take_next_due_pid :: "nat \<Rightarrow> process_table \<Rightarrow> u32 option \<times> process_table" where
  "take_next_due_pid now st =
     (case earliest (bt_entries (pt_deadlines st)) of
        None \<Rightarrow> (None, st)
      | Some (pid, deadline) \<Rightarrow>
          if deadline \<le> now then (Some pid, reaper_cancel pid st) else (None, st))"

section \<open>Registration and queries\<close>

definition allocate_pid :: "process_table \<Rightarrow> u32 \<times> process_table" where
  "allocate_pid st = (pt_next_pid st, st\<lparr>pt_next_pid := pt_next_pid st + 1\<rparr>)"

definition new_entry ::
  "u32 \<Rightarrow> u32 \<Rightarrow> u32 \<Rightarrow> string \<Rightarrow> string \<Rightarrow> string list \<Rightarrow> process_context \<Rightarrow> process_entry" where
  "new_entry pid pgid sid driver command args ctx =
     \<lparr>pe_pid = pid, pe_ppid = ctx_ppid ctx, pe_pgid = pgid, pe_sid = sid, pe_driver = driver,
      pe_command = command, pe_args = args, pe_status = Running, pe_exit_code = None,
      pe_exit_time_ms = None, pe_env = ctx_env ctx, pe_cwd = ctx_cwd ctx,
      pe_umask = ctx_umask ctx AND 511, pe_identity = ctx_identity ctx\<rparr>"

definition new_record :: "process_entry \<Rightarrow> driver_handle \<Rightarrow> process_context \<Rightarrow> process_record" where
  "new_record entry driver_process ctx =
     \<lparr>rec_entry = entry, rec_driver = driver_process, rec_wait_events = [],
      rec_blocked = ctx_blocked_signals ctx, rec_pending = ctx_pending_signals ctx\<rparr>"

definition register ::
  "u32 \<Rightarrow> string \<Rightarrow> string \<Rightarrow> string list \<Rightarrow> process_context \<Rightarrow> driver_handle \<Rightarrow> process_table \<Rightarrow>
     process_entry \<times> process_table" where
  "register pid driver command args ctx driver_process st =
     (let (pgid, sid) = (case bt_get (pt_entries st) (ctx_ppid ctx) of
            Some parent \<Rightarrow> (pe_pgid (rec_entry parent), pe_sid (rec_entry parent))
          | None \<Rightarrow> (pid, pid));
          entry = new_entry pid pgid sid driver command args ctx
      in (entry, put_record pid (new_record entry driver_process ctx) st))"

definition get_process :: "u32 \<Rightarrow> process_table \<Rightarrow> process_entry option" where
  "get_process pid st = map_option rec_entry (bt_get (pt_entries st) pid)"

definition running_count :: "process_table \<Rightarrow> nat" where
  "running_count st = length (filter (\<lambda>r. status_of r = Running) (bt_values (pt_entries st)))"

definition getpgid :: "u32 \<Rightarrow> process_table \<Rightarrow> process_error + u32" where
  "getpgid pid st = ok_or (map_option pe_pgid (get_process pid st)) (No_such_process pid)"

definition getsid :: "u32 \<Rightarrow> process_table \<Rightarrow> process_error + u32" where
  "getsid pid st = ok_or (map_option pe_sid (get_process pid st)) (No_such_process pid)"

definition getppid :: "u32 \<Rightarrow> process_table \<Rightarrow> process_error + u32" where
  "getppid pid st = ok_or (map_option pe_ppid (get_process pid st)) (No_such_process pid)"

definition get_umask :: "u32 \<Rightarrow> process_table \<Rightarrow> process_error + u32" where
  "get_umask pid st = ok_or (map_option pe_umask (get_process pid st)) (No_such_process pid)"

definition set_umask :: "u32 \<Rightarrow> u32 \<Rightarrow> process_table \<Rightarrow> (process_error + u32) \<times> process_table" where
  "set_umask pid umask st =
     (case bt_get (pt_entries st) pid of
        None \<Rightarrow> (Inl (No_such_process pid), st)
      | Some r \<Rightarrow> (Inr (pe_umask (rec_entry r)),
                   put_record pid (map_entry (\<lambda>e. e\<lparr>pe_umask := umask AND 511\<rparr>) r) st))"

definition has_process_group :: "u32 \<Rightarrow> process_table \<Rightarrow> bool" where
  "has_process_group pgid st \<longleftrightarrow>
     list_ex (\<lambda>r. pe_pgid (rec_entry r) = pgid \<and> status_of r \<noteq> Exited) (bt_values (pt_entries st))"

definition to_process_info :: "process_entry \<Rightarrow> process_info" where
  "to_process_info e =
     \<lparr>pi_pid = pe_pid e, pi_ppid = pe_ppid e, pi_pgid = pe_pgid e, pi_sid = pe_sid e,
      pi_driver = pe_driver e, pi_command = pe_command e, pi_status = pe_status e,
      pi_exit_code = pe_exit_code e, pi_identity = pe_identity e\<rparr>"

definition list_processes :: "process_table \<Rightarrow> (u32, process_info) btreemap" where
  "list_processes st =
     fold (\<lambda>r. bt_insert (pe_pid (rec_entry r)) (to_process_info (rec_entry r))) (bt_values (pt_entries st)) bt_empty"

section \<open>Process groups and sessions\<close>

text \<open>
  The scan of \<open>setpgid\<close> over the table: the first live member of the target group decides.
\<close>

fun check_group :: "u32 \<Rightarrow> u32 \<Rightarrow> process_record list \<Rightarrow> process_error + unit" where
  "check_group target sid [] =
     Inl (Process_permission_denied (''no such process group '' @ decimal (unat target)))"
| "check_group target sid (r # rs) =
     (if pe_pgid (rec_entry r) \<noteq> target \<or> status_of r = Exited then check_group target sid rs
      else if pe_sid (rec_entry r) \<noteq> sid
      then Inl (Process_permission_denied ''cannot join process group in different session'')
      else Inr ())"

definition setpgid :: "u32 \<Rightarrow> u32 \<Rightarrow> process_table \<Rightarrow> (process_error + unit) \<times> process_table" where
  "setpgid pid pgid st =
     (case bt_get (pt_entries st) pid of
        None \<Rightarrow> (Inl (No_such_process pid), st)
      | Some r \<Rightarrow>
          let target = (if pgid = 0 then pid else pgid);
              check = (if target \<noteq> pid then check_group target (pe_sid (rec_entry r)) (bt_values (pt_entries st))
                       else Inr ())
          in (case check of
                Inl e \<Rightarrow> (Inl e, st)
              | Inr _ \<Rightarrow> (Inr (), put_record pid (map_entry (\<lambda>e. e\<lparr>pe_pgid := target\<rparr>) r) st)))"

definition setsid :: "u32 \<Rightarrow> process_table \<Rightarrow> (process_error + u32) \<times> process_table" where
  "setsid pid st =
     (case bt_get (pt_entries st) pid of
        None \<Rightarrow> (Inl (No_such_process pid), st)
      | Some r \<Rightarrow>
          if pe_pgid (rec_entry r) = pid
          then (Inl (Process_permission_denied (''process '' @ decimal (unat pid) @ '' is already a process group leader'')), st)
          else (Inr pid, put_record pid (map_entry (\<lambda>e. e\<lparr>pe_sid := pid, pe_pgid := pid\<rparr>) r) st))"

section \<open>Signals\<close>

definition schedule :: "process_record \<Rightarrow> int \<Rightarrow> delivery" where
  "schedule r signal =
     \<lparr>d_pid = pe_pid (rec_entry r), d_signal = signal, d_status = status_of r, d_driver = rec_driver r\<rparr>"

definition queue_or_schedule_signal ::
  "process_record \<Rightarrow> int \<Rightarrow> process_error + delivery option \<times> process_record" where
  "queue_or_schedule_signal r signal =
     (if signal_can_be_blocked signal \<and> sig_contains (rec_blocked r) signal
      then and_then (sig_insert signal (rec_pending r)) (\<lambda>p. Inr (None, r\<lparr>rec_pending := p\<rparr>))
      else Inr (Some (schedule r signal), r))"

fun collect_signal_deliveries ::
  "u32 list \<Rightarrow> int \<Rightarrow> process_table \<Rightarrow> process_error + delivery list \<times> process_table" where
  "collect_signal_deliveries [] signal st = Inr ([], st)"
| "collect_signal_deliveries (pid # pids) signal st =
     (case bt_get (pt_entries st) pid of
        None \<Rightarrow> collect_signal_deliveries pids signal st
      | Some r \<Rightarrow>
          and_then (queue_or_schedule_signal r signal) (\<lambda>(d, r').
          and_then (collect_signal_deliveries pids signal (put_record pid r' st)) (\<lambda>(ds, st').
          Inr ((case d of None \<Rightarrow> ds | Some x \<Rightarrow> x # ds), st'))))"

fun collect_pending_signal_deliveries ::
  "int list \<Rightarrow> process_record \<Rightarrow> process_error + delivery list \<times> process_record" where
  "collect_pending_signal_deliveries [] r = Inr ([], r)"
| "collect_pending_signal_deliveries (signal # rest) r =
     and_then (sig_remove signal (rec_pending r)) (\<lambda>p.
     and_then (collect_pending_signal_deliveries rest (r\<lparr>rec_pending := p\<rparr>)) (\<lambda>(ds, r').
     Inr (schedule r signal # ds, r')))"

text \<open>
  A signal the kernel sends on its own account (\<open>SIGCHLD\<close>, \<open>SIGHUP\<close>, \<open>SIGCONT\<close>); the source unwraps the
  result with \<open>expect\<close>, and \<open>queue_never_fails\<close> below shows that there is always one.
\<close>

definition kernel_signal :: "u32 \<Rightarrow> int \<Rightarrow> process_table \<Rightarrow> delivery list \<times> process_table" where
  "kernel_signal pid signal st =
     (case bt_get (pt_entries st) pid of
        None \<Rightarrow> ([], st)
      | Some r \<Rightarrow>
          (case queue_or_schedule_signal r signal of
             Inl _ \<Rightarrow> ([], st)
           | Inr (d, r') \<Rightarrow> ((case d of None \<Rightarrow> [] | Some x \<Rightarrow> [x]), put_record pid r' st)))"

text \<open>The parent of a process that changed state gets \<open>SIGCHLD\<close> when it is running.\<close>

definition signal_parent :: "u32 \<Rightarrow> process_table \<Rightarrow> delivery list \<times> process_table" where
  "signal_parent ppid st =
     (case bt_get (pt_entries st) ppid of
        None \<Rightarrow> ([], st)
      | Some parent \<Rightarrow> if status_of parent = Running then kernel_signal ppid SIGCHLD st else ([], st))"

definition stopped_by :: "delivery list \<Rightarrow> (u32 \<times> int) list" where
  "stopped_by ds =
     map (\<lambda>d. (d_pid d, d_signal d))
       (filter (\<lambda>d. (d_signal d = SIGSTOP \<or> d_signal d = SIGTSTP) \<and> d_status d = Running) ds)"

definition continued_by :: "delivery list \<Rightarrow> u32 list" where
  "continued_by ds = map d_pid (filter (\<lambda>d. d_signal d = SIGCONT \<and> d_status d = Stopped) ds)"

definition log_kills :: "delivery list \<Rightarrow> process_table \<Rightarrow> process_table" where
  "log_kills ds st = st\<lparr>pt_kills := pt_kills st @ map (\<lambda>d. (d_driver d, d_signal d)) ds\<rparr>"

definition enter_status ::
  "u32 \<Rightarrow> process_record \<Rightarrow> process_status \<Rightarrow> pending_wait_event \<Rightarrow> process_table \<Rightarrow> process_table" where
  "enter_status pid r next_status event st =
     put_record pid ((map_entry (\<lambda>e. e\<lparr>pe_status := next_status\<rparr>) r)
       \<lparr>rec_wait_events := rec_wait_events r @ [event]\<rparr>) st"

text \<open>
  \<open>deliver_signals\<close> and \<open>mark_wait_event_inner\<close> call each other: a delivered stop or continue signal
  changes the target's status, which sends \<open>SIGCHLD\<close> to its parent.
\<close>

definition changes_status :: "delivery \<Rightarrow> bool" where
  "changes_status d \<longleftrightarrow> d_signal d = SIGSTOP \<or> d_signal d = SIGTSTP \<or> d_signal d = SIGCONT"

lemma queue_signal: "queue_or_schedule_signal r signal = Inr (Some d, r') \<Longrightarrow> d_signal d = signal"
  by (auto simp: queue_or_schedule_signal_def schedule_def err_simps split: if_splits)

lemma signal_parent_signals: "(ds, st1) = signal_parent ppid st \<Longrightarrow> \<forall>d \<in> set ds. d_signal d = SIGCHLD"
  by (auto simp: signal_parent_def kernel_signal_def split: option.splits if_splits sum.splits dest: queue_signal)

lemma changes_status_nonempty:
  "p \<in> set (stopped_by ds) \<Longrightarrow> filter changes_status ds \<noteq> []"
  "pid \<in> set (continued_by ds) \<Longrightarrow> filter changes_status ds \<noteq> []"
  by (auto simp: stopped_by_def continued_by_def filter_empty_conv changes_status_def)

function deliver_signals :: "delivery list \<Rightarrow> process_table \<Rightarrow> process_table"
  and mark_wait_event :: "u32 \<Rightarrow> process_status \<Rightarrow> pending_wait_event \<Rightarrow> process_table \<Rightarrow> process_table" where
  "deliver_signals ds st =
     fold (\<lambda>pid. mark_wait_event pid Running \<lparr>we_status = SIGCONT, we_event = Continued_event\<rparr>) (continued_by ds)
       (fold (\<lambda>p. mark_wait_event (fst p) Stopped \<lparr>we_status = snd p, we_event = Stopped_event\<rparr>) (stopped_by ds)
         (log_kills ds st))"
| "mark_wait_event pid next_status event st =
     (case bt_get (pt_entries st) pid of
        None \<Rightarrow> st
      | Some r \<Rightarrow>
          if status_of r = Exited \<or> status_of r = next_status then st
          else
            let (ds, st1) = signal_parent (pe_ppid (rec_entry r)) (enter_status pid r next_status event st)
            in notify_all (deliver_signals ds st1))"
  by pat_completeness auto

termination
proof (relation "measure (\<lambda>x. case x of Inl (ds, _) \<Rightarrow> 2 * length (filter changes_status ds) | Inr _ \<Rightarrow> 1)")
  fix pid next_status event st r x ds st1
  assume "x = signal_parent (pe_ppid (rec_entry r)) (enter_status pid r next_status event st)" "(ds, st1) = x"
  then have "\<forall>d \<in> set ds. d_signal d = SIGCHLD" using signal_parent_signals by blast
  then have "filter changes_status ds = []" by (auto simp: filter_empty_conv changes_status_def sig_consts)
  then show "(Inl (ds, st1), Inr (pid, next_status, event, st)) \<in>
      measure (\<lambda>x. case x of Inl (ds, _) \<Rightarrow> 2 * length (filter changes_status ds) | Inr _ \<Rightarrow> 1)" by simp
qed (use changes_status_nonempty in \<open>auto simp: Suc_lessI\<close>)

declare deliver_signals.simps [simp del] mark_wait_event.simps [simp del]

definition mark_stopped :: "u32 \<Rightarrow> int \<Rightarrow> process_table \<Rightarrow> process_table" where
  "mark_stopped pid signal st = mark_wait_event pid Stopped \<lparr>we_status = signal, we_event = Stopped_event\<rparr> st"

definition mark_continued :: "u32 \<Rightarrow> process_table \<Rightarrow> process_table" where
  "mark_continued pid st = mark_wait_event pid Running \<lparr>we_status = SIGCONT, we_event = Continued_event\<rparr> st"

text \<open>\<open>kill\<close>: a negative pid addresses a process group; signal 0 only tests for existence.\<close>

definition group_members :: "u32 \<Rightarrow> process_table \<Rightarrow> u32 list" where
  "group_members pgid st =
     map (\<lambda>r. pe_pid (rec_entry r)) (filter (\<lambda>r. pe_pgid (rec_entry r) = pgid) (bt_values (pt_entries st)))"

definition kill :: "int \<Rightarrow> int \<Rightarrow> process_table \<Rightarrow> (process_error + unit) \<times> process_table" where
  "kill pid signal st =
     (if \<not> (0 \<le> signal \<and> signal \<le> MAX_SIGNAL) then (Inl (Invalid_signal signal), st)
      else if pid < 0 then
        let pgid = of_int (- pid); grouped = group_members pgid st
        in if grouped = [] then (Inl (No_such_process_group pgid), st)
           else (case collect_signal_deliveries grouped signal st of
                   Inl e \<Rightarrow> (Inl e, st)
                 | Inr (ds, st') \<Rightarrow> (Inr (), if signal = 0 then st' else deliver_signals ds st'))
      else
        let upid = of_int pid
        in (case bt_get (pt_entries st) upid of
              None \<Rightarrow> (Inl (No_such_process upid), st)
            | Some r \<Rightarrow>
                if status_of r = Exited \<or> signal = 0 then (Inr (), st)
                else (case collect_signal_deliveries [upid] signal st of
                        Inl e \<Rightarrow> (Inl e, st)
                      | Inr (ds, st') \<Rightarrow> (Inr (), deliver_signals ds st'))))"

definition new_mask :: "sigmask_how \<Rightarrow> signal_set \<Rightarrow> signal_set \<Rightarrow> signal_set" where
  "new_mask how previous s =
     (case how of Block \<Rightarrow> sig_union previous s | Unblock \<Rightarrow> sig_difference previous s | Set_mask \<Rightarrow> s)"

definition sigprocmask ::
  "u32 \<Rightarrow> sigmask_how \<Rightarrow> signal_set \<Rightarrow> process_table \<Rightarrow> (process_error + signal_set) \<times> process_table" where
  "sigprocmask pid how s st =
     (case bt_get (pt_entries st) pid of
        None \<Rightarrow> (Inl (No_such_process pid), st)
      | Some r \<Rightarrow>
          let r1 = r\<lparr>rec_blocked := new_mask how (rec_blocked r) s\<rparr>;
              unblocked_pending = sig_difference (rec_pending r1) (rec_blocked r1)
          in (case collect_pending_signal_deliveries (signals unblocked_pending) r1 of
                Inl e \<Rightarrow> (Inl e, put_record pid r1 st)
              | Inr (ds, r2) \<Rightarrow> (Inr (rec_blocked r), deliver_signals ds (put_record pid r2 st))))"

definition sigpending :: "u32 \<Rightarrow> process_table \<Rightarrow> process_error + signal_set" where
  "sigpending pid st = ok_or (map_option rec_pending (bt_get (pt_entries st) pid)) (No_such_process pid)"

section \<open>Exit\<close>

definition reparent_target_pid :: "u32 \<Rightarrow> process_table \<Rightarrow> u32" where
  "reparent_target_pid exiting st =
     (if exiting \<noteq> INIT_PID \<and>
         (case bt_get (pt_entries st) INIT_PID of None \<Rightarrow> False | Some r \<Rightarrow> status_of r \<noteq> Exited)
      then INIT_PID else 0)"

definition reparent_children_to_init :: "u32 \<Rightarrow> process_table \<Rightarrow> u32 list \<times> process_table" where
  "reparent_children_to_init exiting st =
     (let new_parent = reparent_target_pid exiting st
      in (map (\<lambda>r. pe_pgid (rec_entry r))
            (filter (\<lambda>r. pe_ppid (rec_entry r) = exiting) (bt_values (pt_entries st))),
          st\<lparr>pt_entries := bt_map (\<lambda>_ r. if pe_ppid (rec_entry r) = exiting
               then map_entry (\<lambda>e. e\<lparr>pe_ppid := new_parent\<rparr>) r else r) (pt_entries st)\<rparr>))"

definition has_parent_outside_group_in_same_session :: "process_table \<Rightarrow> process_entry \<Rightarrow> bool" where
  "has_parent_outside_group_in_same_session st e \<longleftrightarrow>
     pe_ppid e \<noteq> 0 \<and> pe_ppid e \<noteq> INIT_PID \<and>
     (case bt_get (pt_entries st) (pe_ppid e) of
        None \<Rightarrow> False
      | Some parent \<Rightarrow> status_of parent \<noteq> Exited \<and> pe_sid (rec_entry parent) = pe_sid e \<and>
          pe_pgid (rec_entry parent) \<noteq> pe_pgid e)"

definition process_group_is_orphaned :: "process_table \<Rightarrow> u32 \<Rightarrow> bool" where
  "process_group_is_orphaned st pgid \<longleftrightarrow>
     (let members = filter (\<lambda>r. pe_pgid (rec_entry r) = pgid \<and> status_of r \<noteq> Exited) (bt_values (pt_entries st))
      in members \<noteq> [] \<and> \<not> list_ex (\<lambda>r. has_parent_outside_group_in_same_session st (rec_entry r)) members)"

definition process_group_has_stopped_member :: "process_table \<Rightarrow> u32 \<Rightarrow> bool" where
  "process_group_has_stopped_member st pgid \<longleftrightarrow>
     list_ex (\<lambda>r. pe_pgid (rec_entry r) = pgid \<and> status_of r = Stopped) (bt_values (pt_entries st))"

definition collect_orphaned_group_signal_targets :: "u32 list \<Rightarrow> process_table \<Rightarrow> u32 list" where
  "collect_orphaned_group_signal_targets pgids st =
     concat (map (\<lambda>pgid.
       if \<not> process_group_is_orphaned st pgid \<or> \<not> process_group_has_stopped_member st pgid then []
       else map (\<lambda>r. pe_pid (rec_entry r))
         (filter (\<lambda>r. pe_pgid (rec_entry r) = pgid \<and> status_of r \<noteq> Exited) (bt_values (pt_entries st)))) pgids)"

fun signal_orphans :: "u32 list \<Rightarrow> process_table \<Rightarrow> delivery list \<times> process_table" where
  "signal_orphans [] st = ([], st)"
| "signal_orphans (pid # pids) st =
     (let (hup, st1) = kernel_signal pid SIGHUP st; (cont, st2) = kernel_signal pid SIGCONT st1;
          (ds, st3) = signal_orphans pids st2
      in (hup @ cont @ ds, st3))"

text \<open>
  The signals an exit causes: \<open>SIGCHLD\<close> to the running parent (unless everything is being terminated),
  then \<open>SIGHUP\<close> and \<open>SIGCONT\<close> to the members of the groups the exit leaves orphaned with a stopped member.
\<close>

definition exit_signals :: "u32 \<Rightarrow> u32 list \<Rightarrow> process_table \<Rightarrow> delivery list \<times> process_table" where
  "exit_signals ppid affected_pgids st =
     (let targets = collect_orphaned_group_signal_targets affected_pgids st;
          (parent_ds, st1) = (if \<not> pt_terminating_all st then signal_parent ppid st else ([], st));
          (orphan_ds, st2) = signal_orphans targets st1
      in (parent_ds @ orphan_ds, st2))"

definition finish_exit :: "u32 \<Rightarrow> nat \<Rightarrow> delivery list \<Rightarrow> process_table \<Rightarrow> process_table" where
  "finish_exit pid now deliveries st =
     (let st1 = (if \<not> pt_terminating_all st then reaper_schedule pid (now + pt_zombie_ttl st) st
                 else reaper_cancel pid st);
          st2 = deliver_signals deliveries st1;
          st3 = (if pt_exit_callback st then st2\<lparr>pt_exit_calls := pt_exit_calls st2 @ [pid]\<rparr> else st2)
      in notify_all st3)"

definition mark_exited :: "u32 \<Rightarrow> int \<Rightarrow> nat \<Rightarrow> u64 \<Rightarrow> process_table \<Rightarrow> process_table" where
  "mark_exited pid exit_code now now_ms st =
     (case bt_get (pt_entries st) pid of
        None \<Rightarrow> st
      | Some r \<Rightarrow>
          if status_of r = Exited then st
          else
            let st1 = put_record pid (map_entry (\<lambda>e. e\<lparr>pe_status := Exited, pe_exit_code := Some exit_code,
                        pe_exit_time_ms := Some now_ms\<rparr>) r) st;
                (child_pgids, st2) = reparent_children_to_init pid st1;
                affected_pgids = sort (remdups (pe_pgid (rec_entry r) # child_pgids));
                (deliveries, st3) = exit_signals (pe_ppid (rec_entry r)) affected_pgids st2
            in finish_exit pid now deliveries st3)"

section \<open>Waiting and reaping\<close>

text \<open>One pass of \<open>waitpid\<close>; \<^term>\<open>None\<close> when the caller waits.\<close>

definition waitpid :: "u32 \<Rightarrow> process_table \<Rightarrow> (process_error + u32 \<times> int) option \<times> process_table" where
  "waitpid pid st =
     (case bt_get (pt_entries st) pid of
        None \<Rightarrow> (Some (Inl (No_such_process pid)), st)
      | Some r \<Rightarrow>
          if status_of r = Exited then
            (Some (Inr (pid, case pe_exit_code (rec_entry r) of None \<Rightarrow> 0 | Some c \<Rightarrow> c)),
             notify_all (reaper_cancel pid (st\<lparr>pt_entries := bt_remove pid (pt_entries st)\<rparr>)))
          else (None, st))"

definition resolve_wait_selector :: "process_table \<Rightarrow> u32 \<Rightarrow> int \<Rightarrow> process_error + wait_selector" where
  "resolve_wait_selector st waiter_pid pid =
     and_then (ok_or (bt_get (pt_entries st) waiter_pid) (No_such_process waiter_pid)) (\<lambda>waiter.
     Inr (if pid = - 1 then Any_child
          else if pid = 0 then Process_group (pe_pgid (rec_entry waiter))
          else if pid < - 1 then Process_group (of_int (- pid))
          else Child_pid (of_int pid)))"

fun selects :: "wait_selector \<Rightarrow> process_entry \<Rightarrow> bool" where
  "selects Any_child e = True"
| "selects (Child_pid pid) e = (pe_pid e = pid)"
| "selects (Process_group pgid) e = (pe_pgid e = pgid)"

definition matching_child_pids :: "process_table \<Rightarrow> u32 \<Rightarrow> wait_selector \<Rightarrow> u32 list" where
  "matching_child_pids st waiter_pid selector =
     map (\<lambda>r. pe_pid (rec_entry r))
       (filter (\<lambda>r. pe_ppid (rec_entry r) = waiter_pid \<and> selects selector (rec_entry r)) (bt_values (pt_entries st)))"

definition is_waitable_event :: "u32 \<Rightarrow> wait_event \<Rightarrow> bool" where
  "is_waitable_event flags event =
     (case event of
        Exited_event \<Rightarrow> True
      | Stopped_event \<Rightarrow> flags_contain flags WUNTRACED
      | Continued_event \<Rightarrow> flags_contain flags WCONTINUED)"

text \<open>The first waitable event of a queue, and the queue without it.\<close>

fun take_event :: "u32 \<Rightarrow> pending_wait_event list \<Rightarrow> (pending_wait_event \<times> pending_wait_event list) option" where
  "take_event flags [] = None"
| "take_event flags (e # es) =
     (if is_waitable_event flags (we_event e) then Some (e, es)
      else map_option (\<lambda>(x, rest). (x, e # rest)) (take_event flags es))"

fun take_waitable_event :: "u32 list \<Rightarrow> u32 \<Rightarrow> process_table \<Rightarrow> wait_result option \<times> process_table" where
  "take_waitable_event [] flags st = (None, st)"
| "take_waitable_event (pid # pids) flags st =
     (case bt_get (pt_entries st) pid of
        None \<Rightarrow> (None, st)
      | Some r \<Rightarrow>
          (case take_event flags (rec_wait_events r) of
             Some (e, rest) \<Rightarrow>
               (Some \<lparr>wr_pid = pid, wr_status = we_status e, wr_event = we_event e\<rparr>,
                put_record pid (r\<lparr>rec_wait_events := rest\<rparr>) st)
           | None \<Rightarrow>
               if status_of r = Exited then
                 (Some \<lparr>wr_pid = pid, wr_status = (case pe_exit_code (rec_entry r) of None \<Rightarrow> 0 | Some c \<Rightarrow> c),
                        wr_event = Exited_event\<rparr>,
                  st\<lparr>pt_entries := bt_remove pid (pt_entries st)\<rparr>)
               else take_waitable_event pids flags st))"

definition waitpid_for ::
  "u32 \<Rightarrow> int \<Rightarrow> u32 \<Rightarrow> process_table \<Rightarrow> (process_error + wait_result option) option \<times> process_table" where
  "waitpid_for waiter_pid pid flags st =
     (case resolve_wait_selector st waiter_pid pid of
        Inl e \<Rightarrow> (Some (Inl e), st)
      | Inr selector \<Rightarrow>
          let children = matching_child_pids st waiter_pid selector
          in if children = [] then (Some (Inl (No_matching_child waiter_pid pid)), st)
             else (case take_waitable_event children flags st of
                     (Some result, st') \<Rightarrow>
                       (Some (Inr (Some result)),
                        if wr_event result = Exited_event then notify_all (reaper_cancel (wr_pid result) st') else st')
                   | (None, st') \<Rightarrow>
                       if flags_contain flags WNOHANG then (Some (Inr None), st') else (None, st')))"

definition has_living_parent :: "process_table \<Rightarrow> u32 \<Rightarrow> bool" where
  "has_living_parent st ppid \<longleftrightarrow>
     ppid \<noteq> 0 \<and> (case bt_get (pt_entries st) ppid of None \<Rightarrow> False | Some r \<Rightarrow> status_of r \<noteq> Exited)"

text \<open>One round of the reaper thread.\<close>

definition reap :: "nat \<Rightarrow> process_table \<Rightarrow> process_table" where
  "reap now st =
     (case take_next_due_pid now st of
        (None, st') \<Rightarrow> st'
      | (Some pid, st') \<Rightarrow>
          notify_all
            (case bt_get (pt_entries st') pid of
               None \<Rightarrow> st'
             | Some r \<Rightarrow>
                 if status_of r = Exited then
                   if \<not> has_living_parent st' (pe_ppid (rec_entry r))
                   then st'\<lparr>pt_entries := bt_remove pid (pt_entries st')\<rparr>
                   else reaper_schedule pid (now + pt_zombie_ttl st') st'
                 else st'))"

text \<open>
  \<open>terminate_all\<close>, with the answers of the drivers to the two rounds of \<open>wait\<close> and the clock readings of
  the exits as arguments.
\<close>

definition running_processes :: "process_table \<Rightarrow> (u32 \<times> driver_handle) list" where
  "running_processes st =
     map (\<lambda>r. (pe_pid (rec_entry r), rec_driver r))
       (filter (\<lambda>r. status_of r = Running) (bt_values (pt_entries st)))"

definition kill_and_wait ::
  "int \<Rightarrow> (driver_handle \<Rightarrow> int option) \<Rightarrow> nat \<Rightarrow> u64 \<Rightarrow> (u32 \<times> driver_handle) list \<Rightarrow> process_table \<Rightarrow> process_table" where
  "kill_and_wait signal answer now now_ms targets st =
     fold (\<lambda>(pid, driver) s. case answer driver of None \<Rightarrow> s | Some code \<Rightarrow> mark_exited pid code now now_ms s) targets
       (st\<lparr>pt_kills := pt_kills st @ map (\<lambda>(_, driver). (driver, signal)) targets\<rparr>)"

definition terminate_all ::
  "(driver_handle \<Rightarrow> int option) \<Rightarrow> (driver_handle \<Rightarrow> int option) \<Rightarrow> nat \<Rightarrow> u64 \<Rightarrow> process_table \<Rightarrow> process_table" where
  "terminate_all answer1 answer2 now now_ms st =
     (let st1 = reaper_clear (st\<lparr>pt_terminating_all := True\<rparr>);
          running = running_processes st1;
          st2 = kill_and_wait SIGTERM answer1 now now_ms running st1;
          survivors = filter (\<lambda>(pid, _). case bt_get (pt_entries st2) pid of
              None \<Rightarrow> False | Some r \<Rightarrow> status_of r = Running) running;
          st3 = kill_and_wait SIGKILL answer2 now now_ms survivors st2
      in st3\<lparr>pt_terminating_all := False\<rparr>)"

section \<open>What signal delivery changes\<close>

text \<open>
  Signals change a record only in its status, between running and stopped, in its queue of wait events
  and in its pending set, which only grows by blocked signals.  \<open>sig_step\<close> is this frame for a whole
  table; the kernel's signal machinery is inside it.
\<close>

definition rec_step :: "process_record \<Rightarrow> process_record \<Rightarrow> bool" where
  "rec_step r r' \<longleftrightarrow>
     rec_driver r' = rec_driver r \<and> rec_blocked r' = rec_blocked r \<and>
     (\<exists>s. rec_entry r' = (rec_entry r)\<lparr>pe_status := s\<rparr> \<and> (s = Exited \<longleftrightarrow> status_of r = Exited)) \<and>
     sigs (rec_pending r) \<subseteq> sigs (rec_pending r') \<and>
     sigs (rec_pending r') \<subseteq> sigs (rec_pending r) \<union> sigs (rec_blocked r)"

definition sig_step :: "process_table \<Rightarrow> process_table \<Rightarrow> bool" where
  "sig_step st st' \<longleftrightarrow>
     (\<forall>pid. rel_option rec_step (bt_get (pt_entries st) pid) (bt_get (pt_entries st') pid)) \<and>
     pt_next_pid st' = pt_next_pid st \<and> pt_zombie_ttl st' = pt_zombie_ttl st \<and>
     pt_terminating_all st' = pt_terminating_all st \<and> pt_exit_callback st' = pt_exit_callback st \<and>
     pt_deadlines st' = pt_deadlines st \<and> pt_exit_calls st' = pt_exit_calls st"

lemma put_record_sel [simp]:
  "bt_get (pt_entries (put_record pid r st)) q = (if q = pid then Some r else bt_get (pt_entries st) q)"
  "pt_next_pid (put_record pid r st) = pt_next_pid st" "pt_zombie_ttl (put_record pid r st) = pt_zombie_ttl st"
  "pt_terminating_all (put_record pid r st) = pt_terminating_all st"
  "pt_exit_callback (put_record pid r st) = pt_exit_callback st" "pt_deadlines (put_record pid r st) = pt_deadlines st"
  "pt_kills (put_record pid r st) = pt_kills st" "pt_exit_calls (put_record pid r st) = pt_exit_calls st"
  by (simp_all add: put_record_def)

lemma notify_all_sel [simp]:
  "pt_entries (notify_all st) = pt_entries st" "pt_next_pid (notify_all st) = pt_next_pid st"
  "pt_zombie_ttl (notify_all st) = pt_zombie_ttl st" "pt_terminating_all (notify_all st) = pt_terminating_all st"
  "pt_exit_callback (notify_all st) = pt_exit_callback st" "pt_deadlines (notify_all st) = pt_deadlines st"
  "pt_kills (notify_all st) = pt_kills st" "pt_exit_calls (notify_all st) = pt_exit_calls st"
  by (simp_all add: notify_all_def)

lemma log_kills_sel [simp]:
  "pt_entries (log_kills ds st) = pt_entries st" "pt_next_pid (log_kills ds st) = pt_next_pid st"
  "pt_zombie_ttl (log_kills ds st) = pt_zombie_ttl st" "pt_terminating_all (log_kills ds st) = pt_terminating_all st"
  "pt_exit_callback (log_kills ds st) = pt_exit_callback st" "pt_deadlines (log_kills ds st) = pt_deadlines st"
  "pt_exit_calls (log_kills ds st) = pt_exit_calls st"
  "pt_kills (log_kills ds st) = pt_kills st @ map (\<lambda>d. (d_driver d, d_signal d)) ds"
  by (simp_all add: log_kills_def)

lemma map_entry_sel [simp]:
  "rec_entry (map_entry f r) = f (rec_entry r)" "rec_driver (map_entry f r) = rec_driver r"
  "rec_wait_events (map_entry f r) = rec_wait_events r" "rec_blocked (map_entry f r) = rec_blocked r"
  "rec_pending (map_entry f r) = rec_pending r"
  by (simp_all add: map_entry_def)

lemma rec_step_refl [simp]: "rec_step r r"
  unfolding rec_step_def by (auto intro!: exI [of _ "status_of r"])

lemma rec_step_trans: "rec_step r s \<Longrightarrow> rec_step s t \<Longrightarrow> rec_step r t"
  unfolding rec_step_def by fastforce

lemma sig_step_refl [simp]: "sig_step st st"
  by (simp add: sig_step_def option.rel_refl)

lemma sig_step_trans: "sig_step a b \<Longrightarrow> sig_step b c \<Longrightarrow> sig_step a c"
  unfolding sig_step_def by (smt (verit) option.rel_cases option.rel_inject(2) option.rel_intros(1) rec_step_trans
    option.distinct(1) option.sel)

lemma sig_step_notify [simp]: "sig_step st (notify_all st') = sig_step st st'"
  by (simp add: sig_step_def)

lemma sig_step_log [simp]: "sig_step st (log_kills ds st') = sig_step st st'"
  by (simp add: sig_step_def)

lemma sig_step_put:
  assumes "bt_get (pt_entries st) pid = Some r" "rec_step r r'"
  shows "sig_step st (put_record pid r' st)"
  using assms by (auto simp: sig_step_def option.rel_refl)

lemma sig_step_get:
  assumes "sig_step st st'" "bt_get (pt_entries st) pid = Some r"
  obtains r' where "bt_get (pt_entries st') pid = Some r'" "rec_step r r'"
  using assms by (metis (no_types, lifting) option.rel_cases option.distinct(1) option.inject sig_step_def)

lemma sig_step_get':
  assumes "sig_step st st'" "bt_get (pt_entries st') pid = Some r'"
  obtains r where "bt_get (pt_entries st) pid = Some r" "rec_step r r'"
  using assms by (metis (no_types, lifting) option.rel_cases option.distinct(1) option.inject sig_step_def)

lemma sig_contains_range: "sig_contains s n \<Longrightarrow> 1 \<le> n \<and> n \<le> 64"
  by (simp add: sig_contains_iff)

text \<open>A signal is recorded as pending or handed to the driver; neither fails.\<close>

lemma queue_never_fails:
  obtains (pending) p where "queue_or_schedule_signal r signal = Inr (None, r\<lparr>rec_pending := p\<rparr>)"
      "signal_can_be_blocked signal" "signal \<in> sigs (rec_blocked r)" "sigs p = insert signal (sigs (rec_pending r))"
  | (scheduled) "queue_or_schedule_signal r signal = Inr (Some (schedule r signal), r)"
      "\<not> (signal_can_be_blocked signal \<and> signal \<in> sigs (rec_blocked r))"
proof (cases "signal_can_be_blocked signal \<and> sig_contains (rec_blocked r) signal")
  case True
  then obtain p where "sig_insert signal (rec_pending r) = Inr p" "sigs p = insert signal (sigs (rec_pending r))"
    using sig_insert_eq sig_contains_range by metis
  with True pending show ?thesis by (simp add: queue_or_schedule_signal_def sigs_def)
next
  case False
  then show ?thesis using scheduled by (auto simp: queue_or_schedule_signal_def sigs_def)
qed

lemma queue_step: "queue_or_schedule_signal r signal = Inr (d, r') \<Longrightarrow> rec_step r r'"
  by (cases rule: queue_never_fails [of r signal]) (auto simp: rec_step_def intro!: exI [of _ "status_of r"])

lemma sig_step_kernel_signal: "sig_step st (snd (kernel_signal pid signal st))"
  by (auto simp: kernel_signal_def split: option.splits sum.splits intro: sig_step_put queue_step)

lemma sig_step_signal_parent: "sig_step st (snd (signal_parent ppid st))"
  by (simp add: signal_parent_def sig_step_kernel_signal split: option.splits)

lemma sig_step_enter_status:
  assumes "bt_get (pt_entries st) pid = Some r" "status_of r \<noteq> Exited" "s \<noteq> Exited"
  shows "sig_step st (enter_status pid r s event st)"
  unfolding enter_status_def by (rule sig_step_put [OF assms(1)]) (use assms in \<open>auto simp: rec_step_def\<close>)

lemma sig_step_fold:
  "(\<And>x st. x \<in> set xs \<Longrightarrow> sig_step st (f x st)) \<Longrightarrow> sig_step st (fold f xs st)"
proof (induction xs arbitrary: st)
  case (Cons x xs)
  then show ?case using sig_step_trans [of st "f x st" "fold f xs (f x st)"] by simp
qed simp

lemma sig_step_deliver_mark:
  "sig_step st (deliver_signals ds st)"
  "s \<noteq> Exited \<Longrightarrow> sig_step st' (mark_wait_event pid s event st')"
proof (induction ds st and pid s event st' rule: deliver_signals_mark_wait_event.induct)
  case (1 ds st)
  let ?st1 = "fold (\<lambda>p. mark_wait_event (fst p) Stopped \<lparr>we_status = snd p, we_event = Stopped_event\<rparr>)
      (stopped_by ds) (log_kills ds st)"
  have "sig_step (log_kills ds st) ?st1" by (rule sig_step_fold) (auto intro!: 1)
  then have a: "sig_step st ?st1" using sig_step_trans [of st "log_kills ds st"] by simp
  have "sig_step ?st1 (fold (\<lambda>pid. mark_wait_event pid Running \<lparr>we_status = SIGCONT, we_event = Continued_event\<rparr>)
      (continued_by ds) ?st1)"
    by (rule sig_step_fold) (auto intro!: 1)
  with a show ?case by (subst deliver_signals.simps) (rule sig_step_trans)
next
  case (2 pid s event st)
  show ?case
  proof (cases "bt_get (pt_entries st) pid")
    case None
    then show ?thesis by (subst mark_wait_event.simps) simp
  next
    case (Some r)
    show ?thesis
    proof (cases "status_of r = Exited \<or> status_of r = s")
      case True
      with Some show ?thesis by (subst mark_wait_event.simps) simp
    next
      case False
      obtain ds st1 where sp: "signal_parent (pe_ppid (rec_entry r)) (enter_status pid r s event st) = (ds, st1)"
        by fastforce
      have "sig_step st (enter_status pid r s event st)"
        using Some False 2(2) by (intro sig_step_enter_status) auto
      moreover have "sig_step (enter_status pid r s event st) st1"
        using sig_step_signal_parent [of "enter_status pid r s event st" "pe_ppid (rec_entry r)"] by (simp add: sp)
      moreover have "sig_step st1 (deliver_signals ds st1)"
        by (rule 2(1) [OF Some False refl]) (simp add: sp)
      ultimately have "sig_step st (deliver_signals ds st1)" by (blast intro: sig_step_trans)
      with Some False sp show ?thesis by (subst mark_wait_event.simps) auto
    qed
  qed
qed

lemmas sig_step_deliver = sig_step_deliver_mark(1)
lemmas sig_step_mark = sig_step_deliver_mark(2)

lemma collect_signal_deliveries_step:
  "\<exists>ds st'. collect_signal_deliveries pids signal st = Inr (ds, st') \<and> sig_step st st'"
proof (induction pids arbitrary: st)
  case Nil
  then show ?case by simp
next
  case (Cons pid pids)
  show ?case
  proof (cases "bt_get (pt_entries st) pid")
    case None
    with Cons show ?thesis by simp
  next
    case (Some r)
    obtain d r' where q: "queue_or_schedule_signal r signal = Inr (d, r')"
      by (cases rule: queue_never_fails [of r signal]) auto
    obtain ds st' where c: "collect_signal_deliveries pids signal (put_record pid r' st) = Inr (ds, st')"
      and s: "sig_step (put_record pid r' st) st'" using Cons.IH by blast
    have "sig_step st st'" using sig_step_trans [OF sig_step_put [OF Some queue_step [OF q]] s] .
    with Some q c show ?thesis by auto
  qed
qed

lemma sig_step_kill: "sig_step st (snd (kill pid signal st))"
proof -
  have c: "sig_step st st' \<and> sig_step st (deliver_signals ds st')"
    if "collect_signal_deliveries pids signal st = Inr (ds, st')" for pids ds st'
    using collect_signal_deliveries_step [of pids signal st] that sig_step_trans [OF _ sig_step_deliver] by auto
  show ?thesis
    using c by (auto simp: kill_def Let_def simp del: collect_signal_deliveries.simps split: option.splits sum.splits)
qed

lemma signal_orphans_step: "sig_step st (snd (signal_orphans pids st))"
proof (induction pids arbitrary: st)
  case (Cons pid pids)
  let ?a = "kernel_signal pid SIGHUP st"
  let ?b = "kernel_signal pid SIGCONT (snd ?a)"
  have "sig_step st (snd ?a)" "sig_step (snd ?a) (snd ?b)" "sig_step (snd ?b) (snd (signal_orphans pids (snd ?b)))"
    by (rule sig_step_kernel_signal Cons.IH)+
  then have "sig_step st (snd (signal_orphans pids (snd ?b)))" by (blast intro: sig_step_trans)
  then show ?case by (simp add: case_prod_unfold Let_def)
qed simp

section \<open>The process tree\<close>

definition alive :: "process_table \<Rightarrow> u32 \<Rightarrow> bool" where
  "alive st pid \<longleftrightarrow> (\<exists>r. bt_get (pt_entries st) pid = Some r \<and> status_of r \<noteq> Exited)"

definition record_ok :: "process_table \<Rightarrow> u32 \<Rightarrow> process_record \<Rightarrow> bool" where
  "record_ok st pid r \<longleftrightarrow>
     pe_pid (rec_entry r) = pid \<and> pid \<noteq> 0 \<and> pid < pt_next_pid st \<and> pe_pgid (rec_entry r) < pt_next_pid st \<and>
     (pe_ppid (rec_entry r) = 0 \<or> alive st (pe_ppid (rec_entry r))) \<and>
     sigs (rec_pending r) \<subseteq> sigs (rec_blocked r) \<and>
     (status_of r = Exited \<longleftrightarrow> pe_exit_code (rec_entry r) \<noteq> None)"

definition proc_ok :: "process_table \<Rightarrow> bool" where
  "proc_ok st \<longleftrightarrow> (\<forall>pid r. bt_get (pt_entries st) pid = Some r \<longrightarrow> record_ok st pid r)"

lemma rec_step_status: "rec_step r r' \<Longrightarrow> status_of r' = Exited \<longleftrightarrow> status_of r = Exited"
  by (auto simp: rec_step_def)

lemma sig_step_alive: "sig_step st st' \<Longrightarrow> alive st' pid = alive st pid"
proof -
  assume "sig_step st st'"
  then have "rel_option rec_step (bt_get (pt_entries st) pid) (bt_get (pt_entries st') pid)"
    by (simp add: sig_step_def)
  then show ?thesis by (cases rule: option.rel_cases) (auto simp: alive_def rec_step_status)
qed

lemma proc_ok_sig_step:
  assumes "proc_ok st" "sig_step st st'"
  shows "proc_ok st'"
  unfolding proc_ok_def
proof (intro allI impI)
  fix pid r'
  assume "bt_get (pt_entries st') pid = Some r'"
  with assms(2) obtain r where r: "bt_get (pt_entries st) pid = Some r" "rec_step r r'" by (rule sig_step_get')
  with assms(1) have ok: "record_ok st pid r" by (simp add: proc_ok_def)
  have "pt_next_pid st' = pt_next_pid st" using assms(2) by (simp add: sig_step_def)
  with ok r(2) show "record_ok st' pid r'"
    by (auto simp: record_ok_def rec_step_def sig_step_alive [OF assms(2)])
qed

lemma proc_ok_frame:
  assumes "proc_ok st" "pt_entries st' = pt_entries st" "pt_next_pid st' = pt_next_pid st"
  shows "proc_ok st'"
  using assms by (auto simp: proc_ok_def record_ok_def alive_def)

text \<open>A record may be replaced by one with the same status, parent and exit code.\<close>

lemma proc_ok_put:
  assumes "proc_ok st" "bt_get (pt_entries st) pid = Some r"
    and "pe_pid (rec_entry r') = pe_pid (rec_entry r)" "pe_ppid (rec_entry r') = pe_ppid (rec_entry r)"
    and "pe_status (rec_entry r') = status_of r" "pe_exit_code (rec_entry r') = pe_exit_code (rec_entry r)"
    and "pe_pgid (rec_entry r') < pt_next_pid st" "sigs (rec_pending r') \<subseteq> sigs (rec_blocked r')"
  shows "proc_ok (put_record pid r' st)"
proof -
  have "alive (put_record pid r' st) q = alive st q" for q
    using assms(2,5) by (auto simp: alive_def)
  with assms show ?thesis by (auto simp: proc_ok_def record_ok_def)
qed

text \<open>Only a zombie is ever removed, and nobody is the child of a zombie.\<close>

lemma proc_ok_remove:
  assumes "proc_ok st" "bt_get (pt_entries st) pid = Some r" "status_of r = Exited"
    and "pt_entries st' = bt_remove pid (pt_entries st)" "pt_next_pid st' = pt_next_pid st"
  shows "proc_ok st'"
proof -
  have "alive st' q = alive st q" for q using assms(2-4) by (auto simp: alive_def)
  with assms show ?thesis by (auto simp: proc_ok_def record_ok_def)
qed

lemma collect_pending_result:
  assumes "set sgs \<subseteq> {1..64}"
  shows "\<exists>p. collect_pending_signal_deliveries sgs r =
      Inr (map (schedule r) sgs, r\<lparr>rec_pending := p\<rparr>) \<and> sigs p = sigs (rec_pending r) - set sgs"
  using assms
proof (induction sgs arbitrary: r)
  case Nil
  then show ?case by (auto intro: exI [of _ "rec_pending r"])
next
  case (Cons s sgs)
  then obtain p where p: "sig_remove s (rec_pending r) = Inr p" "sigs p = sigs (rec_pending r) - {s}"
    using sig_remove_eq [of s "rec_pending r"] by auto
  obtain q where "collect_pending_signal_deliveries sgs (r\<lparr>rec_pending := p\<rparr>) =
      Inr (map (schedule r) sgs, r\<lparr>rec_pending := q\<rparr>)" "sigs q = sigs p - set sgs"
    using Cons.IH [of "r\<lparr>rec_pending := p\<rparr>"] Cons.prems by (auto simp: schedule_def)
  with p show ?case by auto
qed

text \<open>\<open>sigprocmask\<close> hands over exactly the pending signals that the new mask lets through.\<close>

lemma sigprocmask_result:
  assumes "bt_get (pt_entries st) pid = Some r" "m = new_mask how (rec_blocked r) s"
  shows "\<exists>p. sigprocmask pid how s st =
      (Inr (rec_blocked r), deliver_signals (map (schedule r) (signals (sig_difference (rec_pending r) m)))
         (put_record pid (r\<lparr>rec_blocked := m, rec_pending := p\<rparr>) st)) \<and>
    sigs p = sigs (rec_pending r) \<inter> sigs m"
proof -
  let ?r = "r\<lparr>rec_blocked := m\<rparr>" and ?u = "sig_difference (rec_pending r) m"
  obtain p where "collect_pending_signal_deliveries (signals ?u) ?r = Inr (map (schedule ?r) (signals ?u), ?r\<lparr>rec_pending := p\<rparr>)"
    "sigs p = sigs (rec_pending r) - sigs ?u"
    using collect_pending_result [of "signals ?u" ?r] sigs_range [of ?u] by (auto simp: set_signals)
  moreover have "schedule ?r = schedule r" by (simp add: schedule_def fun_eq_iff)
  ultimately show ?thesis using assms by (auto simp: sigprocmask_def Let_def)
qed

lemma proc_ok_sigprocmask:
  assumes "proc_ok st"
  shows "proc_ok (snd (sigprocmask pid how s st))"
proof (cases "bt_get (pt_entries st) pid")
  case None
  with assms show ?thesis by (simp add: sigprocmask_def)
next
  case (Some r)
  from sigprocmask_result [OF Some refl, of how s] obtain p where
    run: "sigprocmask pid how s st = (Inr (rec_blocked r),
      deliver_signals (map (schedule r) (signals (sig_difference (rec_pending r) (new_mask how (rec_blocked r) s))))
         (put_record pid (r\<lparr>rec_blocked := new_mask how (rec_blocked r) s, rec_pending := p\<rparr>) st))"
    and p: "sigs p = sigs (rec_pending r) \<inter> sigs (new_mask how (rec_blocked r) s)" by blast
  have "pe_pgid (rec_entry r) < pt_next_pid st" using assms Some by (auto simp: proc_ok_def record_ok_def)
  then have "proc_ok (put_record pid (r\<lparr>rec_blocked := new_mask how (rec_blocked r) s, rec_pending := p\<rparr>) st)"
    by (intro proc_ok_put [OF assms Some]) (simp_all add: p)
  then show ?thesis unfolding run by (simp add: proc_ok_sig_step [OF _ sig_step_deliver])
qed

text \<open>Exit: the state after the process is marked and its children have a new parent.\<close>

definition exited_state :: "u32 \<Rightarrow> process_record \<Rightarrow> int \<Rightarrow> u64 \<Rightarrow> process_table \<Rightarrow> process_table" where
  "exited_state pid r exit_code now_ms st =
     snd (reparent_children_to_init pid
       (put_record pid (map_entry (\<lambda>e. e\<lparr>pe_status := Exited, pe_exit_code := Some exit_code,
          pe_exit_time_ms := Some now_ms\<rparr>) r) st))"

lemma exited_state_get:
  "bt_get (pt_entries (exited_state pid r c t st)) q =
     (let r0 = (if q = pid then Some (map_entry (\<lambda>e. e\<lparr>pe_status := Exited, pe_exit_code := Some c,
          pe_exit_time_ms := Some t\<rparr>) r) else bt_get (pt_entries st) q);
          np = reparent_target_pid pid (put_record pid (map_entry (\<lambda>e. e\<lparr>pe_status := Exited, pe_exit_code := Some c,
          pe_exit_time_ms := Some t\<rparr>) r) st)
      in map_option (\<lambda>x. if pe_ppid (rec_entry x) = pid then map_entry (\<lambda>e. e\<lparr>pe_ppid := np\<rparr>) x else x) r0)"
  by (simp add: exited_state_def reparent_children_to_init_def Let_def)

lemma exited_state_sel [simp]:
  "pt_next_pid (exited_state pid r c t st) = pt_next_pid st"
  "pt_zombie_ttl (exited_state pid r c t st) = pt_zombie_ttl st"
  "pt_terminating_all (exited_state pid r c t st) = pt_terminating_all st"
  "pt_exit_callback (exited_state pid r c t st) = pt_exit_callback st"
  "pt_deadlines (exited_state pid r c t st) = pt_deadlines st"
  "pt_kills (exited_state pid r c t st) = pt_kills st"
  "pt_exit_calls (exited_state pid r c t st) = pt_exit_calls st"
  by (simp_all add: exited_state_def reparent_children_to_init_def Let_def)

lemma alive_exited_state:
  "alive (exited_state pid r c t st) q \<longleftrightarrow> q \<noteq> pid \<and> alive st q"
  by (cases "bt_get (pt_entries st) q") (auto simp: alive_def exited_state_get Let_def)

lemma reparent_target:
  "reparent_target_pid pid (put_record pid x st) = 0 \<or>
   reparent_target_pid pid (put_record pid x st) \<noteq> pid \<and> alive st (reparent_target_pid pid (put_record pid x st))"
  by (auto simp: reparent_target_pid_def alive_def split: option.splits)

lemma proc_ok_exited_state:
  assumes "proc_ok st" "bt_get (pt_entries st) pid = Some r"
  shows "proc_ok (exited_state pid r c t st)"
  unfolding proc_ok_def
proof (intro allI impI)
  fix q x
  assume x: "bt_get (pt_entries (exited_state pid r c t st)) q = Some x"
  let ?r = "map_entry (\<lambda>e. e\<lparr>pe_status := Exited, pe_exit_code := Some c, pe_exit_time_ms := Some t\<rparr>) r"
  define np where "np = reparent_target_pid pid (put_record pid ?r st)"
  define y where "y = (if q = pid then ?r else the (bt_get (pt_entries st) q))"
  have xy: "x = (if pe_ppid (rec_entry y) = pid then map_entry (\<lambda>e. e\<lparr>pe_ppid := np\<rparr>) y else y)"
    using x by (auto simp: exited_state_get Let_def np_def y_def split: if_splits)
  have "record_ok st q (if q = pid then r else y)"
    using x assms by (auto simp: exited_state_get Let_def y_def proc_ok_def split: if_splits)
  moreover have "np = 0 \<or> np \<noteq> pid \<and> alive st np" unfolding np_def by (rule reparent_target)
  ultimately show "record_ok (exited_state pid r c t st) q x"
    by (cases "q = pid"; cases "pe_ppid (rec_entry y) = pid")
       (simp_all add: record_ok_def alive_exited_state xy, simp_all add: y_def)
qed

lemma sig_step_exit_signals: "sig_step st (snd (exit_signals ppid pgids st))"
proof -
  let ?p = "if \<not> pt_terminating_all st then signal_parent ppid st else ([], st)"
  let ?o = "signal_orphans (collect_orphaned_group_signal_targets pgids st) (snd ?p)"
  have "sig_step st (snd ?p)" using sig_step_signal_parent by simp
  moreover have "sig_step (snd ?p) (snd ?o)" by (rule signal_orphans_step)
  ultimately have "sig_step st (snd ?o)" by (rule sig_step_trans)
  then show ?thesis by (simp add: exit_signals_def Let_def case_prod_unfold)
qed

lemma finish_exit_steps:
  obtains st' where "sig_step st st'" "pt_entries (finish_exit pid now ds st) = pt_entries st'"
    "pt_next_pid (finish_exit pid now ds st) = pt_next_pid st"
    "pt_terminating_all (finish_exit pid now ds st) = pt_terminating_all st"
    "pt_deadlines (finish_exit pid now ds st) =
       (if pt_terminating_all st then bt_remove pid (pt_deadlines st)
        else bt_insert pid (now + pt_zombie_ttl st) (pt_deadlines st))"
    "pt_exit_calls (finish_exit pid now ds st) = pt_exit_calls st @ (if pt_exit_callback st then [pid] else [])"
proof -
  define st1 where "st1 = (if \<not> pt_terminating_all st then reaper_schedule pid (now + pt_zombie_ttl st) st
                 else reaper_cancel pid st)"
  let ?d = "deliver_signals ds st1"
  have s: "sig_step st1 ?d" by (rule sig_step_deliver)
  have fr: "pt_entries st1 = pt_entries st" "pt_next_pid st1 = pt_next_pid st" "pt_zombie_ttl st1 = pt_zombie_ttl st"
    "pt_terminating_all st1 = pt_terminating_all st" "pt_exit_callback st1 = pt_exit_callback st"
    "pt_exit_calls st1 = pt_exit_calls st"
    "pt_deadlines st1 = (if pt_terminating_all st then bt_remove pid (pt_deadlines st)
        else bt_insert pid (now + pt_zombie_ttl st) (pt_deadlines st))"
    by (simp_all add: st1_def reaper_schedule_def reaper_cancel_def)
  have run: "finish_exit pid now ds st =
      notify_all (if pt_exit_callback st then ?d\<lparr>pt_exit_calls := pt_exit_calls ?d @ [pid]\<rparr> else ?d)"
    by (simp add: finish_exit_def st1_def Let_def)
  have "sig_step st (?d\<lparr>pt_deadlines := pt_deadlines st\<rparr>)"
    using s by (simp add: sig_step_def fr)
  then show thesis
    using s by (intro that [of "?d\<lparr>pt_deadlines := pt_deadlines st\<rparr>"]) (simp_all add: run sig_step_def fr)
qed

lemma mark_exited_steps:
  assumes "bt_get (pt_entries st) pid = Some r" "status_of r \<noteq> Exited"
  obtains st' where "sig_step (exited_state pid r c t st) st'"
    "pt_entries (mark_exited pid c now t st) = pt_entries st'"
    "pt_next_pid (mark_exited pid c now t st) = pt_next_pid st"
    "pt_terminating_all (mark_exited pid c now t st) = pt_terminating_all st"
    "pt_deadlines (mark_exited pid c now t st) =
       (if pt_terminating_all st then bt_remove pid (pt_deadlines st)
        else bt_insert pid (now + pt_zombie_ttl st) (pt_deadlines st))"
    "pt_exit_calls (mark_exited pid c now t st) = pt_exit_calls st @ (if pt_exit_callback st then [pid] else [])"
proof -
  let ?st2 = "exited_state pid r c t st"
  obtain pg where rp: "reparent_children_to_init pid (put_record pid (map_entry (\<lambda>e. e\<lparr>pe_status := Exited,
      pe_exit_code := Some c, pe_exit_time_ms := Some t\<rparr>) r) st) = (pg, ?st2)"
    by (metis exited_state_def prod.collapse)
  obtain ds st3 where ex: "exit_signals (pe_ppid (rec_entry r)) (sort (remdups (pe_pgid (rec_entry r) # pg))) ?st2
      = (ds, st3)" by fastforce
  have s3: "sig_step ?st2 st3" using sig_step_exit_signals ex by (metis snd_conv)
  have run: "mark_exited pid c now t st = finish_exit pid now ds st3"
    unfolding mark_exited_def using assms by (simp del: remdups.simps add: rp ex)
  obtain st' where f: "sig_step st3 st'" "pt_entries (finish_exit pid now ds st3) = pt_entries st'"
    "pt_next_pid (finish_exit pid now ds st3) = pt_next_pid st3"
    "pt_terminating_all (finish_exit pid now ds st3) = pt_terminating_all st3"
    "pt_deadlines (finish_exit pid now ds st3) =
       (if pt_terminating_all st3 then bt_remove pid (pt_deadlines st3)
        else bt_insert pid (now + pt_zombie_ttl st3) (pt_deadlines st3))"
    "pt_exit_calls (finish_exit pid now ds st3) = pt_exit_calls st3 @ (if pt_exit_callback st3 then [pid] else [])"
    by (rule finish_exit_steps)
  have "sig_step ?st2 st'" using s3 f(1) by (rule sig_step_trans)
  then show thesis using s3 f by (intro that [of st']) (simp_all add: run sig_step_def)
qed

lemma mark_exited_idle:
  "bt_get (pt_entries st) pid = None \<Longrightarrow> mark_exited pid c now t st = st"
  "bt_get (pt_entries st) pid = Some r \<Longrightarrow> status_of r = Exited \<Longrightarrow> mark_exited pid c now t st = st"
  by (simp_all add: mark_exited_def)

lemma proc_ok_mark_exited:
  assumes "proc_ok st"
  shows "proc_ok (mark_exited pid c now t st)"
proof (cases "\<exists>r. bt_get (pt_entries st) pid = Some r \<and> status_of r \<noteq> Exited")
  case True
  then obtain r where r: "bt_get (pt_entries st) pid = Some r" "status_of r \<noteq> Exited" by blast
  from r obtain st6 where s: "sig_step (exited_state pid r c t st) st6"
    "pt_entries (mark_exited pid c now t st) = pt_entries st6"
    "pt_next_pid (mark_exited pid c now t st) = pt_next_pid st"
    by (rule mark_exited_steps)
  have "proc_ok st6" using proc_ok_sig_step [OF proc_ok_exited_state [OF assms r(1)] s(1)] .
  moreover have "pt_next_pid st6 = pt_next_pid st" using s(1) by (simp add: sig_step_def)
  ultimately show ?thesis using proc_ok_frame [of st6] s by simp
next
  case False
  with assms show ?thesis by (cases "bt_get (pt_entries st) pid") (auto simp: mark_exited_idle)
qed

section \<open>Runs of the process table\<close>

datatype proc_event =
    Spawn string string "string list" process_context driver_handle
  | Kill int int
  | Sigprocmask u32 sigmask_how signal_set
  | Exit u32 int nat u64
  | Stop_report u32 int
  | Continue_report u32
  | Wait u32
  | Wait_for u32 int u32
  | Setpgid u32 u32
  | Setsid u32
  | Umask u32 u32
  | Reap nat
  | Terminate_all "driver_handle \<Rightarrow> int option" "driver_handle \<Rightarrow> int option" nat u64

fun proc_step :: "proc_event \<Rightarrow> process_table \<Rightarrow> process_table" where
  "proc_step (Spawn driver command args ctx handle) st =
     (let (pid, st1) = allocate_pid st in snd (register pid driver command args ctx handle st1))"
| "proc_step (Kill pid signal) st = snd (kill pid signal st)"
| "proc_step (Sigprocmask pid how s) st = snd (sigprocmask pid how s st)"
| "proc_step (Exit pid code now now_ms) st = mark_exited pid code now now_ms st"
| "proc_step (Stop_report pid signal) st = mark_stopped pid signal st"
| "proc_step (Continue_report pid) st = mark_continued pid st"
| "proc_step (Wait pid) st = snd (waitpid pid st)"
| "proc_step (Wait_for waiter pid flags) st = snd (waitpid_for waiter pid flags st)"
| "proc_step (Setpgid pid pgid) st = snd (setpgid pid pgid st)"
| "proc_step (Setsid pid) st = snd (setsid pid st)"
| "proc_step (Umask pid umask) st = snd (set_umask pid umask st)"
| "proc_step (Reap now) st = reap now st"
| "proc_step (Terminate_all answer1 answer2 now now_ms) st = terminate_all answer1 answer2 now now_ms st"

text \<open>
  A process is spawned under a living parent (or none) with no deliverable signal pending, while there
  are pids left; every other event is possible at any time.
\<close>

fun proc_enabled :: "proc_event \<Rightarrow> process_table \<Rightarrow> bool" where
  "proc_enabled (Spawn driver command args ctx handle) st =
     (pt_next_pid st \<noteq> - 1 \<and> pt_next_pid st \<noteq> 0 \<and>
      (ctx_ppid ctx = 0 \<or> (case bt_get (pt_entries st) (ctx_ppid ctx) of
         None \<Rightarrow> False | Some r \<Rightarrow> status_of r \<noteq> Exited)) \<and>
      sig_difference (ctx_pending_signals ctx) (ctx_blocked_signals ctx) = 0)"
| "proc_enabled _ st = True"

lemma proc_ok_simps [simp]:
  "proc_ok (st\<lparr>pt_deadlines := x\<rparr>) = proc_ok st" "proc_ok (st\<lparr>pt_kills := k\<rparr>) = proc_ok st"
  "proc_ok (st\<lparr>pt_terminating_all := b\<rparr>) = proc_ok st" "proc_ok (notify_all st) = proc_ok st"
  "proc_ok (reaper_cancel pid st) = proc_ok st" "proc_ok (reaper_schedule pid n st) = proc_ok st"
  "proc_ok (reaper_clear st) = proc_ok st"
  by (simp_all add: proc_ok_def record_ok_def alive_def reaper_cancel_def reaper_schedule_def reaper_clear_def)

lemma reaper_sel [simp]:
  "pt_entries (reaper_cancel pid st) = pt_entries st" "pt_entries (reaper_schedule pid n st) = pt_entries st"
  "pt_entries (reaper_clear st) = pt_entries st"
  "pt_next_pid (reaper_cancel pid st) = pt_next_pid st" "pt_next_pid (reaper_schedule pid n st) = pt_next_pid st"
  "pt_next_pid (reaper_clear st) = pt_next_pid st"
  by (simp_all add: reaper_cancel_def reaper_schedule_def reaper_clear_def)

lemma spawn_result:
  obtains r where "proc_step (Spawn driver command args ctx handle) st =
      put_record (pt_next_pid st) r (st\<lparr>pt_next_pid := pt_next_pid st + 1\<rparr>)"
    "pe_pid (rec_entry r) = pt_next_pid st" "pe_ppid (rec_entry r) = ctx_ppid ctx"
    "pe_status (rec_entry r) = Running" "pe_exit_code (rec_entry r) = None"
    "rec_pending r = ctx_pending_signals ctx" "rec_blocked r = ctx_blocked_signals ctx"
    "pe_pgid (rec_entry r) = (case bt_get (pt_entries st) (ctx_ppid ctx) of
       Some p \<Rightarrow> pe_pgid (rec_entry p) | None \<Rightarrow> pt_next_pid st)"
    "pe_sid (rec_entry r) = (case bt_get (pt_entries st) (ctx_ppid ctx) of
       Some p \<Rightarrow> pe_sid (rec_entry p) | None \<Rightarrow> pt_next_pid st)"
proof (cases "bt_get (pt_entries st) (ctx_ppid ctx)")
  case None
  show thesis
    by (rule that [of "new_record (new_entry (pt_next_pid st) (pt_next_pid st) (pt_next_pid st) driver command args ctx)
          handle ctx"]) (simp_all add: None allocate_pid_def register_def Let_def new_record_def new_entry_def)
next
  case (Some p)
  show thesis
    by (rule that [of "new_record (new_entry (pt_next_pid st) (pe_pgid (rec_entry p)) (pe_sid (rec_entry p)) driver
          command args ctx) handle ctx"]) (simp_all add: Some allocate_pid_def register_def Let_def new_record_def new_entry_def)
qed

lemma proc_ok_spawn:
  assumes ok: "proc_ok st" and en: "proc_enabled (Spawn driver command args ctx handle) st"
  shows "proc_ok (proc_step (Spawn driver command args ctx handle) st)"
proof -
  let ?pid = "pt_next_pid st" and ?st' = "proc_step (Spawn driver command args ctx handle) st"
  have lt: "?pid < ?pid + 1" using en less_succ_word by auto
  have old: "record_ok st q r" if "bt_get (pt_entries st) q = Some r" for q r
    using ok that by (simp add: proc_ok_def)
  have fresh: "bt_get (pt_entries st) ?pid = None"
    using old by (cases "bt_get (pt_entries st) ?pid") (auto simp: record_ok_def)
  obtain r where st': "?st' = put_record ?pid r (st\<lparr>pt_next_pid := ?pid + 1\<rparr>)"
    and r: "pe_pid (rec_entry r) = ?pid" "pe_ppid (rec_entry r) = ctx_ppid ctx" "pe_status (rec_entry r) = Running"
      "pe_exit_code (rec_entry r) = None" "rec_pending r = ctx_pending_signals ctx" "rec_blocked r = ctx_blocked_signals ctx"
      "pe_pgid (rec_entry r) = (case bt_get (pt_entries st) (ctx_ppid ctx) of
         Some p \<Rightarrow> pe_pgid (rec_entry p) | None \<Rightarrow> ?pid)"
    by (rule spawn_result)
  have get: "bt_get (pt_entries ?st') q = (if q = ?pid then Some r else bt_get (pt_entries st) q)" for q
    by (simp add: st' del: proc_step.simps)
  have nx: "pt_next_pid ?st' = ?pid + 1" by (simp add: st' del: proc_step.simps)
  have al: "alive ?st' q = (q = ?pid \<or> alive st q)" for q using r(3) fresh by (auto simp: alive_def get simp del: proc_step.simps)
  have "sigs (rec_pending r) - sigs (rec_blocked r) = {}"
    using en r(5,6) by (metis proc_enabled.simps(1) sigs_difference sigs_empty)
  moreover have "ctx_ppid ctx = 0 \<or> alive st (ctx_ppid ctx)" using en by (auto simp: alive_def split: option.splits)
  moreover have "pe_pgid (rec_entry r) < ?pid + 1"
    using r(7) old [of "ctx_ppid ctx"] lt by (auto simp: record_ok_def split: option.splits)
  ultimately have "record_ok ?st' ?pid r" using en lt r by (auto simp: record_ok_def nx al simp del: proc_step.simps)
  moreover have "record_ok ?st' q x" if "bt_get (pt_entries st) q = Some x" for q x
    using old [OF that] lt by (auto simp: record_ok_def nx al simp del: proc_step.simps)
  ultimately show ?thesis by (simp add: proc_ok_def get del: proc_step.simps)
qed

lemma take_event_rest:
  "take_event flags es = Some (e, rest) \<Longrightarrow> \<exists>pre post. es = pre @ e # post \<and> rest = pre @ post \<and>
     is_waitable_event flags (we_event e) \<and> (\<forall>x \<in> set pre. \<not> is_waitable_event flags (we_event x))"
proof (induction es arbitrary: rest)
  case (Cons x es)
  show ?case
  proof (cases "is_waitable_event flags (we_event x)")
    case True
    with Cons.prems show ?thesis by (intro exI [of _ "[]"] exI [of _ es]) auto
  next
    case False
    with Cons.prems obtain rest' where "take_event flags es = Some (e, rest')" "rest = x # rest'" by auto
    with Cons.IH False show ?thesis by (metis append_Cons set_ConsD)
  qed
qed simp

text \<open>What a wait call does to the table: it removes one queued event, or one zombie, or nothing.\<close>

lemma take_waitable_event_disj:
  "take_waitable_event pids flags st = (res, st') \<Longrightarrow>
     (res = None \<and> st' = st) \<or>
     (\<exists>pid r e rest. pid \<in> set pids \<and> bt_get (pt_entries st) pid = Some r \<and>
        take_event flags (rec_wait_events r) = Some (e, rest) \<and>
        res = Some \<lparr>wr_pid = pid, wr_status = we_status e, wr_event = we_event e\<rparr> \<and>
        st' = put_record pid (r\<lparr>rec_wait_events := rest\<rparr>) st) \<or>
     (\<exists>pid r. pid \<in> set pids \<and> bt_get (pt_entries st) pid = Some r \<and> status_of r = Exited \<and>
        res = Some \<lparr>wr_pid = pid, wr_status = (case pe_exit_code (rec_entry r) of None \<Rightarrow> 0 | Some c \<Rightarrow> c),
                    wr_event = Exited_event\<rparr> \<and>
        st' = st\<lparr>pt_entries := bt_remove pid (pt_entries st)\<rparr>)"
proof (induction pids flags st rule: take_waitable_event.induct)
  case (1 flags st)
  then show ?case by simp
next
  case (2 pid pids flags st)
  consider "bt_get (pt_entries st) pid = None"
    | r e rest where "bt_get (pt_entries st) pid = Some r" "take_event flags (rec_wait_events r) = Some (e, rest)"
    | (zombie) r where "bt_get (pt_entries st) pid = Some r" "take_event flags (rec_wait_events r) = None" "status_of r = Exited"
    | (later) r where "bt_get (pt_entries st) pid = Some r" "take_event flags (rec_wait_events r) = None" "status_of r \<noteq> Exited"
    by (metis option.exhaust prod.exhaust)
  then show ?case
  proof cases
    case later
    with "2.prems" have "take_waitable_event pids flags st = (res, st')" by simp
    from "2.IH" [OF later this] show ?thesis
      by (elim disjE exE conjE) (simp, (blast intro: list.set_intros(2))+)
  qed (use "2.prems" in auto)
qed

lemma take_waitable_event_cases:
  assumes "take_waitable_event pids flags st = (res, st')"
  obtains (nothing) "res = None" "st' = st"
  | (event) pid r e rest where "pid \<in> set pids" "bt_get (pt_entries st) pid = Some r"
      "take_event flags (rec_wait_events r) = Some (e, rest)"
      "res = Some \<lparr>wr_pid = pid, wr_status = we_status e, wr_event = we_event e\<rparr>"
      "st' = put_record pid (r\<lparr>rec_wait_events := rest\<rparr>) st"
  | (zombie) pid r where "pid \<in> set pids" "bt_get (pt_entries st) pid = Some r" "status_of r = Exited"
      "res = Some \<lparr>wr_pid = pid, wr_status = (case pe_exit_code (rec_entry r) of None \<Rightarrow> 0 | Some c \<Rightarrow> c),
                   wr_event = Exited_event\<rparr>"
      "st' = st\<lparr>pt_entries := bt_remove pid (pt_entries st)\<rparr>"
  using take_waitable_event_disj [OF assms] by (elim disjE exE conjE)

lemma proc_ok_take_waitable:
  assumes ok: "proc_ok st" and run: "take_waitable_event pids flags st = (res, st')"
  shows "proc_ok st'"
  using run
proof (cases rule: take_waitable_event_cases)
  case (event pid r e rest)
  then have "record_ok st pid r" using ok by (simp add: proc_ok_def)
  then show ?thesis unfolding event(5) by (intro proc_ok_put [OF ok event(2)]) (auto simp: record_ok_def)
next
  case (zombie pid r)
  then show ?thesis using proc_ok_remove [OF ok zombie(2,3), of st'] by simp
qed (use ok in simp)

lemma proc_ok_waitpid_for:
  assumes ok: "proc_ok st"
  shows "proc_ok (snd (waitpid_for waiter pid flags st))"
proof (cases "resolve_wait_selector st waiter pid")
  case (Inl e)
  with ok show ?thesis by (simp add: waitpid_for_def)
next
  case (Inr sel)
  obtain res st' where t: "take_waitable_event (matching_child_pids st waiter sel) flags st = (res, st')" by fastforce
  with Inr ok proc_ok_take_waitable [OF ok t] show ?thesis
    by (cases res) (simp_all add: waitpid_for_def Let_def)
qed

lemma proc_ok_waitpid:
  assumes ok: "proc_ok st"
  shows "proc_ok (snd (waitpid pid st))"
proof (cases "\<exists>r. bt_get (pt_entries st) pid = Some r \<and> status_of r = Exited")
  case True
  then obtain r where r: "bt_get (pt_entries st) pid = Some r" "status_of r = Exited" by blast
  with proc_ok_remove [OF ok r, of "st\<lparr>pt_entries := bt_remove pid (pt_entries st)\<rparr>"] show ?thesis
    by (simp add: waitpid_def)
next
  case False
  with ok show ?thesis by (auto simp: waitpid_def split: option.splits)
qed

lemma reap_cases:
  obtains (none) "pt_entries (reap now st) = pt_entries st" "pt_next_pid (reap now st) = pt_next_pid st"
  | (zombie) pid r where "bt_get (pt_entries st) pid = Some r" "status_of r = Exited"
      "\<not> has_living_parent st (pe_ppid (rec_entry r))"
      "pt_entries (reap now st) = bt_remove pid (pt_entries st)" "pt_next_pid (reap now st) = pt_next_pid st"
proof -
  obtain p st' where t: "take_next_due_pid now st = (p, st')" by fastforce
  have st': "pt_entries st' = pt_entries st" "pt_next_pid st' = pt_next_pid st"
    using t by (auto simp: take_next_due_pid_def split: option.splits if_splits)
  then have hl: "has_living_parent st' q = has_living_parent st q" for q by (simp add: has_living_parent_def)
  show thesis
  proof (cases p)
    case None
    with t st' none show thesis by (simp add: reap_def)
  next
    case (Some pid)
    show thesis
    proof (cases "\<exists>r. bt_get (pt_entries st) pid = Some r \<and> status_of r = Exited \<and>
        \<not> has_living_parent st (pe_ppid (rec_entry r))")
      case True
      then obtain r where "bt_get (pt_entries st) pid = Some r" "status_of r = Exited"
        "\<not> has_living_parent st (pe_ppid (rec_entry r))" by blast
      with t Some st' zombie [of pid r] show thesis by (simp add: reap_def hl)
    next
      case False
      with t Some st' none show thesis by (auto simp: reap_def hl split: option.splits)
    qed
  qed
qed

lemma proc_ok_reap:
  assumes ok: "proc_ok st"
  shows "proc_ok (reap now st)"
proof (cases rule: reap_cases [of now st])
  case none
  then show ?thesis by (rule proc_ok_frame [OF ok])
next
  case (zombie pid r)
  then show ?thesis using proc_ok_remove [OF ok] by blast
qed

lemma check_group_Inr:
  "check_group target sid rs = Inr u \<Longrightarrow>
     \<exists>r \<in> set rs. pe_pgid (rec_entry r) = target \<and> status_of r \<noteq> Exited \<and> pe_sid (rec_entry r) = sid"
  by (induction rs) (auto split: if_splits)

lemma setpgid_cases:
  assumes "bt_get (pt_entries st) pid = Some r"
  obtains (error) e where "setpgid pid pgid st = (Inl e, st)"
  | (own) "setpgid pid pgid st = (Inr (), put_record pid (map_entry (\<lambda>e. e\<lparr>pe_pgid := pid\<rparr>) r) st)"
  | (join) q x where "bt_get (pt_entries st) q = Some x" "status_of x \<noteq> Exited"
      "pe_pgid (rec_entry x) = pgid" "pe_sid (rec_entry x) = pe_sid (rec_entry r)"
      "setpgid pid pgid st = (Inr (), put_record pid (map_entry (\<lambda>e. e\<lparr>pe_pgid := pgid\<rparr>) r) st)"
proof -
  define t where "t = (if pgid = 0 then pid else pgid)"
  show thesis
  proof (cases "t = pid")
    case True
    with assms own show thesis by (simp add: setpgid_def Let_def t_def split: if_splits)
  next
    case False
    then have t: "t = pgid" by (simp add: t_def split: if_splits)
    show thesis
    proof (cases "check_group t (pe_sid (rec_entry r)) (bt_values (pt_entries st))")
      case (Inl e)
      with assms False error show thesis by (simp add: setpgid_def Let_def t_def split: if_splits)
    next
      case (Inr u)
      from check_group_Inr [OF this] obtain q x where "bt_get (pt_entries st) q = Some x" "status_of x \<noteq> Exited"
        "pe_pgid (rec_entry x) = pgid" "pe_sid (rec_entry x) = pe_sid (rec_entry r)"
        by (auto simp: set_values_iff t)
      moreover have "setpgid pid pgid st = (Inr (), put_record pid (map_entry (\<lambda>e. e\<lparr>pe_pgid := pgid\<rparr>) r) st)"
        using assms False Inr t by (simp add: setpgid_def Let_def t_def [symmetric])
      ultimately show thesis by (rule join)
    qed
  qed
qed

lemma proc_ok_setpgid:
  assumes ok: "proc_ok st"
  shows "proc_ok (snd (setpgid pid pgid st))"
proof (cases "bt_get (pt_entries st) pid")
  case None
  with ok show ?thesis by (simp add: setpgid_def)
next
  case (Some r)
  have rok: "record_ok st pid r" using ok Some by (simp add: proc_ok_def)
  have put: "proc_ok (put_record pid (map_entry (\<lambda>e. e\<lparr>pe_pgid := t\<rparr>) r) st)" if "t < pt_next_pid st" for t
    using rok that by (intro proc_ok_put [OF ok Some]) (auto simp: record_ok_def)
  from Some show ?thesis
  proof (cases rule: setpgid_cases [of st pid r pgid])
    case own
    with put rok show ?thesis by (simp add: record_ok_def)
  next
    case (join q x)
    then have "record_ok st q x" using ok by (simp add: proc_ok_def)
    with put join show ?thesis by (simp add: record_ok_def)
  qed (use ok in simp)
qed

lemma proc_ok_setsid:
  assumes ok: "proc_ok st"
  shows "proc_ok (snd (setsid pid st))"
proof (cases "bt_get (pt_entries st) pid")
  case None
  with ok show ?thesis by (simp add: setsid_def)
next
  case (Some r)
  then have "record_ok st pid r" using ok by (simp add: proc_ok_def)
  then have "proc_ok (put_record pid (map_entry (\<lambda>e. e\<lparr>pe_sid := pid, pe_pgid := pid\<rparr>) r) st)"
    by (intro proc_ok_put [OF ok Some]) (auto simp: record_ok_def)
  with ok Some show ?thesis by (simp add: setsid_def)
qed

lemma proc_ok_set_umask:
  assumes ok: "proc_ok st"
  shows "proc_ok (snd (set_umask pid m st))"
proof (cases "bt_get (pt_entries st) pid")
  case None
  with ok show ?thesis by (simp add: set_umask_def)
next
  case (Some r)
  then have "record_ok st pid r" using ok by (simp add: proc_ok_def)
  then have "proc_ok (put_record pid (map_entry (\<lambda>e. e\<lparr>pe_umask := m AND 511\<rparr>) r) st)"
    by (intro proc_ok_put [OF ok Some]) (auto simp: record_ok_def)
  with Some show ?thesis by (simp add: set_umask_def)
qed

lemma kill_and_wait_induct:
  assumes "P (st\<lparr>pt_kills := pt_kills st @ map (\<lambda>(_, driver). (driver, signal)) targets\<rparr>)"
    and "\<And>pid code st. P st \<Longrightarrow> P (mark_exited pid code now now_ms st)"
  shows "P (kill_and_wait signal answer now now_ms targets st)"
proof -
  have "P (fold (\<lambda>(pid, driver) s. case answer driver of None \<Rightarrow> s
      | Some code \<Rightarrow> mark_exited pid code now now_ms s) ts s)" if "P s" for ts s
    using that by (induction ts arbitrary: s) (auto simp: assms(2) split: option.splits)
  with assms(1) show ?thesis by (simp add: kill_and_wait_def)
qed

lemma proc_ok_kill_and_wait: "proc_ok st \<Longrightarrow> proc_ok (kill_and_wait signal answer now now_ms targets st)"
  by (rule kill_and_wait_induct) (simp_all add: proc_ok_mark_exited)

lemma proc_ok_terminate_all: "proc_ok st \<Longrightarrow> proc_ok (terminate_all answer1 answer2 now now_ms st)"
  by (simp add: terminate_all_def Let_def proc_ok_kill_and_wait)

interpretation proc_system: guarded_system "with_zombie_ttl ttl" proc_enabled proc_step proc_ok
proof
  show "proc_ok (with_zombie_ttl ttl)" by (simp add: proc_ok_def with_zombie_ttl_def new_process_table_def)
  show "proc_ok (proc_step e st)" if ok: "proc_ok st" and "proc_enabled e st" for st e
  proof (cases e)
    case (Spawn driver command args ctx handle)
    with that show ?thesis using proc_ok_spawn by blast
  qed (use ok in \<open>simp_all add: proc_ok_sig_step [OF ok sig_step_kill] proc_ok_sigprocmask proc_ok_mark_exited
      mark_stopped_def mark_continued_def proc_ok_sig_step [OF ok sig_step_mark] proc_ok_waitpid proc_ok_waitpid_for
      proc_ok_setpgid proc_ok_setsid proc_ok_set_umask proc_ok_reap proc_ok_terminate_all\<close>)
qed

section \<open>Groups and sessions\<close>

text \<open>
  A process group lies in one session.  The view of the living processes is all that matters: their
  group and session.
\<close>

definition live_view :: "process_table \<Rightarrow> u32 \<Rightarrow> (u32 \<times> u32) option" where
  "live_view st pid =
     (case bt_get (pt_entries st) pid of
        None \<Rightarrow> None
      | Some r \<Rightarrow> if status_of r = Exited then None else Some (pe_pgid (rec_entry r), pe_sid (rec_entry r)))"

definition view_ok :: "(u32 \<Rightarrow> (u32 \<times> u32) option) \<Rightarrow> bool" where
  "view_ok v \<longleftrightarrow>
     (\<forall>p q g s g' s'. v p = Some (g, s) \<longrightarrow> v q = Some (g', s') \<longrightarrow> g = g' \<or> g = q \<longrightarrow> s = s')"

definition sessions_ok :: "process_table \<Rightarrow> bool" where
  "sessions_ok st \<longleftrightarrow> view_ok (live_view st)"

lemma view_ok_mono: "view_ok v \<Longrightarrow> v' \<subseteq>\<^sub>m v \<Longrightarrow> view_ok v'"
  unfolding view_ok_def map_le_def dom_def by (metis (mono_tags, lifting) mem_Collect_eq option.distinct(1))

lemma live_view_sig_step: "sig_step st st' \<Longrightarrow> live_view st' = live_view st"
proof
  fix pid
  assume "sig_step st st'"
  then have "rel_option rec_step (bt_get (pt_entries st) pid) (bt_get (pt_entries st') pid)"
    by (simp add: sig_step_def)
  then show "live_view st' pid = live_view st pid"
    by (cases rule: option.rel_cases) (auto simp: live_view_def rec_step_def)
qed

lemma live_view_mark_exited: "live_view (mark_exited pid c now t st) \<subseteq>\<^sub>m live_view st"
proof (cases "\<exists>r. bt_get (pt_entries st) pid = Some r \<and> status_of r \<noteq> Exited")
  case True
  then obtain r where r: "bt_get (pt_entries st) pid = Some r" "status_of r \<noteq> Exited" by blast
  from r obtain st' where s: "sig_step (exited_state pid r c t st) st'"
    "pt_entries (mark_exited pid c now t st) = pt_entries st'"
    by (rule mark_exited_steps)
  have "live_view (mark_exited pid c now t st) = live_view (exited_state pid r c t st)"
    using live_view_sig_step [OF s(1)] s(2) by (simp add: live_view_def fun_eq_iff)
  moreover have "live_view (exited_state pid r c t st) q = (if q = pid then None else live_view st q)" for q
    by (cases "bt_get (pt_entries st) q") (auto simp: live_view_def exited_state_get Let_def)
  ultimately show ?thesis by (auto simp: map_le_def)
next
  case False
  then show ?thesis by (cases "bt_get (pt_entries st) pid") (auto simp: mark_exited_idle)
qed

lemma live_view_put:
  "bt_get (pt_entries st) pid = Some r \<Longrightarrow> pe_status (rec_entry r') = status_of r \<Longrightarrow>
     pe_pgid (rec_entry r') = pe_pgid (rec_entry r) \<Longrightarrow> pe_sid (rec_entry r') = pe_sid (rec_entry r) \<Longrightarrow>
     live_view (put_record pid r' st) = live_view st"
  by (auto simp: live_view_def)

lemma live_view_simps [simp]:
  "live_view (notify_all st) = live_view st" "live_view (reaper_cancel pid st) = live_view st"
  "live_view (reaper_schedule pid n st) = live_view st" "live_view (reaper_clear st) = live_view st"
  "live_view (st\<lparr>pt_kills := k\<rparr>) = live_view st" "live_view (st\<lparr>pt_terminating_all := b\<rparr>) = live_view st"
  by (simp_all add: live_view_def fun_eq_iff)

lemma live_view_remove:
  "pt_entries st' = bt_remove pid (pt_entries st) \<Longrightarrow> live_view st' \<subseteq>\<^sub>m live_view st"
  by (auto simp: map_le_def live_view_def split: if_splits option.splits)

lemma view_ok_upd:
  assumes "view_ok v" "\<And>q g' s'. v q = Some (g', s') \<Longrightarrow> q \<noteq> p \<Longrightarrow> g = g' \<or> g = q \<or> g' = p \<Longrightarrow> s = s'"
  shows "view_ok (v(p \<mapsto> (g, s)))"
  unfolding view_ok_def
proof (intro allI impI)
  fix a b g1 s1 g2 s2
  assume h: "(v(p \<mapsto> (g, s))) a = Some (g1, s1)" "(v(p \<mapsto> (g, s))) b = Some (g2, s2)" "g1 = g2 \<or> g1 = b"
  consider "a = p" "b = p" | "a = p" "b \<noteq> p" | "a \<noteq> p" "b = p" | "a \<noteq> p" "b \<noteq> p" by blast
  then show "s1 = s2"
  proof cases
    case 2
    with h assms(2) [of b g2 s2] show ?thesis by auto
  next
    case 3
    with h assms(2) [of a g1 s1] show ?thesis by auto
  next
    case 4
    with h have "v a = Some (g1, s1)" "v b = Some (g2, s2)" by simp_all
    with h(3) assms(1) show ?thesis unfolding view_ok_def by blast
  qed (use h in simp)
qed

text \<open>
  \<open>setsid\<close> does not ask whether another process is still in the group named after the caller; under
  the rule that it is only called when there is none, sessions and groups stay in step.
\<close>

fun session_enabled :: "proc_event \<Rightarrow> process_table \<Rightarrow> bool" where
  "session_enabled (Setsid pid) st =
     list_all (\<lambda>r. pe_pid (rec_entry r) = pid \<or> status_of r = Exited \<or> pe_pgid (rec_entry r) \<noteq> pid)
       (bt_values (pt_entries st))"
| "session_enabled e st = proc_enabled e st"

lemma sessions_mono: "sessions_ok st \<Longrightarrow> live_view st' \<subseteq>\<^sub>m live_view st \<Longrightarrow> sessions_ok st'"
  unfolding sessions_ok_def by (rule view_ok_mono)

lemma sessions_ok_spawn:
  assumes ok: "proc_ok st" "sessions_ok st" and en: "proc_enabled (Spawn driver command args ctx handle) st"
  shows "sessions_ok (proc_step (Spawn driver command args ctx handle) st)"
proof -
  let ?pid = "pt_next_pid st"
  obtain r where st': "proc_step (Spawn driver command args ctx handle) st =
      put_record ?pid r (st\<lparr>pt_next_pid := ?pid + 1\<rparr>)"
    and r: "pe_status (rec_entry r) = Running"
      "pe_pgid (rec_entry r) = (case bt_get (pt_entries st) (ctx_ppid ctx) of
         Some p \<Rightarrow> pe_pgid (rec_entry p) | None \<Rightarrow> ?pid)"
      "pe_sid (rec_entry r) = (case bt_get (pt_entries st) (ctx_ppid ctx) of
         Some p \<Rightarrow> pe_sid (rec_entry p) | None \<Rightarrow> ?pid)"
    by (rule spawn_result)
  have view: "live_view (proc_step (Spawn driver command args ctx handle) st) =
      (live_view st)(?pid \<mapsto> (pe_pgid (rec_entry r), pe_sid (rec_entry r)))"
    unfolding st' by (auto simp: live_view_def r(1))
  have low: "q \<noteq> ?pid \<and> g \<noteq> ?pid" if "live_view st q = Some (g, s)" for q g s
  proof -
    from that obtain x where x: "bt_get (pt_entries st) q = Some x" "pe_pgid (rec_entry x) = g"
      by (auto simp: live_view_def split: option.splits if_splits)
    then have "record_ok st q x" using ok(1) by (simp add: proc_ok_def)
    with x(2) show ?thesis by (auto simp: record_ok_def)
  qed
  have "pe_sid (rec_entry r) = s'"
    if v: "live_view st q = Some (g', s')" and c: "pe_pgid (rec_entry r) = g' \<or> pe_pgid (rec_entry r) = q \<or> g' = ?pid"
    for q g' s'
  proof (cases "bt_get (pt_entries st) (ctx_ppid ctx)")
    case None
    with c low [OF v] r(2) show ?thesis by auto
  next
    case (Some p)
    have "ctx_ppid ctx \<noteq> 0" using Some ok(1) by (auto simp: proc_ok_def record_ok_def)
    with en Some have "live_view st (ctx_ppid ctx) = Some (pe_pgid (rec_entry p), pe_sid (rec_entry p))"
      by (auto simp: live_view_def)
    with v c low [OF v] ok(2) Some r(2,3) show ?thesis unfolding sessions_ok_def view_ok_def by (metis option.simps(5))
  qed
  with ok(2) show ?thesis unfolding sessions_ok_def view by (intro view_ok_upd) auto
qed

lemma live_view_map_entry:
  assumes "bt_get (pt_entries st) pid = Some r"
  shows "live_view (put_record pid (map_entry f r) st) =
    (if pe_status (f (rec_entry r)) = Exited then (live_view st)(pid := None)
     else (live_view st)(pid \<mapsto> (pe_pgid (f (rec_entry r)), pe_sid (f (rec_entry r)))))"
  by (auto simp: live_view_def)

lemma sessions_ok_setpgid:
  assumes ok: "sessions_ok st"
  shows "sessions_ok (snd (setpgid pid pgid st))"
proof (cases "bt_get (pt_entries st) pid")
  case None
  with ok show ?thesis by (simp add: setpgid_def)
next
  case (Some r)
  have put: "sessions_ok (put_record pid (map_entry (\<lambda>e. e\<lparr>pe_pgid := t\<rparr>) r) st)"
    if t: "\<And>q g' s'. live_view st q = Some (g', s') \<Longrightarrow> q \<noteq> pid \<Longrightarrow> status_of r \<noteq> Exited \<Longrightarrow>
        t = g' \<or> t = q \<Longrightarrow> pe_sid (rec_entry r) = s'" for t
  proof (cases "status_of r = Exited")
    case True
    then have "live_view (put_record pid (map_entry (\<lambda>e. e\<lparr>pe_pgid := t\<rparr>) r) st) \<subseteq>\<^sub>m live_view st"
      by (simp add: live_view_map_entry [OF Some] map_le_def)
    then show ?thesis by (rule sessions_mono [OF ok])
  next
    case False
    have "live_view st pid = Some (pe_pgid (rec_entry r), pe_sid (rec_entry r))" using Some False by (simp add: live_view_def)
    then have "pe_sid (rec_entry r) = s'" if "live_view st q = Some (pid, s')" for q s'
      using ok that unfolding sessions_ok_def view_ok_def by metis
    then show ?thesis
      using ok t False unfolding sessions_ok_def
      by (simp add: live_view_map_entry [OF Some]) (rule view_ok_upd, auto)
  qed
  from Some show ?thesis
  proof (cases rule: setpgid_cases [of st pid r pgid])
    case own
    have "pe_sid (rec_entry r) = s'"
      if "live_view st q = Some (g', s')" "q \<noteq> pid" "status_of r \<noteq> Exited" "pid = g' \<or> pid = q" for q g' s'
  proof -
      have "live_view st pid = Some (pe_pgid (rec_entry r), pe_sid (rec_entry r))"
        using Some that(3) by (simp add: live_view_def)
      with ok that show ?thesis unfolding sessions_ok_def view_ok_def by metis
    qed
    then have "sessions_ok (put_record pid (map_entry (\<lambda>e. e\<lparr>pe_pgid := pid\<rparr>) r) st)" by (rule put)
    with own show ?thesis by simp
  next
    case (join q x)
    then have "live_view st q = Some (pgid, pe_sid (rec_entry r))" by (simp add: live_view_def)
    with ok have "pe_sid (rec_entry r) = s'" if "live_view st p = Some (g', s')" "pgid = g' \<or> pgid = p" for p g' s'
      using that unfolding sessions_ok_def view_ok_def by metis
    then have "sessions_ok (put_record pid (map_entry (\<lambda>e. e\<lparr>pe_pgid := pgid\<rparr>) r) st)" by (intro put) blast
    with join show ?thesis by simp
  qed (use ok in simp)
qed

lemma sessions_ok_setsid:
  assumes ok: "proc_ok st" "sessions_ok st" and en: "session_enabled (Setsid pid) st"
  shows "sessions_ok (snd (setsid pid st))"
proof (cases "bt_get (pt_entries st) pid")
  case None
  with ok show ?thesis by (simp add: setsid_def)
next
  case (Some r)
  have out: "g' \<noteq> pid" if "live_view st q = Some (g', s')" "q \<noteq> pid" for q g' s'
  proof -
    from that(1) obtain x where x: "bt_get (pt_entries st) q = Some x" "status_of x \<noteq> Exited" "pe_pgid (rec_entry x) = g'"
      by (auto simp: live_view_def split: option.splits if_splits)
    then have "pe_pid (rec_entry x) = q" "x \<in> set (bt_values (pt_entries st))"
      using ok(1) by (simp_all add: proc_ok_def record_ok_def bt_values_get)
    with en x(2,3) that(2) show ?thesis by (auto simp: list_all_iff)
  qed
  have "sessions_ok (put_record pid (map_entry (\<lambda>e. e\<lparr>pe_sid := pid, pe_pgid := pid\<rparr>) r) st)"
  proof (cases "status_of r = Exited")
    case True
    then show ?thesis
      by (intro sessions_mono [OF ok(2)]) (simp add: live_view_map_entry [OF Some] map_le_def)
  next
    case False
    with ok(2) out show ?thesis
      unfolding sessions_ok_def by (simp add: live_view_map_entry [OF Some]) (rule view_ok_upd, auto)
  qed
  with ok Some show ?thesis by (simp add: setsid_def)
qed

lemma live_view_sigprocmask: "live_view (snd (sigprocmask pid how s st)) = live_view st"
proof (cases "bt_get (pt_entries st) pid")
  case None
  then show ?thesis by (simp add: sigprocmask_def)
next
  case (Some r)
  from sigprocmask_result [OF Some refl, of how s] obtain ds m p where
    "sigprocmask pid how s st = (Inr (rec_blocked r),
      deliver_signals ds (put_record pid (r\<lparr>rec_blocked := m, rec_pending := p\<rparr>) st))" by blast
  then show ?thesis using live_view_sig_step [OF sig_step_deliver] live_view_put [OF Some] by simp
qed

lemma live_view_waitpid_for: "live_view (snd (waitpid_for waiter pid flags st)) \<subseteq>\<^sub>m live_view st"
proof (cases "resolve_wait_selector st waiter pid")
  case (Inl e)
  then show ?thesis by (simp add: waitpid_for_def)
next
  case (Inr sel)
  obtain res st' where t: "take_waitable_event (matching_child_pids st waiter sel) flags st = (res, st')" by fastforce
  then have "live_view st' \<subseteq>\<^sub>m live_view st"
  proof (cases rule: take_waitable_event_cases)
    case (event p r e rest)
    then show ?thesis by (simp add: live_view_put)
  next
    case (zombie p r)
    then show ?thesis by (intro live_view_remove [of _ p]) simp
  qed simp
  with Inr t show ?thesis by (cases res) (simp_all add: waitpid_for_def Let_def)
qed

lemma live_view_waitpid: "live_view (snd (waitpid pid st)) \<subseteq>\<^sub>m live_view st"
  by (auto simp: waitpid_def intro: live_view_remove split: option.splits)

lemma live_view_reap: "live_view (reap now st) \<subseteq>\<^sub>m live_view st"
proof (cases rule: reap_cases [of now st])
  case none
  then show ?thesis by (simp add: live_view_def map_le_def)
next
  case (zombie pid r)
  then show ?thesis by (intro live_view_remove)
qed

lemma live_view_terminate_all: "live_view (terminate_all answer1 answer2 now now_ms st) \<subseteq>\<^sub>m live_view st"
proof -
  have kw: "live_view (kill_and_wait signal answer now now_ms targets st) \<subseteq>\<^sub>m live_view st" for signal answer targets st
    by (rule kill_and_wait_induct [of "\<lambda>s. live_view s \<subseteq>\<^sub>m live_view st"])
       (simp, rule map_le_trans [OF live_view_mark_exited])
  have kk: "live_view (kill_and_wait sg a now now_ms ts (kill_and_wait sg' a' now now_ms ts' st')) \<subseteq>\<^sub>m live_view st"
    if "live_view st' = live_view st" for sg a ts sg' a' ts' st'
    using map_le_trans [OF kw [of sg a ts] kw [of sg' a' ts' st']] that by simp
  show ?thesis
    unfolding terminate_all_def Let_def live_view_simps by (rule kk) simp
qed

interpretation session_system: guarded_system "with_zombie_ttl ttl" session_enabled proc_step
  "\<lambda>st. proc_ok st \<and> sessions_ok st"
proof
  show "proc_ok (with_zombie_ttl ttl) \<and> sessions_ok (with_zombie_ttl ttl)"
    using proc_system.init_inv [of ttl]
    by (simp add: sessions_ok_def view_ok_def live_view_def with_zombie_ttl_def new_process_table_def)
  fix st e
  assume ok: "proc_ok st \<and> sessions_ok st" and en: "session_enabled e st"
  then have pe: "proc_enabled e st" by (cases e) auto
  have "sessions_ok (proc_step e st)"
  proof (cases e)
    case (Spawn driver command args ctx handle)
    with ok pe show ?thesis using sessions_ok_spawn by blast
  next
    case (Setpgid pid pgid)
    with ok show ?thesis by (simp add: sessions_ok_setpgid)
  next
    case (Setsid pid)
    with ok en show ?thesis using sessions_ok_setsid [of st pid] by simp
  next
    case (Umask pid m)
    with ok show ?thesis
      by (cases "bt_get (pt_entries st) pid") (auto simp: set_umask_def sessions_ok_def live_view_put)
  qed (use ok in \<open>auto simp: sessions_ok_def mark_stopped_def mark_continued_def live_view_sig_step [OF sig_step_kill]
      live_view_sig_step [OF sig_step_mark] live_view_sigprocmask
      intro: view_ok_mono [OF _ live_view_mark_exited] view_ok_mono [OF _ live_view_waitpid]
        view_ok_mono [OF _ live_view_waitpid_for] view_ok_mono [OF _ live_view_reap]
        view_ok_mono [OF _ live_view_terminate_all]\<close>)
  with proc_system.step_inv ok pe show "proc_ok (proc_step e st) \<and> sessions_ok (proc_step e st)" by blast
qed

section \<open>Zombies\<close>

definition zombie :: "process_table \<Rightarrow> u32 \<Rightarrow> int \<Rightarrow> bool" where
  "zombie st pid code \<longleftrightarrow>
     (\<exists>r. bt_get (pt_entries st) pid = Some r \<and> status_of r = Exited \<and> pe_exit_code (rec_entry r) = Some code)"

lemma zombie_sig_step: "zombie st pid code \<Longrightarrow> sig_step st st' \<Longrightarrow> zombie st' pid code"
  unfolding zombie_def by (elim exE conjE, erule sig_step_get, assumption) (auto simp: rec_step_def)

lemma zombie_put:
  "zombie st pid code \<Longrightarrow> bt_get (pt_entries st) q = Some r \<Longrightarrow> pe_status (rec_entry r') = status_of r \<Longrightarrow>
     pe_exit_code (rec_entry r') = pe_exit_code (rec_entry r) \<Longrightarrow> zombie (put_record q r' st) pid code"
  by (auto simp: zombie_def)

lemma zombie_simps [simp]:
  "zombie (notify_all st) = zombie st" "zombie (reaper_cancel q st) = zombie st" "zombie (reaper_schedule q n st) = zombie st"
  "zombie (reaper_clear st) = zombie st" "zombie (st\<lparr>pt_kills := k\<rparr>) = zombie st" "zombie (st\<lparr>pt_terminating_all := b\<rparr>) = zombie st"
  by (simp_all add: zombie_def fun_eq_iff)

lemma zombie_mark_exited: "zombie st pid code \<Longrightarrow> zombie (mark_exited q c now t st) pid code"
proof (cases "\<exists>r. bt_get (pt_entries st) q = Some r \<and> status_of r \<noteq> Exited")
  case True
  assume z: "zombie st pid code"
  from True obtain r where r: "bt_get (pt_entries st) q = Some r" "status_of r \<noteq> Exited" by blast
  from r obtain st' where s: "sig_step (exited_state q r c t st) st'"
    "pt_entries (mark_exited q c now t st) = pt_entries st'"
    by (rule mark_exited_steps)
  from z obtain x where x: "bt_get (pt_entries st) pid = Some x" "status_of x = Exited"
    "pe_exit_code (rec_entry x) = Some code" unfolding zombie_def by blast
  with r have "pid \<noteq> q" by auto
  with x have "zombie (exited_state q r c t st) pid code"
    by (cases "pe_ppid (rec_entry x) = q") (simp_all add: zombie_def exited_state_get Let_def)
  from zombie_sig_step [OF this s(1)] s(2) show ?thesis by (simp add: zombie_def)
next
  case False
  assume "zombie st pid code"
  with False show ?thesis by (cases "bt_get (pt_entries st) q") (auto simp: mark_exited_idle)
qed

lemma zombie_terminate_all: "zombie st pid code \<Longrightarrow> zombie (terminate_all answer1 answer2 now now_ms st) pid code"
proof -
  assume z: "zombie st pid code"
  have kw: "zombie (kill_and_wait signal answer now now_ms targets s) pid code" if "zombie s pid code"
    for signal answer targets s
    using that by (intro kill_and_wait_induct [of "\<lambda>s. zombie s pid code"]) (simp_all add: zombie_mark_exited)
  show ?thesis unfolding terminate_all_def Let_def zombie_simps by (intro kw) (simp add: z)
qed

lemma zombie_spawn:
  assumes "proc_ok st" "zombie st pid code"
  shows "zombie (proc_step (Spawn driver command args ctx handle) st) pid code"
proof -
  from assms have "pid \<noteq> pt_next_pid st" by (auto simp: zombie_def proc_ok_def record_ok_def)
  moreover obtain r where "proc_step (Spawn driver command args ctx handle) st =
      put_record (pt_next_pid st) r (st\<lparr>pt_next_pid := pt_next_pid st + 1\<rparr>)" by (rule spawn_result)
  ultimately show ?thesis using assms(2) by (simp add: zombie_def del: proc_step.simps)
qed

lemma zombie_kept_step:
  assumes ok: "proc_ok st" and z: "zombie st pid code"
    and r: "bt_get (pt_entries st) pid = Some r" "has_living_parent st (pe_ppid (rec_entry r))"
    and e: "e \<noteq> Wait pid" "\<And>w p f. e \<noteq> Wait_for w p f"
  shows "zombie (proc_step e st) pid code"
proof (cases e)
  case (Spawn driver command args ctx handle)
  with zombie_spawn [OF ok z] show ?thesis by blast
next
  case (Sigprocmask q how s)
  show ?thesis
  proof (cases "bt_get (pt_entries st) q")
    case None
    with z Sigprocmask show ?thesis by (simp add: sigprocmask_def)
  next
    case (Some x)
    from sigprocmask_result [OF Some refl, of how s] obtain ds m p where
      "sigprocmask q how s st = (Inr (rec_blocked x),
        deliver_signals ds (put_record q (x\<lparr>rec_blocked := m, rec_pending := p\<rparr>) st))" by blast
    with Sigprocmask zombie_sig_step [OF _ sig_step_deliver] zombie_put [OF z Some] show ?thesis by simp
  qed
next
  case (Wait q)
  with e(1) z show ?thesis by (auto simp: waitpid_def zombie_def split: option.splits)
next
  case (Wait_for w p f)
  with e(2) show ?thesis by blast
next
  case (Setpgid q g)
  show ?thesis
  proof (cases "bt_get (pt_entries st) q")
    case None
    with z Setpgid show ?thesis by (simp add: setpgid_def)
  next
    case (Some x)
    then show ?thesis
      by (cases rule: setpgid_cases [of st q x g]) (use z Setpgid zombie_put [OF z Some] in simp_all)
  qed
next
  case (Setsid q)
  with z show ?thesis by (auto simp: setsid_def zombie_def split: option.splits)
next
  case (Umask q m)
  with z show ?thesis by (auto simp: set_umask_def zombie_def split: option.splits)
next
  case (Reap now)
  show ?thesis
  proof (cases rule: reap_cases [of now st])
    case none
    with z Reap show ?thesis by (simp add: zombie_def)
  next
    case (zombie q x)
    with r have "q \<noteq> pid" by auto
    with zombie z Reap show ?thesis by (simp add: zombie_def)
  qed
qed (use z in \<open>simp_all add: zombie_mark_exited zombie_terminate_all mark_stopped_def mark_continued_def
    zombie_sig_step [OF z sig_step_kill] zombie_sig_step [OF z sig_step_mark]\<close>)

section \<open>Counting driver signals\<close>

text \<open>Each delivery reaches a driver once, and each status change adds at most one \<open>SIGCHLD\<close>.\<close>

lemma deliver_quiet:
  assumes "\<forall>d \<in> set ds. \<not> changes_status d"
  shows "deliver_signals ds st = log_kills ds st"
proof -
  have "stopped_by ds = []" "continued_by ds = []"
    using assms by (auto simp: stopped_by_def continued_by_def filter_empty_conv changes_status_def)
  then show ?thesis by (subst deliver_signals.simps) simp
qed

lemma signal_parent_quiet:
  assumes "signal_parent ppid st = (ds, st1)"
  shows "deliver_signals ds st1 = log_kills ds st1" "length ds \<le> 1" "pt_kills st1 = pt_kills st"
proof -
  have "\<forall>d \<in> set ds. d_signal d = SIGCHLD" using signal_parent_signals assms by metis
  then show "deliver_signals ds st1 = log_kills ds st1"
    by (intro deliver_quiet) (auto simp: changes_status_def sig_consts)
  show "length ds \<le> 1" "pt_kills st1 = pt_kills st"
    using assms by (auto simp: signal_parent_def kernel_signal_def split: option.splits if_splits sum.splits)
qed

lemma mark_wait_event_eq:
  assumes "bt_get (pt_entries st) pid = Some r" "status_of r \<noteq> Exited" "status_of r \<noteq> s"
    and "signal_parent (pe_ppid (rec_entry r)) (enter_status pid r s event st) = (ds, st1)"
  shows "mark_wait_event pid s event st = notify_all (log_kills ds st1)"
  using assms signal_parent_quiet(1) [OF assms(4)] by (subst mark_wait_event.simps) simp

lemma mark_wait_event_kills:
  "length (pt_kills (mark_wait_event pid s event st)) \<le> Suc (length (pt_kills st))"
proof (cases "\<exists>r. bt_get (pt_entries st) pid = Some r \<and> status_of r \<noteq> Exited \<and> status_of r \<noteq> s")
  case True
  then obtain r where r: "bt_get (pt_entries st) pid = Some r" "status_of r \<noteq> Exited" "status_of r \<noteq> s" by blast
  obtain ds st1 where p: "signal_parent (pe_ppid (rec_entry r)) (enter_status pid r s event st) = (ds, st1)" by fastforce
  from signal_parent_quiet(2,3) [OF p] show ?thesis
    by (simp add: mark_wait_event_eq [OF r p] enter_status_def)
next
  case False
  then show ?thesis by (subst mark_wait_event.simps) (auto split: option.splits)
qed

lemma fold_kills:
  assumes "\<And>x st. length (pt_kills (f x st)) \<le> Suc (length (pt_kills st))"
  shows "length (pt_kills (fold f xs st)) \<le> length (pt_kills st) + length xs"
proof (induction xs arbitrary: st)
  case (Cons x xs)
  have "length (pt_kills (fold f xs (f x st))) \<le> length (pt_kills (f x st)) + length xs" by (rule Cons.IH)
  also have "\<dots> \<le> Suc (length (pt_kills st)) + length xs" using assms [of x st] by simp
  finally show ?case by simp
qed simp

lemma length_status_changes: "length (stopped_by ds) + length (continued_by ds) \<le> length ds"
  by (induction ds) (auto simp: stopped_by_def continued_by_def sig_consts)

lemma deliver_kills: "length (pt_kills (deliver_signals ds st)) \<le> length (pt_kills st) + 2 * length ds"
proof -
  define st1 where "st1 = fold (\<lambda>p. mark_wait_event (fst p) Stopped \<lparr>we_status = snd p, we_event = Stopped_event\<rparr>)
      (stopped_by ds) (log_kills ds st)"
  have "length (pt_kills st1) \<le> length (pt_kills (log_kills ds st)) + length (stopped_by ds)"
    unfolding st1_def by (rule fold_kills) (rule mark_wait_event_kills)
  moreover have "length (pt_kills (deliver_signals ds st)) \<le> length (pt_kills st1) + length (continued_by ds)"
    unfolding deliver_signals.simps [of ds] st1_def [symmetric] by (rule fold_kills) (rule mark_wait_event_kills)
  ultimately show ?thesis using length_status_changes [of ds] by simp
qed

section \<open>Orphaned process groups\<close>

text \<open>What decides whom the kernel's own signals reach: the entry of a process and its signal mask.\<close>

definition entry_view :: "process_table \<Rightarrow> u32 \<Rightarrow> (process_entry \<times> signal_set) option" where
  "entry_view st pid = map_option (\<lambda>r. (rec_entry r, rec_blocked r)) (bt_get (pt_entries st) pid)"

lemma entry_view_simps [simp]:
  "entry_view (notify_all st) = entry_view st" "entry_view (log_kills ds st) = entry_view st"
  "entry_view (reaper_schedule q n st) = entry_view st" "entry_view (reaper_cancel q st) = entry_view st"
  by (simp_all add: entry_view_def fun_eq_iff)

lemma entry_view_kernel_signal [simp]: "entry_view (snd (kernel_signal pid signal st)) = entry_view st"
proof (cases "bt_get (pt_entries st) pid")
  case None
  then show ?thesis by (simp add: kernel_signal_def)
next
  case (Some r)
  then show ?thesis
    by (cases rule: queue_never_fails [of r signal]) (auto simp: kernel_signal_def entry_view_def fun_eq_iff)
qed

lemma entry_view_signal_parent [simp]: "entry_view (snd (signal_parent ppid st)) = entry_view st"
  by (simp add: signal_parent_def split: option.splits)

lemma entry_view_signal_orphans [simp]: "entry_view (snd (signal_orphans pids st)) = entry_view st"
  by (induction pids arbitrary: st) (simp_all add: Let_def case_prod_unfold)

lemma kernel_signal_unblocked:
  assumes "entry_view st pid = Some (e, b)" "\<not> signal_can_be_blocked signal"
  obtains d where "fst (kernel_signal pid signal st) = [d]" "d_pid d = pe_pid e" "d_signal d = signal" "d_status d = pe_status e"
proof -
  from assms(1) obtain r where r: "bt_get (pt_entries st) pid = Some r" "rec_entry r = e" "rec_blocked r = b"
    by (auto simp: entry_view_def)
  show thesis
  proof (cases rule: queue_never_fails [of r signal])
    case (pending p)
    with assms(2) r show ?thesis by simp
  next
    case scheduled
    with r show ?thesis by (intro that [of "schedule r signal"]) (simp_all add: kernel_signal_def schedule_def)
  qed
qed

lemma orphan_continued:
  assumes "pid \<in> set pids" "entry_view st pid = Some (e, b)"
  shows "\<exists>d \<in> set (fst (signal_orphans pids st)). d_pid d = pe_pid e \<and> d_signal d = SIGCONT \<and> d_status d = pe_status e"
  using assms
proof (induction pids arbitrary: st)
  case (Cons p pids)
  let ?st1 = "snd (kernel_signal p SIGHUP st)"
  let ?st2 = "snd (kernel_signal p SIGCONT ?st1)"
  have run: "fst (signal_orphans (p # pids) st) =
      fst (kernel_signal p SIGHUP st) @ fst (kernel_signal p SIGCONT ?st1) @ fst (signal_orphans pids ?st2)"
    by (simp add: Let_def case_prod_unfold)
  show ?case
  proof (cases "p = pid")
    case True
    with Cons.prems have "entry_view ?st1 p = Some (e, b)" by simp
    moreover have "\<not> signal_can_be_blocked SIGCONT" by (simp add: signal_can_be_blocked_def)
    ultimately obtain d where "fst (kernel_signal p SIGCONT ?st1) = [d]"
      "d_pid d = pe_pid e" "d_signal d = SIGCONT" "d_status d = pe_status e" by (rule kernel_signal_unblocked)
    then show ?thesis unfolding run by simp
  next
    case False
    with Cons.prems Cons.IH [of ?st2] show ?thesis unfolding run by auto
  qed
qed simp

lemma kernel_signal_signals: "d \<in> set (fst (kernel_signal pid signal st)) \<Longrightarrow> d_signal d = signal"
  by (auto simp: kernel_signal_def dest: queue_signal split: option.splits sum.splits)

lemma signal_orphans_signals: "d \<in> set (fst (signal_orphans pids st)) \<Longrightarrow> d_signal d = SIGHUP \<or> d_signal d = SIGCONT"
  by (induction pids arbitrary: st) (auto simp: Let_def case_prod_unfold dest: kernel_signal_signals)

definition stopped :: "process_table \<Rightarrow> u32 \<Rightarrow> bool" where
  "stopped st pid \<longleftrightarrow> (\<exists>e b. entry_view st pid = Some (e, b) \<and> pe_status e = Stopped)"

lemma mark_running:
  assumes "stopped (mark_wait_event p Running ev st) q"
  shows "stopped st q \<and> q \<noteq> p"
proof (cases "\<exists>r. bt_get (pt_entries st) p = Some r \<and> status_of r = Stopped")
  case True
  then obtain r where r: "bt_get (pt_entries st) p = Some r" "status_of r \<noteq> Exited" "status_of r \<noteq> Running" by auto
  obtain ds st1 where sp: "signal_parent (pe_ppid (rec_entry r)) (enter_status p r Running ev st) = (ds, st1)" by fastforce
  then have "entry_view st1 = entry_view (enter_status p r Running ev st)" by (metis entry_view_signal_parent snd_conv)
  then have "stopped (enter_status p r Running ev st) q"
    using assms by (simp add: stopped_def mark_wait_event_eq [OF r sp])
  then show ?thesis by (auto simp: stopped_def enter_status_def entry_view_def split: if_splits)
next
  case False
  then have "status_of r = Exited \<or> status_of r = Running" if "bt_get (pt_entries st) p = Some r" for r
    using that by (cases "status_of r") auto
  then have "mark_wait_event p Running ev st = st"
    by (subst mark_wait_event.simps) (auto split: option.splits)
  with assms False show ?thesis by (auto simp: stopped_def entry_view_def)
qed

lemma fold_mark_running:
  "stopped (fold (\<lambda>p. mark_wait_event p Running ev) ps st) q \<Longrightarrow> stopped st q \<and> q \<notin> set ps"
proof (induction ps arbitrary: st)
  case (Cons p ps)
  then have "stopped (mark_wait_event p Running ev st) q" "q \<notin> set ps" by simp_all
  with mark_running show ?case by auto
qed simp

lemma deliver_continues:
  assumes "\<forall>d \<in> set ds. d_signal d \<noteq> SIGSTOP \<and> d_signal d \<noteq> SIGTSTP" "stopped (deliver_signals ds st) q"
  shows "stopped st q \<and> q \<notin> set (continued_by ds)"
proof -
  have "stopped_by ds = []" using assms(1) by (auto simp: stopped_by_def filter_empty_conv)
  with assms(2) have "stopped (fold (\<lambda>p. mark_wait_event p Running \<lparr>we_status = SIGCONT, we_event = Continued_event\<rparr>)
      (continued_by ds) (log_kills ds st)) q" by (simp add: deliver_signals.simps [of ds])
  from fold_mark_running [OF this] show ?thesis by (simp add: stopped_def)
qed

lemma process_group_is_orphaned_iff:
  "process_group_is_orphaned st g \<longleftrightarrow>
     (\<exists>q r. bt_get (pt_entries st) q = Some r \<and> pe_pgid (rec_entry r) = g \<and> status_of r \<noteq> Exited) \<and>
     (\<forall>q r. bt_get (pt_entries st) q = Some r \<longrightarrow> pe_pgid (rec_entry r) = g \<longrightarrow> status_of r \<noteq> Exited \<longrightarrow>
        \<not> has_parent_outside_group_in_same_session st (rec_entry r))"
proof -
  have "P r \<Longrightarrow> r \<in> set (bt_values (pt_entries st)) \<Longrightarrow> \<exists>q r. bt_get (pt_entries st) q = Some r \<and> P r" for P r
    by (auto simp: set_values_iff)
  then show ?thesis
    unfolding process_group_is_orphaned_def Let_def filter_empty_conv list_ex_iff set_filter
    by (auto 0 3 simp: set_values_iff)
qed

lemma has_parent_sig_step:
  assumes "sig_step st st'" "e' = e\<lparr>pe_status := s\<rparr>"
  shows "has_parent_outside_group_in_same_session st' e' = has_parent_outside_group_in_same_session st e"
proof -
  have "rel_option rec_step (bt_get (pt_entries st) (pe_ppid e)) (bt_get (pt_entries st') (pe_ppid e))"
    using assms(1) by (simp add: sig_step_def)
  then show ?thesis
    by (cases rule: option.rel_cases)
       (auto simp: has_parent_outside_group_in_same_session_def assms(2) rec_step_def)
qed

lemma orphaned_sig_step:
  assumes "sig_step st st'" "process_group_is_orphaned st' g"
  shows "process_group_is_orphaned st g"
proof -
  have st: "\<not> has_parent_outside_group_in_same_session st (rec_entry r)"
    if r: "bt_get (pt_entries st) q = Some r" "pe_pgid (rec_entry r) = g" "status_of r \<noteq> Exited" for q r
  proof -
    obtain r' where r': "bt_get (pt_entries st') q = Some r'" "rec_step r r'" using assms(1) r(1) by (rule sig_step_get)
    then obtain s where s: "rec_entry r' = (rec_entry r)\<lparr>pe_status := s\<rparr>" "status_of r' \<noteq> Exited"
      using r(3) unfolding rec_step_def by auto
    have "pe_pgid (rec_entry r') = g" using s(1) r(2) by simp
    with assms(2) r'(1) s(2) have "\<not> has_parent_outside_group_in_same_session st' (rec_entry r')"
      unfolding process_group_is_orphaned_iff by blast
    with has_parent_sig_step [OF assms(1) s(1)] show ?thesis by simp
  qed
  from assms(2) obtain q r' where r': "bt_get (pt_entries st') q = Some r'" "pe_pgid (rec_entry r') = g" "status_of r' \<noteq> Exited"
    by (auto simp: process_group_is_orphaned_iff)
  obtain r where r: "bt_get (pt_entries st) q = Some r" "rec_step r r'" using assms(1) r'(1) by (rule sig_step_get')
  then have "pe_pgid (rec_entry r) = g" "status_of r \<noteq> Exited" using r'(2,3) by (auto simp: rec_step_def)
  with st r(1) show ?thesis unfolding process_group_is_orphaned_iff by blast
qed

lemma orphan_targets:
  assumes "proc_ok st" "g \<in> set pgids" "process_group_is_orphaned st g"
    and "entry_view st q = Some (e, b)" "pe_pgid e = g" "pe_status e = Stopped"
  shows "q \<in> set (collect_orphaned_group_signal_targets pgids st)"
proof -
  obtain r where r: "bt_get (pt_entries st) q = Some r" "rec_entry r = e" using assms(4) by (auto simp: entry_view_def)
  then have "r \<in> set (bt_values (pt_entries st))" "pe_pid e = q"
    using assms(1) bt_values_get by (fastforce simp: proc_ok_def record_ok_def)+
  with assms r show ?thesis
    by (force simp: collect_orphaned_group_signal_targets_def process_group_has_stopped_member_def list_ex_iff)
qed

lemma exit_signals_continue:
  assumes "proc_ok st" "g \<in> set pgids" "process_group_is_orphaned st g"
    and "entry_view st q = Some (e, b)" "pe_pgid e = g" "pe_status e = Stopped"
  shows "q \<in> set (continued_by (fst (exit_signals ppid pgids st)))"
proof -
  define t where "t = collect_orphaned_group_signal_targets pgids st"
  define p where "p = (if \<not> pt_terminating_all st then signal_parent ppid st else ([], st))"
  have ds: "fst (exit_signals ppid pgids st) = fst p @ fst (signal_orphans t (snd p))"
    by (simp add: exit_signals_def Let_def case_prod_unfold t_def p_def)
  have "q \<in> set t" unfolding t_def by (rule orphan_targets [OF assms(1-6)])
  moreover have "entry_view (snd p) q = Some (e, b)" using assms(4) by (simp add: p_def)
  ultimately obtain d where "d \<in> set (fst (signal_orphans t (snd p)))" "d_pid d = pe_pid e" "d_signal d = SIGCONT"
    "d_status d = Stopped" using orphan_continued assms(6) by metis
  moreover have "pe_pid e = q" using assms(1,4) by (auto simp: entry_view_def proc_ok_def record_ok_def)
  ultimately show ?thesis unfolding ds by (force simp: continued_by_def)
qed

lemma exit_signals_never_stop:
  "\<forall>d \<in> set (fst (exit_signals ppid pgids st)). d_signal d \<noteq> SIGSTOP \<and> d_signal d \<noteq> SIGTSTP"
proof -
  have "d_signal d = SIGCHLD" if "d \<in> set (fst (signal_parent ppid s))" for d s
    using that signal_parent_signals by (metis prod.collapse)
  then show ?thesis
    by (auto simp: exit_signals_def Let_def case_prod_unfold sig_consts dest!: signal_orphans_signals)
qed

lemma mark_exited_run:
  assumes "bt_get (pt_entries st) pid = Some r" "status_of r \<noteq> Exited"
  obtains ds st3 pgids where "exit_signals (pe_ppid (rec_entry r)) pgids (exited_state pid r c t st) = (ds, st3)"
    "mark_exited pid c now t st = finish_exit pid now ds st3"
    "pe_pgid (rec_entry r) \<in> set pgids"
    "\<And>q x. bt_get (pt_entries st) q = Some x \<Longrightarrow> pe_ppid (rec_entry x) = pid \<Longrightarrow> q \<noteq> pid \<Longrightarrow> pe_pgid (rec_entry x) \<in> set pgids"
proof -
  let ?st1 = "put_record pid (map_entry (\<lambda>e. e\<lparr>pe_status := Exited, pe_exit_code := Some c,
      pe_exit_time_ms := Some t\<rparr>) r) st"
  let ?st2 = "exited_state pid r c t st"
  define pg where "pg = fst (reparent_children_to_init pid ?st1)"
  have rp: "reparent_children_to_init pid ?st1 = (pg, ?st2)" by (simp add: exited_state_def pg_def)
  obtain ds st3 where ex: "exit_signals (pe_ppid (rec_entry r)) (sort (remdups (pe_pgid (rec_entry r) # pg))) ?st2
      = (ds, st3)" by fastforce
  have run: "mark_exited pid c now t st = finish_exit pid now ds st3"
    unfolding mark_exited_def using assms by (simp del: remdups.simps add: rp ex)
  have "pe_pgid (rec_entry x) \<in> set pg"
    if "bt_get (pt_entries st) q = Some x" "pe_ppid (rec_entry x) = pid" "q \<noteq> pid" for q x
    using that by (force simp: pg_def reparent_children_to_init_def Let_def set_values_iff)
  then show thesis by (intro that [OF ex run]) auto
qed

lemma entry_view_exit_signals [simp]: "entry_view (snd (exit_signals ppid pgids st)) = entry_view st"
  by (simp add: exit_signals_def Let_def case_prod_unfold)

lemma finish_exit_stopped:
  assumes "\<forall>d \<in> set ds. d_signal d \<noteq> SIGSTOP \<and> d_signal d \<noteq> SIGTSTP" "stopped (finish_exit pid now ds st) q"
  shows "stopped st q \<and> q \<notin> set (continued_by ds)"
proof -
  define st1 where "st1 = (if \<not> pt_terminating_all st then reaper_schedule pid (now + pt_zombie_ttl st) st
                 else reaper_cancel pid st)"
  have "entry_view (finish_exit pid now ds st) = entry_view (deliver_signals ds st1)"
    by (simp add: finish_exit_def st1_def Let_def) (simp add: entry_view_def fun_eq_iff)
  with assms(2) have "stopped (deliver_signals ds st1) q" by (simp add: stopped_def)
  from deliver_continues [OF assms(1) this] show ?thesis by (simp add: stopped_def st1_def split: if_splits)
qed

text \<open>\<open>SIGCONT\<close> cannot be blocked, so no member is still stopped after the exit.\<close>

lemma exit_continues_orphans:
  assumes ok: "proc_ok st" and r: "bt_get (pt_entries st) pid = Some r" "status_of r \<noteq> Exited"
    and g: "g = pe_pgid (rec_entry r) \<or> (\<exists>q x. bt_get (pt_entries st) q = Some x \<and> q \<noteq> pid \<and>
              pe_ppid (rec_entry x) = pid \<and> pe_pgid (rec_entry x) = g)"
    and orphaned: "process_group_is_orphaned (mark_exited pid c now t st) g"
  shows "\<not> process_group_has_stopped_member (mark_exited pid c now t st) g"
proof
  assume "process_group_has_stopped_member (mark_exited pid c now t st) g"
  then obtain q m where
    m: "bt_get (pt_entries (mark_exited pid c now t st)) q = Some m" "pe_pgid (rec_entry m) = g" "status_of m = Stopped"
    by (auto simp: process_group_has_stopped_member_def list_ex_iff set_values_iff)
  let ?st2 = "exited_state pid r c t st"
  obtain ds st3 pgids where run: "exit_signals (pe_ppid (rec_entry r)) pgids ?st2 = (ds, st3)"
    "mark_exited pid c now t st = finish_exit pid now ds st3" and pg: "g \<in> set pgids"
    using mark_exited_run [OF r, of c t now] g by metis
  from r obtain st' where s: "sig_step ?st2 st'" "pt_entries (mark_exited pid c now t st) = pt_entries st'"
    by (rule mark_exited_steps)
  have or2: "process_group_is_orphaned ?st2 g"
    using orphaned_sig_step [OF s(1)] orphaned s(2)
    by (simp add: process_group_is_orphaned_def has_parent_outside_group_in_same_session_def)
  obtain x where x: "bt_get (pt_entries ?st2) q = Some x" "rec_step x m"
    using sig_step_get' [OF s(1)] m(1) s(2) by metis
  have st: "stopped (finish_exit pid now ds st3) q" using m by (auto simp: stopped_def entry_view_def run(2))
  have ds: "ds = fst (exit_signals (pe_ppid (rec_entry r)) pgids ?st2)" "st3 = snd (exit_signals (pe_ppid (rec_entry r)) pgids ?st2)"
    using run(1) by simp_all
  have "stopped st3 q" "q \<notin> set (continued_by ds)"
    using finish_exit_stopped [OF _ st] exit_signals_never_stop unfolding ds(1) by blast+
  then have "stopped ?st2 q" unfolding ds(2) by (simp add: stopped_def)
  with x have e: "entry_view ?st2 q = Some (rec_entry x, rec_blocked x)" "status_of x = Stopped"
    by (auto simp: stopped_def entry_view_def)
  have "pe_pgid (rec_entry x) = g" using x(2) m(2) by (auto simp: rec_step_def)
  with exit_signals_continue [OF proc_ok_exited_state [OF ok r(1)] pg or2 e(1)] e(2)
  have "q \<in> set (continued_by ds)" unfolding ds(1) by blast
  with \<open>q \<notin> set (continued_by ds)\<close> show False by contradiction
qed

section \<open>What a wait call and a mask change return\<close>

lemma take_event_None: "take_event flags es = None \<longleftrightarrow> (\<forall>e \<in> set es. \<not> is_waitable_event flags (we_event e))"
  by (induction es) auto

definition waitable :: "u32 \<Rightarrow> process_record \<Rightarrow> bool" where
  "waitable flags r \<longleftrightarrow> status_of r = Exited \<or> (\<exists>e \<in> set (rec_wait_events r). is_waitable_event flags (we_event e))"

lemma take_waitable_event_None:
  assumes "take_waitable_event pids flags st = (None, st')" "\<forall>p \<in> set pids. \<exists>r. bt_get (pt_entries st) p = Some r"
    and "p \<in> set pids" "bt_get (pt_entries st) p = Some r"
  shows "\<not> waitable flags r"
  using assms
proof (induction pids flags st rule: take_waitable_event.induct)
  case (2 pid pids flags st)
  from "2.prems"(2) obtain x where x: "bt_get (pt_entries st) pid = Some x" by auto
  with "2.prems"(1) have n: "take_event flags (rec_wait_events x) = None" "status_of x \<noteq> Exited"
    by (auto split: option.splits prod.splits if_splits)
  show ?case
  proof (cases "p = pid")
    case True
    with n x "2.prems"(4) show ?thesis by (simp add: waitable_def take_event_None)
  next
    case False
    with "2.prems" x n "2.IH" [OF x n] show ?thesis by simp
  qed
qed simp

lemma matching_children:
  assumes "proc_ok st"
  shows "q \<in> set (matching_child_pids st w sel) \<longleftrightarrow>
    (\<exists>r. bt_get (pt_entries st) q = Some r \<and> pe_ppid (rec_entry r) = w \<and> selects sel (rec_entry r))"
  using assms by (auto simp: matching_child_pids_def set_values_iff proc_ok_def record_ok_def image_iff)

text \<open>A wait takes a zombie away only by reporting its status to its parent.\<close>

lemma zombie_waitpid_for:
  assumes ok: "proc_ok st" and z: "zombie st pid code"
  shows "zombie (snd (waitpid_for w p f st)) pid code \<or>
    (\<exists>r. bt_get (pt_entries st) pid = Some r \<and> pe_ppid (rec_entry r) = w) \<and>
    fst (waitpid_for w p f st) = Some (Inr (Some \<lparr>wr_pid = pid, wr_status = code, wr_event = Exited_event\<rparr>))"
proof (cases "resolve_wait_selector st w p")
  case (Inl e)
  with z show ?thesis by (simp add: waitpid_for_def)
next
  case (Inr sel)
  let ?cs = "matching_child_pids st w sel"
  obtain res st' where t: "take_waitable_event ?cs f st = (res, st')" by fastforce
  show ?thesis
  proof (cases "?cs = []")
    case True
    with z Inr show ?thesis by (simp add: waitpid_for_def)
  next
    case ne: False
    from t show ?thesis
    proof (cases rule: take_waitable_event_cases)
      case nothing
      with t z Inr ne show ?thesis by (simp add: waitpid_for_def)
    next
      case (event q x e rest)
      have "zombie st' pid code" unfolding event(5) using zombie_put [OF z event(2)] by simp
      with t event(4) Inr ne show ?thesis by (simp add: waitpid_for_def zombie_def)
    next
      case (zombie q x)
      show ?thesis
      proof (cases "q = pid")
        case True
        with z zombie(2) have "pe_exit_code (rec_entry x) = Some code" by (auto simp: zombie_def)
        moreover have "pe_ppid (rec_entry x) = w" using zombie(1,2) matching_children [OF ok, of q w sel] by auto
        ultimately show ?thesis using t zombie True Inr ne by (simp add: waitpid_for_def)
      next
        case False
        with z zombie(5) have "zombie st' pid code" by (simp add: zombie_def)
        with t zombie(4) Inr ne show ?thesis by (simp add: waitpid_for_def zombie_def)
      qed
    qed
  qed
qed

lemma mark_wait_event_chld:
  "\<exists>ks. pt_kills (mark_wait_event pid s event st) = pt_kills st @ ks \<and> (\<forall>k \<in> set ks. snd k = SIGCHLD)"
proof (cases "\<exists>r. bt_get (pt_entries st) pid = Some r \<and> status_of r \<noteq> Exited \<and> status_of r \<noteq> s")
  case True
  then obtain r where r: "bt_get (pt_entries st) pid = Some r" "status_of r \<noteq> Exited" "status_of r \<noteq> s" by blast
  obtain ds st1 where p: "signal_parent (pe_ppid (rec_entry r)) (enter_status pid r s event st) = (ds, st1)" by fastforce
  from signal_parent_quiet(3) [OF p] signal_parent_signals [OF p [symmetric]] show ?thesis
    by (simp add: mark_wait_event_eq [OF r p] enter_status_def)
next
  case False
  then have "mark_wait_event pid s event st = st" by (subst mark_wait_event.simps) (auto split: option.splits)
  then show ?thesis by simp
qed

lemma fold_chld:
  assumes "\<And>x st. \<exists>ks. pt_kills (f x st) = pt_kills st @ ks \<and> (\<forall>k \<in> set ks. snd k = SIGCHLD)"
  shows "\<exists>ks. pt_kills (fold f xs st) = pt_kills st @ ks \<and> (\<forall>k \<in> set ks. snd k = SIGCHLD)"
proof (induction xs arbitrary: st)
  case (Cons x xs)
  obtain ks where ks: "pt_kills (f x st) = pt_kills st @ ks" "\<forall>k \<in> set ks. snd k = SIGCHLD" using assms by blast
  obtain js where js: "pt_kills (fold f xs (f x st)) = pt_kills (f x st) @ js" "\<forall>k \<in> set js. snd k = SIGCHLD"
    using Cons.IH by blast
  show ?case by (rule exI [of _ "ks @ js"]) (use ks js in auto)
qed simp

text \<open>The drivers get the deliveries in order; after them only \<open>SIGCHLD\<close> for the status changes follows.\<close>

lemma deliver_signals_log:
  "\<exists>ks. pt_kills (deliver_signals ds st) = pt_kills st @ map (\<lambda>d. (d_driver d, d_signal d)) ds @ ks \<and>
     (\<forall>k \<in> set ks. snd k = SIGCHLD)"
proof -
  let ?st1 = "fold (\<lambda>p. mark_wait_event (fst p) Stopped \<lparr>we_status = snd p, we_event = Stopped_event\<rparr>)
      (stopped_by ds) (log_kills ds st)"
  obtain ks where ks: "pt_kills ?st1 = pt_kills (log_kills ds st) @ ks" "\<forall>k \<in> set ks. snd k = SIGCHLD"
    using fold_chld [of "\<lambda>p. mark_wait_event (fst p) Stopped \<lparr>we_status = snd p, we_event = Stopped_event\<rparr>"]
      mark_wait_event_chld by blast
  obtain js where js: "pt_kills (deliver_signals ds st) = pt_kills ?st1 @ js" "\<forall>k \<in> set js. snd k = SIGCHLD"
    unfolding deliver_signals.simps [of ds]
    using fold_chld [of "\<lambda>pid. mark_wait_event pid Running \<lparr>we_status = SIGCONT, we_event = Continued_event\<rparr>"]
      mark_wait_event_chld by blast
  show ?thesis by (rule exI [of _ "ks @ js"]) (use ks js in auto)
qed

lemma waitpid_for_reports:
  assumes ok: "proc_ok st" and sel: "resolve_wait_selector st w pid = Inr sel" and run: "waitpid_for w pid flags st = (res, st')"
    and t: "take_waitable_event (matching_child_pids st w sel) flags st = (Some tr, tst)"
  shows "\<exists>q r. (bt_get (pt_entries st) q = Some r \<and> pe_ppid (rec_entry r) = w \<and> selects sel (rec_entry r)) \<and>
     waitable flags r \<and>
     ((\<exists>e \<in> set (rec_wait_events r). is_waitable_event flags (we_event e) \<and>
        res = Some (Inr (Some \<lparr>wr_pid = q, wr_status = we_status e, wr_event = we_event e\<rparr>))) \<or>
      (\<exists>c. pe_exit_code (rec_entry r) = Some c \<and> status_of r = Exited \<and> bt_get (pt_entries st') q = None \<and>
        res = Some (Inr (Some \<lparr>wr_pid = q, wr_status = c, wr_event = Exited_event\<rparr>))))"
proof -
  have ne: "matching_child_pids st w sel \<noteq> []" using t by auto
  from t show ?thesis
  proof (cases rule: take_waitable_event_cases)
    case nothing
    then show ?thesis by simp
  next
    case (event q r e rest)
    have e: "e \<in> set (rec_wait_events r)" "is_waitable_event flags (we_event e)"
      using take_event_rest [OF event(3)] by auto
    have "res = Some (Inr (Some \<lparr>wr_pid = q, wr_status = we_status e, wr_event = we_event e\<rparr>))"
      using sel run ne t event by (auto simp: waitpid_for_def)
    moreover have "waitable flags r" using e by (auto simp: waitable_def)
    ultimately show ?thesis using e event(1,2) matching_children [OF ok] by (intro exI [of _ q] exI [of _ r]) auto
  next
    case (zombie q r)
    obtain code where code: "pe_exit_code (rec_entry r) = Some code"
      using ok zombie(2,3) by (auto simp: proc_ok_def record_ok_def)
    have "res = Some (Inr (Some \<lparr>wr_pid = q, wr_status = code, wr_event = Exited_event\<rparr>))"
      "bt_get (pt_entries st') q = None"
      using sel run ne t zombie code by (auto simp: waitpid_for_def)
    moreover have "waitable flags r" using zombie(3) by (simp add: waitable_def)
    ultimately show ?thesis using code zombie(1-3) matching_children [OF ok] by (intro exI [of _ q] exI [of _ r]) auto
  qed
qed

section \<open>Properties\<close>

text \<open>
  (C7) The process tree: in every run in which processes are registered with no parent or a living one
  and with only blocked signals pending, while there are pids left, every process is stored under its
  own pid, is the child of no one or of a living process (so an exit hands all children over), holds
  back only signals that it blocks, and has an exit code exactly when it has exited.
\<close>

theorem process_tree_invariant:
  assumes "valid_run proc_enabled proc_step (with_zombie_ttl ttl) es"
    and "bt_get (pt_entries (fold proc_step es (with_zombie_ttl ttl))) pid = Some r"
  shows "pe_pid (rec_entry r) = pid \<and>
    (pe_ppid (rec_entry r) = 0 \<or> alive (fold proc_step es (with_zombie_ttl ttl)) (pe_ppid (rec_entry r))) \<and>
    sigs (rec_pending r) \<subseteq> sigs (rec_blocked r) \<and>
    (status_of r = Exited \<longleftrightarrow> pe_exit_code (rec_entry r) \<noteq> None)"
  using proc_system.run_inv [OF assms(1)] assms(2) by (auto simp: proc_ok_def record_ok_def)

theorem process_tree_invariant_witness:
  "\<exists>r. bt_get (pt_entries (fold proc_step [Spawn [] [] [] default_context 1,
       Spawn [] [] [] (default_context\<lparr>ctx_ppid := 1\<rparr>) 2, Exit 1 3 0 0] (with_zombie_ttl 0))) 2 = Some r \<and>
     pe_pid (rec_entry r) = 2 \<and> pe_ppid (rec_entry r) = 0 \<and> sigs (rec_pending r) \<subseteq> sigs (rec_blocked r)"
proof -
  define es where "es = [Spawn [] [] [] default_context 1,
       Spawn [] [] [] (default_context\<lparr>ctx_ppid := 1\<rparr>) 2, Exit 1 3 0 0]"
  have v: "valid_run proc_enabled proc_step (with_zombie_ttl 0) es" unfolding es_def by code_simp
  have "map_option (\<lambda>r. pe_ppid (rec_entry r)) (bt_get (pt_entries (fold proc_step es (with_zombie_ttl 0))) 2) = Some 0"
    unfolding es_def by code_simp
  then obtain r where r: "bt_get (pt_entries (fold proc_step es (with_zombie_ttl 0))) 2 = Some r" "pe_ppid (rec_entry r) = 0"
    by auto
  with process_tree_invariant [OF v r(1)] show ?thesis unfolding es_def by blast
qed

text \<open>
  (C20) A process group lies in one session, and a group named after a living process lies in that
  process's session, in every run in which \<open>setsid\<close> is only called when no other living process is in the
  group with the caller's number.
\<close>

theorem groups_in_one_session:
  assumes "valid_run session_enabled proc_step (with_zombie_ttl ttl) es"
    and "bt_get (pt_entries (fold proc_step es (with_zombie_ttl ttl))) p = Some r" "status_of r \<noteq> Exited"
    and "bt_get (pt_entries (fold proc_step es (with_zombie_ttl ttl))) q = Some r'" "status_of r' \<noteq> Exited"
    and "pe_pgid (rec_entry r) = pe_pgid (rec_entry r') \<or> pe_pgid (rec_entry r) = q"
  shows "pe_sid (rec_entry r) = pe_sid (rec_entry r')"
proof -
  let ?st = "fold proc_step es (with_zombie_ttl ttl)"
  have "view_ok (live_view ?st)" using session_system.run_inv [OF assms(1)] by (simp add: sessions_ok_def)
  moreover have "live_view ?st p = Some (pe_pgid (rec_entry r), pe_sid (rec_entry r))"
    "live_view ?st q = Some (pe_pgid (rec_entry r'), pe_sid (rec_entry r'))"
    using assms(2-5) by (simp_all add: live_view_def)
  ultimately show ?thesis using assms(6) unfolding view_ok_def by blast
qed

theorem groups_in_one_session_witness:
  "\<exists>r r'. bt_get (pt_entries (fold proc_step [Spawn [] [] [] default_context 1,
       Spawn [] [] [] (default_context\<lparr>ctx_ppid := 1\<rparr>) 2] (with_zombie_ttl 0))) 1 = Some r \<and>
     bt_get (pt_entries (fold proc_step [Spawn [] [] [] default_context 1,
       Spawn [] [] [] (default_context\<lparr>ctx_ppid := 1\<rparr>) 2] (with_zombie_ttl 0))) 2 = Some r' \<and>
     pe_sid (rec_entry r) = pe_sid (rec_entry r')"
proof -
  define es where "es = [Spawn [] [] [] default_context 1, Spawn [] [] [] (default_context\<lparr>ctx_ppid := 1\<rparr>) 2]"
  let ?st = "fold proc_step es (with_zombie_ttl 0)"
  have v: "valid_run session_enabled proc_step (with_zombie_ttl 0) es" unfolding es_def by code_simp
  have "map_option (\<lambda>r. (status_of r, pe_pgid (rec_entry r))) (bt_get (pt_entries ?st) 1) = Some (Running, 1)"
    "map_option (\<lambda>r. (status_of r, pe_pgid (rec_entry r))) (bt_get (pt_entries ?st) 2) = Some (Running, 1)"
    unfolding es_def by code_simp+
  then obtain r r' where r: "bt_get (pt_entries ?st) 1 = Some r" "bt_get (pt_entries ?st) 2 = Some r'"
    "status_of r \<noteq> Exited" "status_of r' \<noteq> Exited" "pe_pgid (rec_entry r) = pe_pgid (rec_entry r')"
    by auto
  from groups_in_one_session [OF v r(1,3,2,4)] r show ?thesis unfolding es_def by blast
qed

text \<open>
  (C8) An exit status is never lost: after such a run, at every event of the table (the reaper, signals,
  exits, waits of any process, group changes, \<open>terminate_all\<close>) a zombie whose parent is alive either stays in the
  table with its exit code, or the event is a \<open>waitpid\<close> for it or its parent's \<open>waitpid_for\<close>, and that
  call returns exactly this pid and exit code.
\<close>

theorem exit_status_kept:
  assumes "valid_run proc_enabled proc_step (with_zombie_ttl ttl) es" "st = fold proc_step es (with_zombie_ttl ttl)"
    and "bt_get (pt_entries st) pid = Some r" "status_of r = Exited" "pe_exit_code (rec_entry r) = Some code"
    and "has_living_parent st (pe_ppid (rec_entry r))"
  shows "(\<exists>r'. bt_get (pt_entries (proc_step e st)) pid = Some r' \<and> status_of r' = Exited \<and>
      pe_exit_code (rec_entry r') = Some code) \<or>
    e = Wait pid \<and> fst (waitpid pid st) = Some (Inr (pid, code)) \<or>
    (\<exists>p f. e = Wait_for (pe_ppid (rec_entry r)) p f \<and> fst (waitpid_for (pe_ppid (rec_entry r)) p f st) =
      Some (Inr (Some \<lparr>wr_pid = pid, wr_status = code, wr_event = Exited_event\<rparr>)))"
proof -
  have ok: "proc_ok st" using proc_system.run_inv [OF assms(1)] assms(2) by simp
  have z: "zombie st pid code" using assms(3-5) by (auto simp: zombie_def)
  consider "e = Wait pid" | w p f where "e = Wait_for w p f" | "e \<noteq> Wait pid" "\<And>w p f. e \<noteq> Wait_for w p f" by blast
  then show ?thesis
  proof cases
    case 1
    with assms(3-5) show ?thesis by (simp add: waitpid_def)
  next
    case 2
    with zombie_waitpid_for [OF ok z, of w p f] assms(3) show ?thesis by (auto simp: zombie_def)
  next
    case 3
    with zombie_kept_step [OF ok z assms(3,6)] show ?thesis by (auto simp: zombie_def)
  qed
qed

theorem exit_status_kept_witness:
  "\<exists>r'. bt_get (pt_entries (proc_step (Reap 10) (fold proc_step [Spawn [] [] [] default_context 1,
       Spawn [] [] [] (default_context\<lparr>ctx_ppid := 1\<rparr>) 2, Exit 2 3 0 0] (with_zombie_ttl 0)))) 2 = Some r' \<and>
     status_of r' = Exited \<and> pe_exit_code (rec_entry r') = Some 3"
proof -
  define es where "es = [Spawn [] [] [] default_context 1,
       Spawn [] [] [] (default_context\<lparr>ctx_ppid := 1\<rparr>) 2, Exit 2 3 0 0]"
  define st where "st = fold proc_step es (with_zombie_ttl 0)"
  have v: "valid_run proc_enabled proc_step (with_zombie_ttl 0) es" unfolding es_def by code_simp
  have "map_option (\<lambda>r. (status_of r, pe_exit_code (rec_entry r), has_living_parent st (pe_ppid (rec_entry r))))
      (bt_get (pt_entries st) 2) = Some (Exited, Some 3, True)"
    unfolding st_def es_def by code_simp
  then obtain r where r: "bt_get (pt_entries st) 2 = Some r" "status_of r = Exited"
    "pe_exit_code (rec_entry r) = Some 3" "has_living_parent st (pe_ppid (rec_entry r))"
    by auto
  from exit_status_kept [OF v st_def r, of "Reap 10"] show ?thesis unfolding st_def es_def by blast
qed

text \<open>
  (C11) No stopped process is left behind in an orphaned group: after an exit, a group that the exit may
  have orphaned (the group of the process and those of its children) and that is orphaned has no stopped
  member, whatever the signal masks are.
\<close>

theorem orphaned_groups_continue:
  assumes "valid_run proc_enabled proc_step (with_zombie_ttl ttl) es" "st = fold proc_step es (with_zombie_ttl ttl)"
    and "bt_get (pt_entries st) pid = Some r" "status_of r \<noteq> Exited"
    and "g = pe_pgid (rec_entry r) \<or> (\<exists>q x. bt_get (pt_entries st) q = Some x \<and> q \<noteq> pid \<and>
              pe_ppid (rec_entry x) = pid \<and> pe_pgid (rec_entry x) = g)"
    and "process_group_is_orphaned (mark_exited pid c now t st) g"
  shows "\<not> process_group_has_stopped_member (mark_exited pid c now t st) g"
proof -
  have "proc_ok st" using proc_system.run_inv [OF assms(1)] assms(2) by simp
  then show ?thesis using assms(3-6) by (rule exit_continues_orphans)
qed

theorem orphaned_groups_continue_witness:
  "\<not> process_group_has_stopped_member (mark_exited 1 0 0 0 (fold proc_step [Spawn [] [] [] default_context 1,
       Spawn [] [] [] (default_context\<lparr>ctx_ppid := 1\<rparr>) 2, Stop_report 2 19] (with_zombie_ttl 0))) 1"
proof -
  define es where "es = [Spawn [] [] [] default_context 1,
       Spawn [] [] [] (default_context\<lparr>ctx_ppid := 1\<rparr>) 2, Stop_report 2 19]"
  define st where "st = fold proc_step es (with_zombie_ttl 0)"
  have v: "valid_run proc_enabled proc_step (with_zombie_ttl 0) es" unfolding es_def by code_simp
  have "map_option (\<lambda>r. (status_of r, pe_pgid (rec_entry r))) (bt_get (pt_entries st) 1) = Some (Running, 1)"
    unfolding st_def es_def by code_simp
  then obtain r where r: "bt_get (pt_entries st) 1 = Some r" "status_of r \<noteq> Exited" "1 = pe_pgid (rec_entry r)"
    by auto
  have o: "process_group_is_orphaned (mark_exited 1 0 0 0 st) 1" unfolding st_def es_def by code_simp
  from orphaned_groups_continue [OF v st_def r(1,2) disjI1 [OF r(3)] o] show ?thesis unfolding st_def es_def .
qed

text \<open>
  (C16) Signals do not cascade: although delivering a signal may change the status of a process, which
  signals its parent, which is delivered in turn, a batch of deliveries calls the drivers at most twice
  per delivery, first the batch itself in order and then only \<open>SIGCHLD\<close>.
\<close>

theorem signal_delivery_bounded:
  "\<exists>ks. pt_kills (deliver_signals ds st) = pt_kills st @ map (\<lambda>d. (d_driver d, d_signal d)) ds @ ks \<and>
     snd ` set ks \<subseteq> {SIGCHLD} \<and> length ks \<le> length ds"
proof -
  obtain ks where ks: "pt_kills (deliver_signals ds st) = pt_kills st @ map (\<lambda>d. (d_driver d, d_signal d)) ds @ ks"
    "\<forall>k \<in> set ks. snd k = SIGCHLD" using deliver_signals_log by blast
  with deliver_kills [of ds st] show ?thesis by (intro exI [of _ ks]) auto
qed

text \<open>
  (C17) \<open>sigprocmask\<close> returns the old mask, installs the new one, and hands the driver each pending signal
  that the new mask lets through exactly once, in ascending order; the others stay pending.
\<close>

theorem sigprocmask_correct:
  assumes "bt_get (pt_entries st) pid = Some r"
  shows "\<exists>st' r' ks. sigprocmask pid how s st = (Inr (rec_blocked r), st') \<and>
    bt_get (pt_entries st') pid = Some r' \<and> rec_blocked r' = new_mask how (rec_blocked r) s \<and>
    sigs (rec_pending r) \<inter> sigs (rec_blocked r') \<subseteq> sigs (rec_pending r') \<and>
    sigs (rec_pending r') \<subseteq> sigs (rec_blocked r') \<and>
    pt_kills st' = pt_kills st @
      map (\<lambda>n. (rec_driver r, n)) (signals (sig_difference (rec_pending r) (rec_blocked r'))) @ ks \<and>
    (\<forall>k \<in> set ks. snd k = SIGCHLD)"
proof -
  let ?m = "new_mask how (rec_blocked r) s"
  let ?ds = "map (schedule r) (signals (sig_difference (rec_pending r) ?m))"
  obtain p where run: "sigprocmask pid how s st = (Inr (rec_blocked r),
      deliver_signals ?ds (put_record pid (r\<lparr>rec_blocked := ?m, rec_pending := p\<rparr>) st))"
    and p: "sigs p = sigs (rec_pending r) \<inter> sigs ?m" using sigprocmask_result [OF assms refl, of how s] by blast
  let ?st1 = "put_record pid (r\<lparr>rec_blocked := ?m, rec_pending := p\<rparr>) st"
  obtain r' where r': "bt_get (pt_entries (deliver_signals ?ds ?st1)) pid = Some r'"
    "rec_step (r\<lparr>rec_blocked := ?m, rec_pending := p\<rparr>) r'"
    using sig_step_get [OF sig_step_deliver [of ?st1 ?ds], of pid] by auto
  obtain ks where "pt_kills (deliver_signals ?ds ?st1) = pt_kills ?st1 @ map (\<lambda>d. (d_driver d, d_signal d)) ?ds @ ks"
    "\<forall>k \<in> set ks. snd k = SIGCHLD" using deliver_signals_log by blast
  with r' p run show ?thesis
    by (intro exI [of _ "deliver_signals ?ds ?st1"] exI [of _ r'] exI [of _ ks])
       (auto simp: rec_step_def comp_def schedule_def)
qed

theorem sigprocmask_correct_witness:
  "\<exists>st' ks. sigprocmask 1 Set_mask 0 (fold proc_step [Spawn [] [] []
       (default_context\<lparr>ctx_blocked_signals := 16384, ctx_pending_signals := 16384\<rparr>) 7] (with_zombie_ttl 0)) = (Inr 16384, st') \<and>
     pt_kills st' = [(7, 15)] @ ks"
proof -
  define st where "st = fold proc_step [Spawn [] [] []
       (default_context\<lparr>ctx_blocked_signals := 16384, ctx_pending_signals := 16384\<rparr>) 7] (with_zombie_ttl 0)"
  have "map_option (\<lambda>r. (rec_blocked r, rec_driver r, signals (sig_difference (rec_pending r) (new_mask Set_mask (rec_blocked r) 0))))
      (bt_get (pt_entries st) 1) = Some (16384, 7, [15])" "pt_kills st = []" unfolding st_def by code_simp+
  then obtain r where r: "bt_get (pt_entries st) 1 = Some r" "rec_blocked r = 16384" "rec_driver r = 7"
    "signals (sig_difference (rec_pending r) (new_mask Set_mask 16384 0)) = [15]" and k: "pt_kills st = []"
    by auto
  from sigprocmask_correct [OF r(1), of Set_mask 0] obtain st' ks and r' :: process_record where
    "sigprocmask 1 Set_mask 0 st = (Inr (rec_blocked r), st')" "rec_blocked r' = new_mask Set_mask (rec_blocked r) 0"
    "pt_kills st' = pt_kills st @ map (\<lambda>n. (rec_driver r, n)) (signals (sig_difference (rec_pending r) (rec_blocked r'))) @ ks"
    by blast
  with r k show ?thesis unfolding st_def by auto
qed

text \<open>
  (C10) The contract of \<open>waitpid\<close> with a selector, in every run: the error is reported exactly when the
  waiter has no matching child; otherwise a queued event of a matching child or the exit of a zombie is
  returned (and the zombie reaped), and the call waits, or returns nothing under \<open>WNOHANG\<close>, exactly when
  no matching child has anything to report.
\<close>

theorem waitpid_for_correct:
  assumes "valid_run proc_enabled proc_step (with_zombie_ttl ttl) es" "st = fold proc_step es (with_zombie_ttl ttl)"
    and "resolve_wait_selector st w pid = Inr sel" "waitpid_for w pid flags st = (res, st')"
    and "\<And>q r. child q r \<longleftrightarrow>
      bt_get (pt_entries st) q = Some r \<and> pe_ppid (rec_entry r) = w \<and> selects sel (rec_entry r)"
  shows "(if \<nexists>q r. child q r then res = Some (Inl (No_matching_child w pid)) \<and> st' = st
     else if \<exists>q r. child q r \<and> waitable flags r
     then (\<exists>q r. child q r \<and>
       ((\<exists>e \<in> set (rec_wait_events r). is_waitable_event flags (we_event e) \<and>
          res = Some (Inr (Some \<lparr>wr_pid = q, wr_status = we_status e, wr_event = we_event e\<rparr>))) \<or>
        (\<exists>c. pe_exit_code (rec_entry r) = Some c \<and> status_of r = Exited \<and> bt_get (pt_entries st') q = None \<and>
          res = Some (Inr (Some \<lparr>wr_pid = q, wr_status = c, wr_event = Exited_event\<rparr>)))))
     else res = (if flags_contain flags WNOHANG then Some (Inr None) else None) \<and> st' = st)"
proof -
  have ok: "proc_ok st" using proc_system.run_inv [OF assms(1)] assms(2) by simp
  let ?cs = "matching_child_pids st w sel"
  have cs: "q \<in> set ?cs \<longleftrightarrow> (\<exists>r. child q r)" for q using matching_children [OF ok] assms(5) by simp
  obtain tr tst where t: "take_waitable_event ?cs flags st = (tr, tst)" by fastforce
  show ?thesis
  proof (cases tr)
    case (Some x)
    from waitpid_for_reports [OF ok assms(3,4) t [unfolded Some]] have
      "\<exists>q r. child q r \<and> waitable flags r \<and>
       ((\<exists>e \<in> set (rec_wait_events r). is_waitable_event flags (we_event e) \<and>
          res = Some (Inr (Some \<lparr>wr_pid = q, wr_status = we_status e, wr_event = we_event e\<rparr>))) \<or>
        (\<exists>c. pe_exit_code (rec_entry r) = Some c \<and> status_of r = Exited \<and> bt_get (pt_entries st') q = None \<and>
          res = Some (Inr (Some \<lparr>wr_pid = q, wr_status = c, wr_event = Exited_event\<rparr>))))"
      unfolding assms(5) .
    then show ?thesis by auto
  next
    case None
    have "tst = st" using t None by (cases rule: take_waitable_event_cases) auto
    with t None have n: "take_waitable_event ?cs flags st = (None, st)" by simp
    then have "\<not> waitable flags r" if "child q r" for q r
      using take_waitable_event_None [OF n] that cs assms(5) by blast
    moreover have "waitpid_for w pid flags st = (if ?cs = [] then (Some (Inl (No_matching_child w pid)), st)
        else if flags_contain flags WNOHANG then (Some (Inr None), st) else (None, st))"
      using assms(3) n by (simp add: waitpid_for_def)
    moreover have "?cs = [] \<longleftrightarrow> (\<nexists>q r. child q r)" using cs by (metis list.set_intros(1) neq_Nil_conv set_empty empty_iff)
    ultimately show ?thesis using assms(4) by (cases "\<exists>q r. child q r") (auto split: if_splits)
  qed
qed

theorem waitpid_for_correct_witness:
  "\<exists>x. fst (waitpid_for 1 (- 1) 0 (fold proc_step [Spawn [] [] [] default_context 1,
       Spawn [] [] [] (default_context\<lparr>ctx_ppid := 1\<rparr>) 2, Exit 2 3 0 0] (with_zombie_ttl 0))) = Some (Inr (Some x))"
proof -
  define es where "es = [Spawn [] [] [] default_context 1,
       Spawn [] [] [] (default_context\<lparr>ctx_ppid := 1\<rparr>) 2, Exit 2 3 0 0]"
  define st where "st = fold proc_step es (with_zombie_ttl 0)"
  have v: "valid_run proc_enabled proc_step (with_zombie_ttl 0) es" unfolding es_def by code_simp
  have sel: "resolve_wait_selector st 1 (- 1) = Inr Any_child"
    and c: "map_option (\<lambda>r. (status_of r, pe_ppid (rec_entry r))) (bt_get (pt_entries st) 2) = Some (Exited, 1)"
    unfolding st_def es_def by code_simp+
  define child where "child q r \<longleftrightarrow>
      bt_get (pt_entries st) q = Some r \<and> pe_ppid (rec_entry r) = 1 \<and> selects Any_child (rec_entry r)" for q r
  from c obtain r where "child 2 r" "waitable 0 r"
    unfolding child_def waitable_def by auto
  moreover obtain res st' where run: "waitpid_for 1 (- 1) 0 st = (res, st')" by fastforce
  ultimately have "\<exists>x. res = Some (Inr (Some x))"
    using waitpid_for_correct [OF v st_def sel run child_def] by (auto split: if_splits)
  with run have "\<exists>x. fst (waitpid_for 1 (- 1) 0 st) = Some (Inr (Some x))" by simp
  then show ?thesis unfolding st_def es_def .
qed

text \<open>
  \<open>terminate_all\<close> only addresses running processes: when every process is stopped or has exited it
  sends no signal and changes no process, so a stopped process survives it.
\<close>

theorem terminate_all_skips_stopped:
  assumes "running_count st = 0"
  shows "pt_entries (terminate_all answer1 answer2 now now_ms st) = pt_entries st \<and>
    pt_kills (terminate_all answer1 answer2 now now_ms st) = pt_kills st"
proof -
  have "running_processes (reaper_clear (st\<lparr>pt_terminating_all := True\<rparr>)) = []"
    using assms by (simp add: running_count_def running_processes_def reaper_clear_def)
  then show ?thesis by (simp add: terminate_all_def kill_and_wait_def Let_def) (simp add: reaper_clear_def)
qed

theorem terminate_all_skips_stopped_witness:
  "pt_kills (terminate_all (\<lambda>_. Some 0) (\<lambda>_. Some 0) 0 0
     (fold proc_step [Spawn [] [] [] default_context 1, Stop_report 1 19] (with_zombie_ttl 0))) = []"
proof -
  define st where "st = fold proc_step [Spawn [] [] [] default_context 1, Stop_report 1 19] (with_zombie_ttl 0)"
  have "running_count st = 0" "pt_kills st = []" unfolding st_def by code_simp+
  with terminate_all_skips_stopped [of st "\<lambda>_. Some 0" "\<lambda>_. Some 0" 0 0] show ?thesis unfolding st_def by simp
qed

text \<open>
  \<open>setsid\<close> itself does not keep groups inside one session: a former leader of the group with its number
  that returns by \<open>setsid\<close> shares the group with the member it left behind in the old session.
\<close>

lemma setsid_splits_group:
  "\<exists>es r r'. valid_run proc_enabled proc_step (with_zombie_ttl 0) es \<and>
     bt_get (pt_entries (fold proc_step es (with_zombie_ttl 0))) 2 = Some r \<and> status_of r = Running \<and>
     bt_get (pt_entries (fold proc_step es (with_zombie_ttl 0))) 3 = Some r' \<and> status_of r' = Running \<and>
     pe_pgid (rec_entry r) = pe_pgid (rec_entry r') \<and> pe_sid (rec_entry r) \<noteq> pe_sid (rec_entry r')"
proof -
  define es where "es =
    [Spawn ''wasm'' ''sh'' [] default_context 1, Spawn ''wasm'' ''job'' [] (default_context\<lparr>ctx_ppid := 1\<rparr>) 2,
     Setpgid 2 2, Spawn ''wasm'' ''worker'' [] (default_context\<lparr>ctx_ppid := 2\<rparr>) 3, Setpgid 2 1, Setsid 2]"
  let ?st = "fold proc_step es (with_zombie_ttl 0)"
  have v: "valid_run proc_enabled proc_step (with_zombie_ttl 0) es" unfolding es_def by code_simp
  have "map_option (\<lambda>r. (status_of r, pe_pgid (rec_entry r), pe_sid (rec_entry r))) (bt_get (pt_entries ?st) 2) = Some (Running, 2, 2)"
    "map_option (\<lambda>r. (status_of r, pe_pgid (rec_entry r), pe_sid (rec_entry r))) (bt_get (pt_entries ?st) 3) = Some (Running, 2, 1)"
    unfolding es_def by code_simp+
  then obtain r r' where "bt_get (pt_entries ?st) 2 = Some r" "bt_get (pt_entries ?st) 3 = Some r'"
    "(status_of r, pe_pgid (rec_entry r), pe_sid (rec_entry r)) = (Running, 2, 2)"
    "(status_of r', pe_pgid (rec_entry r'), pe_sid (rec_entry r')) = (Running, 2, 1)"
    by (auto simp only: map_option_eq_Some)
  with v show ?thesis by (intro exI [of _ es] exI [of _ r] exI [of _ r']) simp
qed

end
