(* ===== verification/Vfs_Path.thy ===== *)
theory Vfs_Path
  imports Rust_Prelude "HOL-Library.Sublist"
begin

text \<open>
  The path functions of \<open>crates/kernel/src/vfs.rs\<close>: splitting, normalisation, parent directory and
  validation.  A Rust string is the list of its UTF-8 bytes.  Every normalised path is the rendering
  \<open>abs_path\<close> of a list of proper components, and the lemmas below move between the two views, so that the
  theories of the file systems argue about component lists.
\<close>

section \<open>Splitting and joining\<close>

abbreviation slash :: char where "slash \<equiv> CHR ''/''"

text \<open>\<open>str::split\<close> at a character, \<open>slice::join\<close> and \<open>str::rsplit_once\<close>.\<close>

fun split_on :: "char \<Rightarrow> string \<Rightarrow> string list" where
  "split_on c [] = [[]]"
| "split_on c (x # xs) =
     (if x = c then [] # split_on c xs
      else case split_on c xs of [] \<Rightarrow> [[x]] | w # ws \<Rightarrow> (x # w) # ws)"

fun join_with :: "string \<Rightarrow> string list \<Rightarrow> string" where
  "join_with sep [] = []"
| "join_with sep [w] = w"
| "join_with sep (w # v # ws) = w @ sep @ join_with sep (v # ws)"

fun rsplit_once :: "char \<Rightarrow> string \<Rightarrow> (string \<times> string) option" where
  "rsplit_once c [] = None"
| "rsplit_once c (x # xs) =
     (case rsplit_once c xs of
        Some (head, tail) \<Rightarrow> Some (x # head, tail)
      | None \<Rightarrow> if x = c then Some ([], xs) else None)"

abbreviation starts_with :: "string \<Rightarrow> string \<Rightarrow> bool" where
  "starts_with s p \<equiv> take (length p) s = p"

section \<open>Normalisation\<close>

text \<open>One step of the loop of \<open>normalize_path\<close> over the parts of the candidate.\<close>

definition normalize_part :: "string \<Rightarrow> string list \<Rightarrow> string list" where
  "normalize_part part resolved =
     (if part = '''' \<or> part = ''.'' then resolved
      else if part = ''..'' then butlast resolved
      else resolved @ [part])"

definition normalize_path :: "string \<Rightarrow> string" where
  "normalize_path path =
     (if path = '''' then ''/''
      else
        let candidate = (if starts_with path ''/'' then path else ''/'' @ path);
            resolved = fold normalize_part (split_on slash candidate) []
        in if resolved = [] then ''/'' else ''/'' @ join_with ''/'' resolved)"

definition dirname :: "string \<Rightarrow> string" where
  "dirname path =
     (case rsplit_once slash (normalize_path path) of
        None \<Rightarrow> ''/''
      | Some (head, _) \<Rightarrow> if head = '''' then ''/'' else head)"

text \<open>The parts of a normalised path, and the path of an entry of a directory.\<close>

definition path_parts :: "string \<Rightarrow> string list" where
  "path_parts normalized = filter (\<lambda>part. part \<noteq> '''') (split_on slash normalized)"

definition child_path :: "string \<Rightarrow> string \<Rightarrow> string" where
  "child_path current component =
     (if current = ''/'' then ''/'' @ component else current @ ''/'' @ component)"

section \<open>Component lists\<close>

definition proper :: "string \<Rightarrow> bool" where
  "proper c \<longleftrightarrow> c \<noteq> '''' \<and> c \<noteq> ''.'' \<and> c \<noteq> ''..'' \<and> slash \<notin> set c"

definition abs_path :: "string list \<Rightarrow> string" where
  "abs_path cs = (if cs = [] then ''/'' else concat (map (\<lambda>c. slash # c) cs))"

abbreviation proper_list :: "string list \<Rightarrow> bool" where
  "proper_list cs \<equiv> list_all proper cs"

lemma split_on_nonempty [simp]: "split_on c xs \<noteq> []"
  by (induction xs) (auto split: list.splits)

lemma split_on_parts: "w \<in> set (split_on c xs) \<Longrightarrow> c \<notin> set w"
proof (induction xs arbitrary: w)
  case (Cons x xs)
  then show ?case by (cases "split_on c xs") (auto split: if_splits)
qed simp

lemma split_on_free: "c \<notin> set w \<Longrightarrow> split_on c w = [w]"
  by (induction w) auto

lemma split_on_append: "c \<notin> set w \<Longrightarrow> split_on c (w @ c # xs) = w # split_on c xs"
  by (induction w) auto

lemma set_split_on: "set (concat (split_on c xs)) \<subseteq> set xs"
proof (induction xs)
  case (Cons x xs)
  then show ?case by (cases "split_on c xs") auto
qed simp

lemma split_on_abs:
  "list_all (\<lambda>w. c \<notin> set w) ws \<Longrightarrow> c \<notin> set w \<Longrightarrow>
     split_on c (w @ concat (map (\<lambda>w. c # w) ws)) = w # ws"
  by (induction ws arbitrary: w) (auto simp: split_on_free split_on_append)

lemma join_with_slash: "ws \<noteq> [] \<Longrightarrow> ''/'' @ join_with ''/'' ws = concat (map (\<lambda>c. slash # c) ws)"
proof (induction ws rule: induct_list012)
  case (3 w v ws)
  then show ?case by simp
qed auto

lemma abs_path_simps [simp]:
  "abs_path [] = ''/''"
  "abs_path cs \<noteq> []"
  "abs_path [c] = slash # c"
  by (cases cs; simp add: abs_path_def)+

lemma abs_path_Cons: "cs \<noteq> [] \<Longrightarrow> abs_path cs = concat (map (\<lambda>c. slash # c) cs)"
  by (simp add: abs_path_def)

lemma hd_abs_path: "\<exists>s. abs_path cs = slash # s"
  by (cases cs) (auto simp: abs_path_def)

lemma starts_with_slash: "starts_with (abs_path cs) ''/''"
  using hd_abs_path [of cs] by auto

lemma proper_listD: "proper_list cs \<Longrightarrow> c \<in> set cs \<Longrightarrow> proper c"
  by (simp add: list_all_iff)

lemma slash_free: "proper_list cs \<Longrightarrow> list_all (\<lambda>w. slash \<notin> set w) cs"
  by (simp add: list_all_iff proper_def)

lemma split_abs_path: "proper_list cs \<Longrightarrow> cs \<noteq> [] \<Longrightarrow> split_on slash (abs_path cs) = [] # cs"
  using split_on_abs [OF slash_free, of cs "[]"] by (simp add: abs_path_def)

lemma path_parts_abs_path [simp]: "proper_list cs \<Longrightarrow> path_parts (abs_path cs) = cs"
proof (cases "cs = []")
  case True
  then show ?thesis by (simp add: path_parts_def)
next
  case False
  assume p: "proper_list cs"
  then have "filter (\<lambda>part. part \<noteq> []) cs = cs" by (intro filter_True) (auto simp: list_all_iff proper_def)
  with p False show ?thesis by (simp add: path_parts_def split_abs_path)
qed

lemma abs_path_inject:
  assumes "proper_list cs" "proper_list ds"
  shows "abs_path cs = abs_path ds \<longleftrightarrow> cs = ds"
proof
  assume "abs_path cs = abs_path ds"
  then have "path_parts (abs_path cs) = path_parts (abs_path ds)" by (simp only:)
  then show "cs = ds" unfolding path_parts_abs_path [OF assms(1)] path_parts_abs_path [OF assms(2)] .
qed simp

lemma abs_path_root [simp]: "proper_list cs \<Longrightarrow> abs_path cs = ''/'' \<longleftrightarrow> cs = []"
  using abs_path_inject [of cs "[]"] by simp

lemma child_path_abs [simp]:
  "proper_list cs \<Longrightarrow> child_path (abs_path cs) c = abs_path (cs @ [c])"
  using abs_path_root [of cs] by (cases "cs = []") (simp_all add: child_path_def abs_path_Cons del: abs_path_root)

subsection \<open>Normalised paths\<close>

definition components :: "string \<Rightarrow> string list" where
  "components path = fold normalize_part (split_on slash path) []"

lemma fold_normalize_proper:
  "proper_list cs \<Longrightarrow> list_all (\<lambda>w. slash \<notin> set w) ws \<Longrightarrow> proper_list (fold normalize_part ws cs)"
proof (induction ws arbitrary: cs)
  case (Cons w ws)
  have "proper_list (butlast cs)" using Cons.prems(1) unfolding list_all_iff by (blast dest: in_set_butlastD)
  moreover have "proper w" if "w \<noteq> ''''" "w \<noteq> ''.''" "w \<noteq> ''..''"
    using Cons.prems(2) that by (simp add: proper_def)
  ultimately have "proper_list (normalize_part w cs)" using Cons.prems(1) by (simp add: normalize_part_def)
  with Cons show ?case by simp
qed simp

lemma components_proper: "proper_list (components path)"
  unfolding components_def
  by (rule fold_normalize_proper) (simp, unfold list_all_iff, blast dest: split_on_parts)

lemma split_on_slash_cons: "components (''/'' @ path) = components path"
  by (simp add: components_def normalize_part_def)

text \<open>Normalisation renders the components of the path.\<close>

lemma normalize_path_eq: "normalize_path path = abs_path (components path)"
proof (cases "path = []")
  case True
  then show ?thesis by (simp add: normalize_path_def components_def normalize_part_def)
next
  case False
  let ?c = "if starts_with path ''/'' then path else ''/'' @ path"
  have "fold normalize_part (split_on slash ?c) [] = components path"
    using split_on_slash_cons [of path] by (simp add: components_def)
  with False show ?thesis
    by (cases "components path = []")
       (simp_all add: normalize_path_def Let_def join_with_slash [simplified] abs_path_Cons)
qed

lemma fold_normalize_id: "proper_list ws \<Longrightarrow> fold normalize_part ws cs = cs @ ws"
  by (induction ws arbitrary: cs) (auto simp: normalize_part_def proper_def)

lemma components_abs_path [simp]: "proper_list cs \<Longrightarrow> components (abs_path cs) = cs"
proof (cases "cs = []")
  case False
  assume p: "proper_list cs"
  with False show ?thesis
    by (simp add: components_def split_abs_path fold_normalize_id [OF p]) (simp add: normalize_part_def fold_normalize_id)
qed (simp add: components_def normalize_part_def)

lemma normalize_abs_path [simp]: "proper_list cs \<Longrightarrow> normalize_path (abs_path cs) = abs_path cs"
  by (simp add: normalize_path_eq)

lemma normalize_idem [simp]: "normalize_path (normalize_path path) = normalize_path path"
  by (simp add: normalize_path_eq components_proper)

lemma path_parts_normalize [simp]: "path_parts (normalize_path path) = components path"
  by (simp add: normalize_path_eq components_proper)

text \<open>The components of a joined path: those of the second path applied to those of the first.\<close>

lemma split_on_join: "split_on c (xs @ c # ys) = split_on c xs @ split_on c ys"
proof (induction xs)
  case (Cons x xs)
  then show ?case by (cases "split_on c xs") auto
qed simp

lemma components_join: "components (p @ ''/'' @ q) = fold normalize_part (split_on slash q) (components p)"
  by (simp add: components_def split_on_join)

lemma components_join_proper: "proper_list cs \<Longrightarrow> components (p @ ''/'' @ join_with ''/'' cs) = components p @ cs"
proof (cases "cs = []")
  case True
  then show ?thesis by (simp add: components_join [simplified] normalize_part_def)
next
  case False
  assume p: "proper_list cs"
  have "''/'' @ join_with ''/'' cs = abs_path cs" using join_with_slash [OF False] abs_path_Cons [OF False] by simp
  then have "split_on slash (slash # join_with ''/'' cs) = [] # cs" using p False split_abs_path by simp
  then have "split_on slash (join_with ''/'' cs) = cs" by simp
  with p show ?thesis by (simp add: components_join [simplified] fold_normalize_id)
qed

subsection \<open>Parents and prefixes\<close>

lemma rsplit_once_free: "c \<notin> set w \<Longrightarrow> rsplit_once c w = None"
  by (induction w) auto

lemma rsplit_once_last: "c \<notin> set w \<Longrightarrow> rsplit_once c (xs @ c # w) = Some (xs, w)"
  by (induction xs) (auto simp: rsplit_once_free)

lemma dirname_abs_path [simp]: "proper_list cs \<Longrightarrow> dirname (abs_path cs) = abs_path (butlast cs)"
proof (cases cs rule: rev_cases)
  case Nil
  have "normalize_path ''/'' = ''/''" using normalize_abs_path [of "[]"] by simp
  with Nil show ?thesis by (simp add: dirname_def)
next
  case (snoc ds c)
  assume p: "proper_list cs"
  then have "slash \<notin> set c" using snoc by (simp add: proper_def)
  then have r: "rsplit_once slash (abs_path cs) = Some (concat (map (\<lambda>c. slash # c) ds), c)"
    using rsplit_once_last [of slash c "concat (map (\<lambda>c. slash # c) ds)"] by (simp add: abs_path_def snoc)
  show ?thesis unfolding dirname_def normalize_abs_path [OF p] r by (simp add: snoc abs_path_def)
qed

lemma dirname_normalized: "dirname path = abs_path (butlast (components path))"
proof -
  have "dirname path = dirname (normalize_path path)" unfolding dirname_def by simp
  then show ?thesis by (simp add: normalize_path_eq components_proper)
qed

lemma abs_path_append: "cs \<noteq> [] \<Longrightarrow> ds \<noteq> [] \<Longrightarrow> abs_path (cs @ ds) = abs_path cs @ abs_path ds"
  by (simp add: abs_path_def)

text \<open>The test \<open>starts_with("{path}/")\<close> is the strict prefix order on component lists, below the root.\<close>

lemma starts_with_iff_prefix: "starts_with s p \<longleftrightarrow> prefix p s"
proof
  assume "starts_with s p"
  then have "s = p @ drop (length p) s" by (metis append_take_drop_id)
  then show "prefix p s" unfolding prefix_def by blast
qed (auto simp: prefix_def)

lemma below_iff:
  assumes "proper_list cs" "proper_list ds" "cs \<noteq> []"
  shows "prefix (abs_path cs @ ''/'') (abs_path ds) \<longleftrightarrow> strict_prefix cs ds"
proof
  assume "strict_prefix cs ds"
  then obtain e es where "ds = cs @ e # es" by (auto elim: strict_prefixE')
  with assms(3) show "prefix (abs_path cs @ ''/'') (abs_path ds)" by (simp add: abs_path_def)
next
  assume "prefix (abs_path cs @ ''/'') (abs_path ds)"
  then obtain s where s: "abs_path ds = abs_path cs @ slash # s" by (auto simp: prefix_def)
  have "split_on slash (abs_path ds) = split_on slash (abs_path cs) @ split_on slash s"
    unfolding s by (rule split_on_join)
  moreover have "ds \<noteq> []" using s assms(3) by (cases ds) (auto simp: abs_path_def Cons_eq_append_conv)
  ultimately have "ds = cs @ split_on slash s" using assms by (simp add: split_abs_path)
  then show "strict_prefix cs ds" by (simp add: strict_prefix_def prefix_def)
qed

lemma below_root: "proper_list ds \<Longrightarrow> \<not> prefix (''/'' @ ''/'') (abs_path ds)"
proof (cases ds)
  case (Cons d ds')
  assume "proper_list ds"
  with Cons have "d \<noteq> []" "slash \<notin> set d" by (simp_all add: proper_def)
  with Cons show ?thesis by (cases d) (auto simp: abs_path_def prefix_def)
qed (simp add: prefix_def)

section \<open>Errors\<close>

text \<open>
  A file system error: a constructor per constructor function of \<open>VfsError\<close>, \<open>Vfs_error\<close> for the direct use
  of \<open>VfsError::new\<close>.  \<open>Panicked\<close> stands for a failed \<open>expect\<close>.
\<close>

datatype vfs_error =
    Not_found string string
  | Already_exists string string
  | Is_directory string string
  | Not_directory string string
  | Path_too_long string
  | Not_empty string
  | Permission_denied string string
  | Access_denied string string "string option"
  | Symlink_loop string
  | Invalid_input string
  | Invalid_utf8 string
  | Io_error string
  | Unsupported string
  | Vfs_error string string
  | Panicked

fun vfs_error_code :: "vfs_error \<Rightarrow> string" where
  "vfs_error_code (Not_found op path) = ''ENOENT''"
| "vfs_error_code (Already_exists op path) = ''EEXIST''"
| "vfs_error_code (Is_directory op path) = ''EISDIR''"
| "vfs_error_code (Not_directory op path) = ''ENOTDIR''"
| "vfs_error_code (Path_too_long path) = ''ENAMETOOLONG''"
| "vfs_error_code (Not_empty path) = ''ENOTEMPTY''"
| "vfs_error_code (Permission_denied op path) = ''EPERM''"
| "vfs_error_code (Access_denied op path reason) = ''EACCES''"
| "vfs_error_code (Symlink_loop path) = ''ELOOP''"
| "vfs_error_code (Invalid_input message) = ''EINVAL''"
| "vfs_error_code (Invalid_utf8 path) = ''EINVAL''"
| "vfs_error_code (Io_error message) = ''EIO''"
| "vfs_error_code (Unsupported message) = ''ENOSYS''"
| "vfs_error_code (Vfs_error code message) = code"
| "vfs_error_code Panicked = ''''"

abbreviation quoted :: "string \<Rightarrow> string" where
  "quoted s \<equiv> [CHR 0x27] @ s @ [CHR 0x27]"

fun vfs_error_message :: "vfs_error \<Rightarrow> string" where
  "vfs_error_message (Not_found op path) = ''no such file or directory, '' @ op @ '' '' @ quoted path"
| "vfs_error_message (Already_exists op path) = ''file already exists, '' @ op @ '' '' @ quoted path"
| "vfs_error_message (Is_directory op path) = ''illegal operation on a directory, '' @ op @ '' '' @ quoted path"
| "vfs_error_message (Not_directory op path) = ''not a directory, '' @ op @ '' '' @ quoted path"
| "vfs_error_message (Path_too_long path) = ''file name too long: '' @ path"
| "vfs_error_message (Not_empty path) = ''directory not empty, rmdir '' @ quoted path"
| "vfs_error_message (Permission_denied op path) = ''operation not permitted, '' @ op @ '' '' @ quoted path"
| "vfs_error_message (Access_denied op path reason) =
     ''permission denied, '' @ op @ '' '' @ quoted path @ (case reason of None \<Rightarrow> '''' | Some r \<Rightarrow> '': '' @ r)"
| "vfs_error_message (Symlink_loop path) = ''too many levels of symbolic links, '' @ quoted path"
| "vfs_error_message (Invalid_input message) = message"
| "vfs_error_message (Invalid_utf8 path) = ''file contains invalid UTF-8, '' @ quoted path"
| "vfs_error_message (Io_error message) = message"
| "vfs_error_message (Unsupported message) = message"
| "vfs_error_message (Vfs_error code message) = message"
| "vfs_error_message Panicked = ''''"

section \<open>Validation\<close>

definition MAX_PATH_LENGTH :: nat where "MAX_PATH_LENGTH = 4096"

definition is_ascii_control :: "char \<Rightarrow> bool" where
  "is_ascii_control c \<longleftrightarrow> of_char c < (32 :: nat) \<or> of_char c = (127 :: nat)"

definition hex_digit :: "nat \<Rightarrow> char" where
  "hex_digit n = (if n < 10 then char_of (48 + n) else char_of (87 + n))"

definition hex_byte :: "char \<Rightarrow> string" where
  "hex_byte c = [hex_digit (of_char c div 16), hex_digit (of_char c mod 16)]"

definition validate_path :: "string \<Rightarrow> vfs_error + unit" where
  "validate_path path =
     (if CHR 0x00 \<in> set path then Inl (Invalid_input ''path contains NUL byte'')
      else case List.find (\<lambda>byte. is_ascii_control byte \<and> byte \<noteq> CHR 0x00) path of
        Some control \<Rightarrow> Inl (Invalid_input (''path contains control character byte 0x'' @ hex_byte control))
      | None \<Rightarrow>
          if MAX_PATH_LENGTH < length (normalize_path path) then Inl (Path_too_long path) else Inr ())"

text \<open>A valid path has no control character and a rendering within the limit.\<close>

definition printable :: "string \<Rightarrow> bool" where
  "printable path \<longleftrightarrow> list_all (\<lambda>c. \<not> is_ascii_control c) path"

lemma validate_path_iff:
  "validate_path path = Inr () \<longleftrightarrow> printable path \<and> length (normalize_path path) \<le> MAX_PATH_LENGTH"
proof -
  have "CHR 0x00 \<notin> set path \<and> find (\<lambda>byte. is_ascii_control byte \<and> byte \<noteq> CHR 0x00) path = None \<longleftrightarrow>
      printable path"
    by (auto simp: printable_def list_all_iff find_None_iff is_ascii_control_def)
  then show ?thesis by (auto simp: validate_path_def split: option.splits)
qed

lemma validate_path_not_panicked: "validate_path path \<noteq> Inl Panicked"
  by (auto simp: validate_path_def split: option.splits)

lemma printable_abs_path: "printable (abs_path cs) \<longleftrightarrow> list_all printable cs"
  by (induction cs) (auto simp: abs_path_def printable_def is_ascii_control_def list_all_iff)

lemma printable_components:
  assumes "printable path"
  shows "list_all printable (components path)"
proof -
  have "list_all printable (fold normalize_part ws cs)" if "list_all printable cs" "list_all printable ws" for ws cs
    using that
  proof (induction ws arbitrary: cs)
    case (Cons w ws)
    have "list_all printable (butlast cs)" using Cons.prems(1) unfolding list_all_iff by (blast dest: in_set_butlastD)
    with Cons show ?case by (simp add: normalize_part_def)
  qed simp
  moreover have "list_all printable (split_on slash path)"
    using assms set_split_on [of slash path] by (auto simp: list_all_iff printable_def)
  ultimately show ?thesis unfolding components_def by simp
qed

text \<open>Rendering a prefix of a component list is no longer than rendering the list.\<close>

lemma length_abs_path_prefix: "length (abs_path cs) \<le> length (abs_path (cs @ ds))"
  by (cases "cs = []"; cases "ds = []") (auto simp: abs_path_def, cases ds, auto)

lemma validate_abs_path:
  "proper_list cs \<Longrightarrow> validate_path (abs_path cs) = Inr () \<longleftrightarrow>
     list_all printable cs \<and> length (abs_path cs) \<le> MAX_PATH_LENGTH"
  by (simp add: validate_path_iff printable_abs_path)

end
