(* ===== verification/Vfs.thy ===== *)
theory Vfs
  imports BTree_Map Vfs_Path "HOL-Library.Code_Target_Nat"
begin

text \<open>
  The in-memory file system of \<open>crates/kernel/src/vfs.rs\<close>: inodes, a flat index from normalised paths to
  inode numbers, path resolution with symbolic links, and the operations of \<open>MemoryFileSystem\<close>.  An
  operation maps the file system to its result and the file system after it, also when it fails half
  way.  The clock is an argument; a call that reads it several times gets the same reading.
\<close>

unbundle bit_operations_syntax

section \<open>Data\<close>

definition S_IFREG :: u32 where "S_IFREG = 0x8000"
definition S_IFDIR :: u32 where "S_IFDIR = 0x4000"
definition S_IFLNK :: u32 where "S_IFLNK = 0xA000"
definition MEMORY_FILESYSTEM_DEVICE_ID :: u64 where "MEMORY_FILESYSTEM_DEVICE_ID = 1"
definition DEFAULT_UID :: u32 where "DEFAULT_UID = 1000"
definition DEFAULT_GID :: u32 where "DEFAULT_GID = 1000"
definition DIRECTORY_SIZE :: u64 where "DIRECTORY_SIZE = 4096"
definition MAX_SYMLINK_DEPTH :: nat where "MAX_SYMLINK_DEPTH = 40"

record dir_entry =
  de_name :: string
  de_is_directory :: bool
  de_is_symbolic_link :: bool

record virtual_stat =
  vs_mode :: u32
  vs_size :: u64
  vs_blocks :: u64
  vs_dev :: u64
  vs_rdev :: u64
  vs_is_directory :: bool
  vs_is_symbolic_link :: bool
  vs_atime_ms :: u64
  vs_atime_nsec :: u32
  vs_mtime_ms :: u64
  vs_mtime_nsec :: u32
  vs_ctime_ms :: u64
  vs_ctime_nsec :: u32
  vs_birthtime_ms :: u64
  vs_ino :: u64
  vs_nlink :: u64
  vs_uid :: u32
  vs_gid :: u32

text \<open>Seconds are an \<open>i64\<close>, read as an integer.\<close>

record time_spec =
  ts_sec :: int
  ts_nsec :: u32

datatype utime_spec = Set_time time_spec | Now | Omit

record metadata =
  md_mode :: u32
  md_uid :: u32
  md_gid :: u32
  md_nlink :: u64
  md_ino :: u64
  md_atime_ms :: u64
  md_atime_nsec :: u32
  md_mtime_ms :: u64
  md_mtime_nsec :: u32
  md_ctime_ms :: u64
  md_ctime_nsec :: u32
  md_birthtime_ms :: u64

datatype inode_kind = File bytes | Directory | Symbolic_link string

record inode =
  in_metadata :: metadata
  in_kind :: inode_kind

record memory_fs =
  fs_path_index :: "(string, u64) btreemap"
  fs_inodes :: "(u64, inode) btreemap"
  fs_next_ino :: u64

section \<open>Times\<close>

definition new_time_spec :: "int \<Rightarrow> u32 \<Rightarrow> vfs_error + time_spec" where
  "new_time_spec sec nsec =
     (if 1000000000 \<le> nsec
      then Inl (Vfs_error ''EINVAL'' (''timespec nanoseconds out of range: '' @ decimal (unat nsec)))
      else Inr \<lparr>ts_sec = sec, ts_nsec = nsec\<rparr>)"

definition from_millis :: "u64 \<Rightarrow> time_spec" where
  "from_millis ms =
     \<lparr>ts_sec = int (unat ms div 1000), ts_nsec = of_nat (unat ms mod 1000 * 1000000)\<rparr>"

text \<open>The multiplication saturates, the addition after it wraps.\<close>

definition to_truncated_millis :: "time_spec \<Rightarrow> vfs_error + u64" where
  "to_truncated_millis t =
     (if ts_sec t < 0
      then Inl (Vfs_error ''EINVAL'' (''negative timestamps are not supported by this filesystem: -'' @
             decimal (nat (- ts_sec t))))
      else Inr (of_nat (min (nat (ts_sec t) * 1000) (2 ^ 64 - 1)) + of_nat (unat (ts_nsec t) div 1000000)))"

fun resolve_utime_spec :: "utime_spec \<Rightarrow> time_spec \<Rightarrow> time_spec \<Rightarrow> vfs_error + time_spec" where
  "resolve_utime_spec (Set_time t) now existing = Inr t"
| "resolve_utime_spec Now now existing = Inr now"
| "resolve_utime_spec Omit now existing = Inr existing"

fun resolve_utime_millis :: "utime_spec \<Rightarrow> u64 \<Rightarrow> time_spec option \<Rightarrow> vfs_error + u64" where
  "resolve_utime_millis (Set_time t) now existing = to_truncated_millis t"
| "resolve_utime_millis Now now existing = Inr now"
| "resolve_utime_millis Omit now existing =
     and_then (ok_or existing (Vfs_error ''EINVAL'' ''UTIME_OMIT requires existing metadata'')) to_truncated_millis"

section \<open>Inodes\<close>

definition put_inode :: "u64 \<Rightarrow> inode \<Rightarrow> memory_fs \<Rightarrow> memory_fs" where
  "put_inode ino i fs = fs\<lparr>fs_inodes := bt_insert ino i (fs_inodes fs)\<rparr>"

definition bind_path :: "string \<Rightarrow> u64 \<Rightarrow> memory_fs \<Rightarrow> memory_fs" where
  "bind_path path ino fs = fs\<lparr>fs_path_index := bt_insert path ino (fs_path_index fs)\<rparr>"

definition unbind_path :: "string \<Rightarrow> memory_fs \<Rightarrow> memory_fs" where
  "unbind_path path fs = fs\<lparr>fs_path_index := bt_remove path (fs_path_index fs)\<rparr>"

definition map_metadata :: "(metadata \<Rightarrow> metadata) \<Rightarrow> inode \<Rightarrow> inode" where
  "map_metadata f i = i\<lparr>in_metadata := f (in_metadata i)\<rparr>"

definition new_metadata :: "inode_kind \<Rightarrow> u32 \<Rightarrow> u64 \<Rightarrow> u64 \<Rightarrow> metadata" where
  "new_metadata kind mode ino now =
     \<lparr>md_mode = mode, md_uid = DEFAULT_UID, md_gid = DEFAULT_GID, md_nlink = (if kind = Directory then 2 else 1),
      md_ino = ino, md_atime_ms = now, md_atime_nsec = 0, md_mtime_ms = now, md_mtime_nsec = 0,
      md_ctime_ms = now, md_ctime_nsec = 0, md_birthtime_ms = now\<rparr>"

definition allocate_inode :: "inode_kind \<Rightarrow> u32 \<Rightarrow> u64 \<Rightarrow> memory_fs \<Rightarrow> u64 \<times> memory_fs" where
  "allocate_inode kind mode now fs =
     (let ino = fs_next_ino fs
      in (ino, put_inode ino \<lparr>in_metadata = new_metadata kind mode ino now, in_kind = kind\<rparr>
                 (fs\<lparr>fs_next_ino := fs_next_ino fs + 1\<rparr>)))"

definition new_memory_fs :: "u64 \<Rightarrow> memory_fs" where
  "new_memory_fs now =
     (let (root_ino, fs) = allocate_inode Directory (S_IFDIR OR 0x1ED) now
            \<lparr>fs_path_index = bt_empty, fs_inodes = bt_empty, fs_next_ino = 1\<rparr>
      in bind_path ''/'' root_ino fs)"

definition inode_at :: "memory_fs \<Rightarrow> string \<Rightarrow> inode option" where
  "inode_at fs path =
     (case bt_get (fs_path_index fs) path of None \<Rightarrow> None | Some ino \<Rightarrow> bt_get (fs_inodes fs) ino)"

fun is_symlink :: "inode_kind \<Rightarrow> bool" where
  "is_symlink (Symbolic_link _) = True"
| "is_symlink _ = False"

fun is_file :: "inode_kind \<Rightarrow> bool" where
  "is_file (File _) = True"
| "is_file _ = False"

section \<open>Path resolution\<close>

text \<open>
  The loop over the components ends with the resolved path, or at a symbolic link with the path to
  resolve instead.
\<close>

datatype walk_result = Resolved string | Redirect string

definition redirect_path :: "string \<Rightarrow> string \<Rightarrow> string list \<Rightarrow> string" where
  "redirect_path candidate target rest =
     (let target_path = (if starts_with target ''/'' then target
            else normalize_path (dirname candidate @ ''/'' @ target));
          remainder = join_with ''/'' rest
      in if remainder = '''' then target_path else normalize_path (target_path @ ''/'' @ remainder))"

fun resolve_walk :: "memory_fs \<Rightarrow> bool \<Rightarrow> string \<Rightarrow> string list \<Rightarrow> vfs_error + walk_result" where
  "resolve_walk fs follow current [] = Inr (Resolved current)"
| "resolve_walk fs follow current (c # cs) =
     (let candidate = child_path current c; is_final = (cs = []); should_follow = (\<not> is_final \<or> follow)
      in case bt_get (fs_path_index fs) candidate of
           None \<Rightarrow> resolve_walk fs follow candidate cs
         | Some ino \<Rightarrow>
             (case bt_get (fs_inodes fs) ino of
                None \<Rightarrow> Inl Panicked
              | Some i \<Rightarrow>
                  (case in_kind i of
                     Symbolic_link target \<Rightarrow>
                       if should_follow then Inr (Redirect (redirect_path candidate target cs))
                       else if \<not> is_final then Inl (Not_directory ''stat'' candidate)
                       else resolve_walk fs follow candidate cs
                   | File _ \<Rightarrow>
                       if \<not> is_final then Inl (Not_directory ''stat'' candidate)
                       else resolve_walk fs follow candidate cs
                   | Directory \<Rightarrow> resolve_walk fs follow candidate cs)))"

function resolve_path_with_options :: "memory_fs \<Rightarrow> string \<Rightarrow> bool \<Rightarrow> nat \<Rightarrow> vfs_error + string" where
  "resolve_path_with_options fs path follow depth =
     and_then (validate_path path) (\<lambda>_.
       if MAX_SYMLINK_DEPTH < depth then Inl (Symlink_loop path)
       else
         let normalized = normalize_path path
         in if normalized = ''/'' then Inr normalized
            else (case resolve_walk fs follow ''/'' (path_parts normalized) of
                    Inl e \<Rightarrow> Inl e
                  | Inr (Resolved p) \<Rightarrow> Inr p
                  | Inr (Redirect p) \<Rightarrow> resolve_path_with_options fs p follow (depth + 1)))"
  by pat_completeness auto
termination by (relation "measure (\<lambda>(fs, path, follow, depth). MAX_SYMLINK_DEPTH + 1 - depth)") auto

declare resolve_path_with_options.simps [simp del]

definition resolve_path :: "memory_fs \<Rightarrow> string \<Rightarrow> nat \<Rightarrow> vfs_error + string" where
  "resolve_path fs path depth = resolve_path_with_options fs path True depth"

definition resolve_exact_path :: "memory_fs \<Rightarrow> string \<Rightarrow> vfs_error + string" where
  "resolve_exact_path fs path = resolve_path_with_options fs path False 0"

definition inode_id_for_existing_path :: "memory_fs \<Rightarrow> string \<Rightarrow> string \<Rightarrow> bool \<Rightarrow> vfs_error + u64" where
  "inode_id_for_existing_path fs path op follow =
     (let normalized = normalize_path path
      in and_then (if follow then resolve_path fs normalized 0 else resolve_exact_path fs normalized)
           (\<lambda>resolved. ok_or (bt_get (fs_path_index fs) resolved) (Not_found op path)))"

definition inode_for_existing_path :: "memory_fs \<Rightarrow> string \<Rightarrow> string \<Rightarrow> bool \<Rightarrow> vfs_error + inode" where
  "inode_for_existing_path fs path op follow =
     and_then (inode_id_for_existing_path fs path op follow) (\<lambda>ino. ok_or (bt_get (fs_inodes fs) ino) Panicked)"

text \<open>The mutable borrow: the inode with the number under which it is written back.\<close>

definition inode_mut_for_existing_path :: "memory_fs \<Rightarrow> string \<Rightarrow> string \<Rightarrow> bool \<Rightarrow> vfs_error + u64 \<times> inode" where
  "inode_mut_for_existing_path fs path op follow =
     and_then (inode_id_for_existing_path fs path op follow) (\<lambda>ino.
     and_then (ok_or (bt_get (fs_inodes fs) ino) Panicked) (\<lambda>i. Inr (ino, i)))"

definition assert_directory_path :: "memory_fs \<Rightarrow> string \<Rightarrow> string \<Rightarrow> vfs_error + unit" where
  "assert_directory_path fs path op =
     and_then (inode_for_existing_path fs path op True) (\<lambda>i.
       if in_kind i = Directory then Inr () else Inl (Not_directory op path))"

section \<open>Removal\<close>

definition set_ctime :: "u64 \<Rightarrow> inode \<Rightarrow> inode" where
  "set_ctime now = map_metadata (\<lambda>m. m\<lparr>md_ctime_ms := now\<rparr>)"

definition decrement_link_count :: "u64 \<Rightarrow> memory_fs \<Rightarrow> vfs_error + memory_fs" where
  "decrement_link_count ino fs =
     and_then (ok_or (bt_get (fs_inodes fs) ino) Panicked) (\<lambda>i.
       let nlink = (if md_nlink (in_metadata i) = 0 then 0 else md_nlink (in_metadata i) - 1)
       in Inr (if nlink = 0 then fs\<lparr>fs_inodes := bt_remove ino (fs_inodes fs)\<rparr>
               else put_inode ino (map_metadata (\<lambda>m. m\<lparr>md_nlink := nlink\<rparr>) i) fs))"

text \<open>The end of a removal: the path goes, the inode's change time is set, and a link is dropped.\<close>

definition drop_path :: "string \<Rightarrow> u64 \<Rightarrow> inode \<Rightarrow> u64 \<Rightarrow> memory_fs \<Rightarrow> vfs_error + memory_fs" where
  "drop_path path ino i now fs = decrement_link_count ino (unbind_path path (put_inode ino (set_ctime now i) fs))"

definition remove_exact_path :: "string \<Rightarrow> u64 \<Rightarrow> memory_fs \<Rightarrow> vfs_error + memory_fs" where
  "remove_exact_path path now fs =
     and_then (resolve_exact_path fs path) (\<lambda>normalized.
     and_then (ok_or (bt_get (fs_path_index fs) normalized) (Not_found ''unlink'' path)) (\<lambda>ino.
     and_then (ok_or (bt_get (fs_inodes fs) ino) Panicked) (\<lambda>i.
       if in_kind i = Directory then Inl (Is_directory ''unlink'' path)
       else drop_path normalized ino i now fs)))"

definition has_children :: "memory_fs \<Rightarrow> string \<Rightarrow> bool" where
  "has_children fs normalized =
     list_ex (\<lambda>candidate. starts_with candidate (normalized @ ''/'')) (bt_keys (fs_path_index fs))"

definition remove_existing_destination :: "string \<Rightarrow> u64 \<Rightarrow> memory_fs \<Rightarrow> vfs_error + memory_fs" where
  "remove_existing_destination path now fs =
     and_then (resolve_exact_path fs path) (\<lambda>normalized.
       case bt_get (fs_path_index fs) normalized of
         None \<Rightarrow> Inr fs
       | Some ino \<Rightarrow>
           and_then (ok_or (bt_get (fs_inodes fs) ino) Panicked) (\<lambda>i.
             if in_kind i = Directory \<and> has_children fs normalized then Inl (Not_empty path)
             else drop_path normalized ino i now fs))"

text \<open>An operation without a result: the state is the old one when it fails.\<close>

definition commit :: "(vfs_error + memory_fs) \<Rightarrow> memory_fs \<Rightarrow> (vfs_error + unit) \<times> memory_fs" where
  "commit r fs = (case r of Inl e \<Rightarrow> (Inl e, fs) | Inr fs' \<Rightarrow> (Inr (), fs'))"

definition remove_file :: "string \<Rightarrow> u64 \<Rightarrow> memory_fs \<Rightarrow> (vfs_error + unit) \<times> memory_fs" where
  "remove_file path now fs = commit (remove_exact_path path now fs) fs"

definition remove_dir :: "string \<Rightarrow> memory_fs \<Rightarrow> (vfs_error + unit) \<times> memory_fs" where
  "remove_dir path fs =
     commit
       (and_then (resolve_exact_path fs path) (\<lambda>normalized.
        if normalized = ''/'' then Inl (Permission_denied ''rmdir'' path)
        else
          and_then (ok_or (bt_get (fs_path_index fs) normalized) (Not_found ''rmdir'' path)) (\<lambda>ino.
          and_then (ok_or (bt_get (fs_inodes fs) ino) Panicked) (\<lambda>i.
            if in_kind i \<noteq> Directory then Inl (Not_directory ''rmdir'' path)
            else if has_children fs normalized then Inl (Not_empty path)
            else decrement_link_count ino (unbind_path normalized fs)))))
       fs"

section \<open>Directories\<close>

definition create_dir :: "string \<Rightarrow> u64 \<Rightarrow> memory_fs \<Rightarrow> (vfs_error + unit) \<times> memory_fs" where
  "create_dir path now fs =
     commit
       (and_then (resolve_exact_path fs path) (\<lambda>normalized.
        if normalized = ''/'' then Inr fs
        else
          and_then (assert_directory_path fs (dirname normalized) ''mkdir'') (\<lambda>_.
            case bt_get (fs_path_index fs) normalized of
              Some ino \<Rightarrow>
                and_then (ok_or (bt_get (fs_inodes fs) ino) Panicked) (\<lambda>i.
                  if in_kind i = Directory then Inr fs else Inl (Already_exists ''mkdir'' path))
            | None \<Rightarrow>
                let (ino, fs1) = allocate_inode Directory (S_IFDIR OR 0x1ED) now fs
                in Inr (bind_path normalized ino fs1))))
       fs"

text \<open>One round of the loop of a recursive \<open>mkdir\<close>: the directory of this part, which becomes current.\<close>

definition mkdir_part :: "string \<Rightarrow> bool \<Rightarrow> u64 \<Rightarrow> memory_fs \<Rightarrow> vfs_error + string \<times> memory_fs" where
  "mkdir_part raw_path is_last now fs =
     and_then (resolve_path_with_options fs raw_path (\<not> is_last) 0) (\<lambda>resolved.
       case bt_get (fs_path_index fs) resolved of
         Some ino \<Rightarrow>
           and_then (ok_or (bt_get (fs_inodes fs) ino) Panicked) (\<lambda>i.
             if in_kind i \<noteq> Directory then Inl (Not_directory ''mkdir'' raw_path) else Inr (resolved, fs))
       | None \<Rightarrow>
           let (ino, fs1) = allocate_inode Directory (S_IFDIR OR 0x1ED) now fs
           in Inr (resolved, bind_path resolved ino fs1))"

fun mkdir_parts :: "string \<Rightarrow> string list \<Rightarrow> u64 \<Rightarrow> memory_fs \<Rightarrow> (vfs_error + unit) \<times> memory_fs" where
  "mkdir_parts current [] now fs = (Inr (), fs)"
| "mkdir_parts current (part # parts) now fs =
     (case mkdir_part (child_path current part) (parts = []) now fs of
        Inl e \<Rightarrow> (Inl e, fs)
      | Inr (resolved, fs1) \<Rightarrow> mkdir_parts resolved parts now fs1)"

definition mkdir :: "string \<Rightarrow> bool \<Rightarrow> u64 \<Rightarrow> memory_fs \<Rightarrow> (vfs_error + unit) \<times> memory_fs" where
  "mkdir path recursive now fs =
     (let normalized = normalize_path path
      in if normalized = ''/'' then (Inr (), fs)
         else if \<not> recursive then create_dir path now fs
         else mkdir_parts ''/'' (path_parts normalized) now fs)"

text \<open>The entries of the index from the prefix on, as long as they have it.\<close>

definition directory_prefix :: "string \<Rightarrow> string" where
  "directory_prefix resolved = (if resolved = ''/'' then ''/'' else resolved @ ''/'')"

definition index_range :: "memory_fs \<Rightarrow> string \<Rightarrow> (string \<times> u64) list" where
  "index_range fs pre =
     takeWhile (\<lambda>(k, _). starts_with k pre) (filter (\<lambda>(k, _). pre \<le> k) (bt_entries (fs_path_index fs)))"

definition touch_directory :: "string \<Rightarrow> u64 \<Rightarrow> memory_fs \<Rightarrow> vfs_error + string \<times> memory_fs" where
  "touch_directory path now fs =
     and_then (assert_directory_path fs path ''scandir'') (\<lambda>_.
     and_then (resolve_path fs path 0) (\<lambda>resolved.
     and_then (inode_mut_for_existing_path fs resolved ''scandir'' False) (\<lambda>(ino, i).
       Inr (resolved, put_inode ino (map_metadata (\<lambda>m. m\<lparr>md_atime_ms := now\<rparr>) i) fs))))"

fun collect_entries ::
  "memory_fs \<Rightarrow> string \<Rightarrow> (string \<times> u64) list \<Rightarrow> (string, dir_entry) btreemap \<Rightarrow> vfs_error + (string, dir_entry) btreemap" where
  "collect_entries fs pre [] entries = Inr entries"
| "collect_entries fs pre ((candidate, ino) # rest) entries =
     (let name = drop (length pre) candidate
      in if name = '''' \<or> slash \<in> set name then collect_entries fs pre rest entries
         else case bt_get (fs_inodes fs) ino of
           None \<Rightarrow> Inl Panicked
         | Some i \<Rightarrow> collect_entries fs pre rest
             (bt_insert name \<lparr>de_name = name, de_is_directory = (in_kind i = Directory),
                              de_is_symbolic_link = is_symlink (in_kind i)\<rparr> entries))"

definition read_dir_with_types :: "string \<Rightarrow> u64 \<Rightarrow> memory_fs \<Rightarrow> (vfs_error + dir_entry list) \<times> memory_fs" where
  "read_dir_with_types path now fs =
     (case touch_directory path now fs of
        Inl e \<Rightarrow> (Inl e, fs)
      | Inr (resolved, fs1) \<Rightarrow>
          let pre = directory_prefix resolved
          in (and_then (collect_entries fs1 pre (index_range fs1 pre) bt_empty) (\<lambda>m. Inr (bt_values m)), fs1))"

definition read_dir :: "string \<Rightarrow> u64 \<Rightarrow> memory_fs \<Rightarrow> (vfs_error + string list) \<times> memory_fs" where
  "read_dir path now fs =
     (case read_dir_with_types path now fs of
        (Inl e, fs1) \<Rightarrow> (Inl e, fs1)
      | (Inr entries, fs1) \<Rightarrow> (Inr (map de_name entries), fs1))"

definition listing_too_long :: "string \<Rightarrow> nat \<Rightarrow> vfs_error" where
  "listing_too_long path max_entries =
     Vfs_error ''ENOMEM'' (''directory listing for '' @ quoted path @ '' exceeds configured limit of '' @
       decimal max_entries @ '' entries'')"

fun collect_names ::
  "string \<Rightarrow> string \<Rightarrow> nat \<Rightarrow> (string \<times> u64) list \<Rightarrow> (string, string) btreemap \<Rightarrow> vfs_error + (string, string) btreemap" where
  "collect_names path pre limit [] entries = Inr entries"
| "collect_names path pre limit ((candidate, ino) # rest) entries =
     (let name = drop (length pre) candidate
      in if name = '''' \<or> slash \<in> set name then collect_names path pre limit rest entries
         else
           let entries1 = bt_insert name name entries
           in if limit < bt_len entries1 then Inl (listing_too_long path limit)
              else collect_names path pre limit rest entries1)"

definition read_dir_limited :: "string \<Rightarrow> nat \<Rightarrow> u64 \<Rightarrow> memory_fs \<Rightarrow> (vfs_error + string list) \<times> memory_fs" where
  "read_dir_limited path limit now fs =
     (case touch_directory path now fs of
        Inl e \<Rightarrow> (Inl e, fs)
      | Inr (resolved, fs1) \<Rightarrow>
          let pre = directory_prefix resolved
          in (and_then (collect_names path pre limit (index_range fs1 pre) bt_empty) (\<lambda>m. Inr (bt_values m)), fs1))"

section \<open>Files\<close>

text \<open>The operations on the data of a file share the errors on other kinds of inode.\<close>

definition not_a_file :: "string \<Rightarrow> string \<Rightarrow> inode_kind \<Rightarrow> vfs_error" where
  "not_a_file op path kind = (if kind = Directory then Is_directory op path else Not_found op path)"

definition set_data :: "bytes \<Rightarrow> u64 \<Rightarrow> inode \<Rightarrow> inode" where
  "set_data data now i =
     map_metadata (\<lambda>m. m\<lparr>md_mtime_ms := now, md_ctime_ms := now\<rparr>) (i\<lparr>in_kind := File data\<rparr>)"

definition set_atime :: "u64 \<Rightarrow> inode \<Rightarrow> inode" where
  "set_atime now = map_metadata (\<lambda>m. m\<lparr>md_atime_ms := now\<rparr>)"

definition read_file :: "string \<Rightarrow> u64 \<Rightarrow> memory_fs \<Rightarrow> (vfs_error + bytes) \<times> memory_fs" where
  "read_file path now fs =
     (case inode_mut_for_existing_path fs path ''open'' True of
        Inl e \<Rightarrow> (Inl e, fs)
      | Inr (ino, i) \<Rightarrow>
          (case in_kind i of
             File data \<Rightarrow> (Inr data, put_inode ino (set_atime now i) fs)
           | kind \<Rightarrow> (Inl (not_a_file ''open'' path kind), fs)))"

definition write_file :: "string \<Rightarrow> bytes \<Rightarrow> u64 \<Rightarrow> memory_fs \<Rightarrow> (vfs_error + unit) \<times> memory_fs" where
  "write_file path data now fs =
     (case resolve_path fs path 0 of
        Inl e \<Rightarrow> (Inl e, fs)
      | Inr normalized \<Rightarrow>
          (case mkdir (dirname normalized) True now fs of
             (Inl e, fs1) \<Rightarrow> (Inl e, fs1)
           | (Inr _, fs1) \<Rightarrow>
               if bt_contains (fs_path_index fs1) normalized then
                 (case inode_mut_for_existing_path fs1 normalized ''open'' False of
                    Inl e \<Rightarrow> (Inl e, fs1)
                  | Inr (ino, i) \<Rightarrow>
                      (case in_kind i of
                         File _ \<Rightarrow> (Inr (), put_inode ino (set_data data now i) fs1)
                       | kind \<Rightarrow> (Inl (not_a_file ''open'' path kind), fs1)))
               else
                 let (ino, fs2) = allocate_inode (File data) (S_IFREG OR 0x1A4) now fs1
                 in (Inr (), bind_path normalized ino fs2)))"

definition create_file_exclusive :: "string \<Rightarrow> bytes \<Rightarrow> u64 \<Rightarrow> memory_fs \<Rightarrow> (vfs_error + unit) \<times> memory_fs" where
  "create_file_exclusive path data now fs =
     (case resolve_path fs path 0 of
        Inl e \<Rightarrow> (Inl e, fs)
      | Inr normalized \<Rightarrow>
          (case mkdir (dirname normalized) True now fs of
             (Inl e, fs1) \<Rightarrow> (Inl e, fs1)
           | (Inr _, fs1) \<Rightarrow>
               if bt_contains (fs_path_index fs1) normalized then (Inl (Already_exists ''open'' path), fs1)
               else
                 let (ino, fs2) = allocate_inode (File data) (S_IFREG OR 0x1A4) now fs1
                 in (Inr (), bind_path normalized ino fs2)))"

definition append_file :: "string \<Rightarrow> bytes \<Rightarrow> u64 \<Rightarrow> memory_fs \<Rightarrow> (vfs_error + u64) \<times> memory_fs" where
  "append_file path data now fs =
     (case and_then (resolve_path fs path 0) (\<lambda>normalized. inode_mut_for_existing_path fs normalized ''open'' False) of
        Inl e \<Rightarrow> (Inl e, fs)
      | Inr (ino, i) \<Rightarrow>
          (case in_kind i of
             File existing \<Rightarrow>
               (Inr (of_nat (length (existing @ data))), put_inode ino (set_data (existing @ data) now i) fs)
           | kind \<Rightarrow> (Inl (not_a_file ''open'' path kind), fs)))"

text \<open>\<open>Vec::resize\<close> with zeros.\<close>

definition resize :: "nat \<Rightarrow> bytes \<Rightarrow> bytes" where
  "resize n data = take n data @ replicate (n - length data) 0"

definition truncate_file :: "string \<Rightarrow> u64 \<Rightarrow> u64 \<Rightarrow> memory_fs \<Rightarrow> (vfs_error + unit) \<times> memory_fs" where
  "truncate_file path len now fs =
     (case inode_mut_for_existing_path fs path ''truncate'' True of
        Inl e \<Rightarrow> (Inl e, fs)
      | Inr (ino, i) \<Rightarrow>
          (case in_kind i of
             File data \<Rightarrow> (Inr (), put_inode ino (set_data (resize (unat len) data) now i) fs)
           | kind \<Rightarrow> (Inl (not_a_file ''truncate'' path kind), fs)))"

definition pread :: "string \<Rightarrow> u64 \<Rightarrow> nat \<Rightarrow> u64 \<Rightarrow> memory_fs \<Rightarrow> (vfs_error + bytes) \<times> memory_fs" where
  "pread path offset len now fs =
     (case inode_mut_for_existing_path fs path ''open'' True of
        Inl e \<Rightarrow> (Inl e, fs)
      | Inr (ino, i) \<Rightarrow>
          (case in_kind i of
             File data \<Rightarrow>
               let start = unat offset; stop = min (start + len) (length data)
               in (Inr (if length data \<le> start then [] else take (stop - start) (drop start data)),
                   put_inode ino (set_atime now i) fs)
           | kind \<Rightarrow> (Inl (not_a_file ''open'' path kind), fs)))"

section \<open>Links and renaming\<close>

definition symlink_with_metadata ::
  "string \<Rightarrow> string \<Rightarrow> u32 \<Rightarrow> u32 \<Rightarrow> u32 \<Rightarrow> u64 \<Rightarrow> memory_fs \<Rightarrow> (vfs_error + unit) \<times> memory_fs" where
  "symlink_with_metadata target link_path mode uid gid now fs =
     commit
       (and_then (resolve_exact_path fs link_path) (\<lambda>normalized.
        if bt_contains (fs_path_index fs) normalized then Inl (Already_exists ''symlink'' link_path)
        else
          and_then (assert_directory_path fs (dirname normalized) ''symlink'') (\<lambda>_.
            let (ino, fs1) = allocate_inode (Symbolic_link target)
                  (if mode AND 0xF000 = 0 then S_IFLNK OR (mode AND 0xFFF) else mode) now fs
            in and_then (ok_or (bt_get (fs_inodes fs1) ino) Panicked) (\<lambda>i.
                 Inr (bind_path normalized ino
                   (put_inode ino (map_metadata (\<lambda>m. m\<lparr>md_uid := uid, md_gid := gid\<rparr>) i) fs1))))))
       fs"

definition symlink :: "string \<Rightarrow> string \<Rightarrow> u64 \<Rightarrow> memory_fs \<Rightarrow> (vfs_error + unit) \<times> memory_fs" where
  "symlink target link_path now fs =
     symlink_with_metadata target link_path (S_IFLNK OR 0x1FF) DEFAULT_UID DEFAULT_GID now fs"

definition read_link :: "memory_fs \<Rightarrow> string \<Rightarrow> vfs_error + string" where
  "read_link fs path =
     and_then (inode_for_existing_path fs path ''readlink'' False) (\<lambda>i.
       case in_kind i of
         Symbolic_link target \<Rightarrow> Inr target
       | _ \<Rightarrow> Inl (Invalid_input (''invalid argument, readlink '' @ quoted path)))"

definition link_file :: "string \<Rightarrow> string \<Rightarrow> u64 \<Rightarrow> memory_fs \<Rightarrow> (vfs_error + unit) \<times> memory_fs" where
  "link_file old_path new_path now fs =
     commit
       (and_then (inode_id_for_existing_path fs old_path ''link'' True) (\<lambda>ino.
        and_then (ok_or (bt_get (fs_inodes fs) ino) Panicked) (\<lambda>i.
        if \<not> is_file (in_kind i) then Inl (Permission_denied ''link'' old_path)
        else
          and_then (resolve_exact_path fs new_path) (\<lambda>normalized.
          if bt_contains (fs_path_index fs) normalized then Inl (Already_exists ''link'' new_path)
          else
            and_then (assert_directory_path fs (dirname normalized) ''link'') (\<lambda>_.
              Inr (put_inode ino (map_metadata (\<lambda>m. m\<lparr>md_nlink := md_nlink m + 1, md_ctime_ms := now\<rparr>) i)
                     (bind_path normalized ino fs)))))))
       fs"

definition relocate :: "string \<Rightarrow> string \<Rightarrow> string \<Rightarrow> string" where
  "relocate old_normalized new_normalized path =
     (if path = old_normalized then new_normalized else new_normalized @ drop (length old_normalized) path)"

text \<open>The entries of a directory and everything below it move to the new path.\<close>

definition move_subtree :: "string \<Rightarrow> string \<Rightarrow> memory_fs \<Rightarrow> memory_fs" where
  "move_subtree old_normalized new_normalized fs =
     (let to_move = filter (\<lambda>(path, _). path = old_normalized \<or> starts_with path (old_normalized @ ''/''))
            (bt_entries (fs_path_index fs));
          cleared = fold (\<lambda>(path, _). unbind_path path) to_move fs
      in fold (\<lambda>(path, ino). bind_path (relocate old_normalized new_normalized path) ino) to_move cleared)"

definition rename :: "string \<Rightarrow> string \<Rightarrow> u64 \<Rightarrow> memory_fs \<Rightarrow> (vfs_error + unit) \<times> memory_fs" where
  "rename old_path new_path now fs =
     commit
       (and_then (resolve_exact_path fs old_path) (\<lambda>old_normalized.
        and_then (resolve_exact_path fs new_path) (\<lambda>new_normalized.
        if old_normalized = ''/'' then Inl (Permission_denied ''rename'' old_path)
        else if old_normalized = new_normalized then Inr fs
        else
          and_then (assert_directory_path fs (dirname new_normalized) ''rename'') (\<lambda>_.
          if starts_with new_normalized (old_normalized @ ''/'') then
            Inl (Invalid_input (''cannot move '' @ quoted old_path @ '' into its own descendant '' @ quoted new_path))
          else
            and_then (ok_or (bt_get (fs_path_index fs) old_normalized) (Not_found ''rename'' old_path)) (\<lambda>ino.
            and_then (ok_or (bt_get (fs_inodes fs) ino) Panicked) (\<lambda>i.
            and_then (remove_existing_destination new_path now fs) (\<lambda>fs1.
              let fs2 = (if in_kind i \<noteq> Directory
                         then bind_path new_normalized ino (unbind_path old_normalized fs1)
                         else move_subtree old_normalized new_normalized fs1)
              in and_then (ok_or (bt_get (fs_inodes fs2) ino) Panicked) (\<lambda>i'.
                   Inr (put_inode ino (set_ctime now i') fs2))))))))) fs"

section \<open>Metadata\<close>

definition exists_path :: "memory_fs \<Rightarrow> string \<Rightarrow> bool" where
  "exists_path fs path =
     (case resolve_path fs path 0 of Inl _ \<Rightarrow> False | Inr resolved \<Rightarrow> bt_contains (fs_path_index fs) resolved)"

definition realpath :: "memory_fs \<Rightarrow> string \<Rightarrow> vfs_error + string" where
  "realpath fs path =
     and_then (resolve_path fs path 0) (\<lambda>resolved.
       if bt_contains (fs_path_index fs) resolved then Inr resolved else Inl (Not_found ''realpath'' path))"

definition block_count_for_size :: "u64 \<Rightarrow> u64" where
  "block_count_for_size sz = (if sz = 0 then 0 else of_nat ((unat sz + 511) div 512))"

definition inode_size :: "inode_kind \<Rightarrow> u64" where
  "inode_size kind =
     (case kind of
        File data \<Rightarrow> of_nat (length data)
      | Directory \<Rightarrow> DIRECTORY_SIZE
      | Symbolic_link target \<Rightarrow> of_nat (length target))"

definition build_stat :: "inode \<Rightarrow> virtual_stat" where
  "build_stat i =
     (let m = in_metadata i; sz = inode_size (in_kind i)
      in \<lparr>vs_mode = md_mode m, vs_size = sz, vs_blocks = block_count_for_size sz,
          vs_dev = MEMORY_FILESYSTEM_DEVICE_ID, vs_rdev = 0, vs_is_directory = (in_kind i = Directory),
          vs_is_symbolic_link = is_symlink (in_kind i), vs_atime_ms = md_atime_ms m,
          vs_atime_nsec = md_atime_nsec m, vs_mtime_ms = md_mtime_ms m, vs_mtime_nsec = md_mtime_nsec m,
          vs_ctime_ms = md_ctime_ms m, vs_ctime_nsec = md_ctime_nsec m, vs_birthtime_ms = md_birthtime_ms m,
          vs_ino = md_ino m, vs_nlink = md_nlink m, vs_uid = md_uid m, vs_gid = md_gid m\<rparr>)"

definition stat :: "memory_fs \<Rightarrow> string \<Rightarrow> vfs_error + virtual_stat" where
  "stat fs path = and_then (inode_for_existing_path fs path ''stat'' True) (\<lambda>i. Inr (build_stat i))"

definition lstat :: "memory_fs \<Rightarrow> string \<Rightarrow> vfs_error + virtual_stat" where
  "lstat fs path = and_then (inode_for_existing_path fs path ''lstat'' False) (\<lambda>i. Inr (build_stat i))"

text \<open>A change of the metadata of an existing inode.\<close>

definition update_metadata ::
  "string \<Rightarrow> string \<Rightarrow> bool \<Rightarrow> (metadata \<Rightarrow> metadata) \<Rightarrow> memory_fs \<Rightarrow> (vfs_error + unit) \<times> memory_fs" where
  "update_metadata path op follow f fs =
     (case inode_mut_for_existing_path fs path op follow of
        Inl e \<Rightarrow> (Inl e, fs)
      | Inr (ino, i) \<Rightarrow> (Inr (), put_inode ino (map_metadata f i) fs))"

definition chmod :: "string \<Rightarrow> u32 \<Rightarrow> u64 \<Rightarrow> memory_fs \<Rightarrow> (vfs_error + unit) \<times> memory_fs" where
  "chmod path mode now =
     update_metadata path ''chmod'' True (\<lambda>m.
       let type_bits = (if mode AND 0xF000 = 0 then md_mode m AND 0xF000 else mode AND 0xF000)
       in m\<lparr>md_mode := type_bits OR (mode AND 0xFFF), md_ctime_ms := now\<rparr>)"

definition chown :: "string \<Rightarrow> u32 \<Rightarrow> u32 \<Rightarrow> u64 \<Rightarrow> memory_fs \<Rightarrow> (vfs_error + unit) \<times> memory_fs" where
  "chown path uid gid now =
     update_metadata path ''chown'' True (\<lambda>m. m\<lparr>md_uid := uid, md_gid := gid, md_ctime_ms := now\<rparr>)"

definition utimes :: "string \<Rightarrow> u64 \<Rightarrow> u64 \<Rightarrow> u64 \<Rightarrow> memory_fs \<Rightarrow> (vfs_error + unit) \<times> memory_fs" where
  "utimes path atime_ms mtime_ms now =
     update_metadata path ''utimes'' True (\<lambda>m.
       m\<lparr>md_atime_ms := atime_ms, md_atime_nsec := 0, md_mtime_ms := mtime_ms, md_mtime_nsec := 0,
         md_ctime_ms := now, md_ctime_nsec := 0\<rparr>)"

text \<open>
  \<open>utimes_spec\<close> writes the access time before it looks at the modification time, so that an error of
  the second leaves the first written.
\<close>

definition set_atime_spec :: "time_spec \<Rightarrow> metadata \<Rightarrow> vfs_error + metadata" where
  "set_atime_spec t m = and_then (to_truncated_millis t) (\<lambda>ms. Inr (m\<lparr>md_atime_ms := ms, md_atime_nsec := ts_nsec t\<rparr>))"

definition set_mtime_spec :: "time_spec \<Rightarrow> metadata \<Rightarrow> vfs_error + metadata" where
  "set_mtime_spec t m = and_then (to_truncated_millis t) (\<lambda>ms. Inr (m\<lparr>md_mtime_ms := ms, md_mtime_nsec := ts_nsec t\<rparr>))"

definition set_ctime_spec :: "time_spec \<Rightarrow> metadata \<Rightarrow> vfs_error + metadata" where
  "set_ctime_spec t m = and_then (to_truncated_millis t) (\<lambda>ms. Inr (m\<lparr>md_ctime_ms := ms, md_ctime_nsec := ts_nsec t\<rparr>))"

fun apply_times :: "(metadata \<Rightarrow> vfs_error + metadata) list \<Rightarrow> metadata \<Rightarrow> (vfs_error + unit) \<times> metadata" where
  "apply_times [] m = (Inr (), m)"
| "apply_times (f # fs) m = (case f m of Inl e \<Rightarrow> (Inl e, m) | Inr m' \<Rightarrow> apply_times fs m')"

definition utimes_spec ::
  "string \<Rightarrow> utime_spec \<Rightarrow> utime_spec \<Rightarrow> bool \<Rightarrow> time_spec \<Rightarrow> memory_fs \<Rightarrow> (vfs_error + unit) \<times> memory_fs" where
  "utimes_spec path atime mtime follow now fs =
     (case and_then (if follow then stat fs path else lstat fs path) (\<lambda>st.
           and_then (inode_mut_for_existing_path fs path ''utimes'' follow) (\<lambda>(ino, i).
           and_then (resolve_utime_spec atime now
             \<lparr>ts_sec = int (unat (vs_atime_ms st) div 1000), ts_nsec = vs_atime_nsec st\<rparr>) (\<lambda>atime.
           and_then (resolve_utime_spec mtime now
             \<lparr>ts_sec = int (unat (vs_mtime_ms st) div 1000), ts_nsec = vs_mtime_nsec st\<rparr>) (\<lambda>mtime.
           Inr (ino, i, atime, mtime))))) of
        Inl e \<Rightarrow> (Inl e, fs)
      | Inr (ino, i, atime, mtime) \<Rightarrow>
          let (r, m) = apply_times [set_atime_spec atime, set_mtime_spec mtime, set_ctime_spec now] (in_metadata i)
          in (r, put_inode ino (i\<lparr>in_metadata := m\<rparr>) fs))"

section \<open>Methods the trait provides\<close>

text \<open>
  The default methods of \<open>VirtualFileSystem\<close> that \<open>MemoryFileSystem\<close> keeps, as functions of the methods
  they call.
\<close>

definition splice :: "bytes \<Rightarrow> nat \<Rightarrow> bytes \<Rightarrow> bytes option" where
  "splice existing start content =
     (let grown = (if length existing < start then resize start existing else existing);
          stop = min (start + length content) (2 ^ 64 - 1);
          padded = (if length grown < stop then resize stop grown else grown)
      in if stop - start = length content then Some (take start padded @ content @ drop stop padded) else None)"

definition default_pwrite ::
  "(string \<Rightarrow> 's \<Rightarrow> (vfs_error + bytes) \<times> 's) \<Rightarrow> (string \<Rightarrow> bytes \<Rightarrow> 's \<Rightarrow> (vfs_error + unit) \<times> 's) \<Rightarrow>
     string \<Rightarrow> bytes \<Rightarrow> u64 \<Rightarrow> 's \<Rightarrow> (vfs_error + unit) \<times> 's" where
  "default_pwrite read write path content offset s =
     (case read path s of
        (Inl e, s1) \<Rightarrow> (Inl e, s1)
      | (Inr existing, s1) \<Rightarrow>
          (case splice existing (unat offset) content of
             None \<Rightarrow> (Inl Panicked, s1)
           | Some data \<Rightarrow> write path data s1))"

definition default_append_file ::
  "(string \<Rightarrow> 's \<Rightarrow> (vfs_error + bytes) \<times> 's) \<Rightarrow> (string \<Rightarrow> bytes \<Rightarrow> 's \<Rightarrow> (vfs_error + unit) \<times> 's) \<Rightarrow>
     string \<Rightarrow> bytes \<Rightarrow> 's \<Rightarrow> (vfs_error + u64) \<times> 's" where
  "default_append_file read write path content s =
     (case read path s of
        (Inl e, s1) \<Rightarrow> (Inl e, s1)
      | (Inr existing, s1) \<Rightarrow>
          (case write path (existing @ content) s1 of
             (Inl e, s2) \<Rightarrow> (Inl e, s2)
           | (Inr _, s2) \<Rightarrow> (Inr (of_nat (length (existing @ content))), s2)))"

definition default_create_file_exclusive ::
  "('s \<Rightarrow> string \<Rightarrow> bool) \<Rightarrow> (string \<Rightarrow> bytes \<Rightarrow> 's \<Rightarrow> (vfs_error + unit) \<times> 's) \<Rightarrow>
     string \<Rightarrow> bytes \<Rightarrow> 's \<Rightarrow> (vfs_error + unit) \<times> 's" where
  "default_create_file_exclusive has write path content s =
     (if has s path then (Inl (Already_exists ''open'' path), s) else write path content s)"

definition default_read_dir_limited ::
  "(string \<Rightarrow> 's \<Rightarrow> (vfs_error + string list) \<times> 's) \<Rightarrow> string \<Rightarrow> nat \<Rightarrow> 's \<Rightarrow> (vfs_error + string list) \<times> 's" where
  "default_read_dir_limited list_dir path limit s =
     (case list_dir path s of
        (Inl e, s1) \<Rightarrow> (Inl e, s1)
      | (Inr entries, s1) \<Rightarrow>
          (if limit < length entries then Inl (listing_too_long path limit) else Inr entries, s1))"

definition pwrite :: "string \<Rightarrow> bytes \<Rightarrow> u64 \<Rightarrow> u64 \<Rightarrow> memory_fs \<Rightarrow> (vfs_error + unit) \<times> memory_fs" where
  "pwrite path content offset now =
     default_pwrite (\<lambda>p. read_file p now) (\<lambda>p c. write_file p c now) path content offset"

definition write_file_with_mode ::
  "string \<Rightarrow> bytes \<Rightarrow> u32 option \<Rightarrow> u64 \<Rightarrow> memory_fs \<Rightarrow> (vfs_error + unit) \<times> memory_fs" where
  "write_file_with_mode path content mode now = write_file path content now"

definition create_file_exclusive_with_mode ::
  "string \<Rightarrow> bytes \<Rightarrow> u32 option \<Rightarrow> u64 \<Rightarrow> memory_fs \<Rightarrow> (vfs_error + unit) \<times> memory_fs" where
  "create_file_exclusive_with_mode path content mode now = create_file_exclusive path content now"

definition create_dir_with_mode :: "string \<Rightarrow> u32 option \<Rightarrow> u64 \<Rightarrow> memory_fs \<Rightarrow> (vfs_error + unit) \<times> memory_fs" where
  "create_dir_with_mode path mode now = create_dir path now"

definition mkdir_with_mode ::
  "string \<Rightarrow> bool \<Rightarrow> u32 option \<Rightarrow> u64 \<Rightarrow> memory_fs \<Rightarrow> (vfs_error + unit) \<times> memory_fs" where
  "mkdir_with_mode path recursive mode now = mkdir path recursive now"

section \<open>Snapshots\<close>

record snapshot_metadata =
  sm_mode :: u32
  sm_uid :: u32
  sm_gid :: u32
  sm_nlink :: u64
  sm_ino :: u64
  sm_atime_ms :: u64
  sm_atime_nsec :: u32
  sm_mtime_ms :: u64
  sm_mtime_nsec :: u32
  sm_ctime_ms :: u64
  sm_ctime_nsec :: u32
  sm_birthtime_ms :: u64

datatype snapshot_kind = Snapshot_file bytes | Snapshot_directory | Snapshot_symlink string

record snapshot_inode =
  si_metadata :: snapshot_metadata
  si_kind :: snapshot_kind

record fs_snapshot =
  sn_path_index :: "(string, u64) btreemap"
  sn_inodes :: "(u64, snapshot_inode) btreemap"
  sn_next_ino :: u64

definition to_snapshot_inode :: "inode \<Rightarrow> snapshot_inode" where
  "to_snapshot_inode i =
     (let m = in_metadata i
      in \<lparr>si_metadata =
            \<lparr>sm_mode = md_mode m, sm_uid = md_uid m, sm_gid = md_gid m, sm_nlink = md_nlink m, sm_ino = md_ino m,
             sm_atime_ms = md_atime_ms m, sm_atime_nsec = md_atime_nsec m, sm_mtime_ms = md_mtime_ms m,
             sm_mtime_nsec = md_mtime_nsec m, sm_ctime_ms = md_ctime_ms m, sm_ctime_nsec = md_ctime_nsec m,
             sm_birthtime_ms = md_birthtime_ms m\<rparr>,
          si_kind = (case in_kind i of
             File data \<Rightarrow> Snapshot_file data
           | Directory \<Rightarrow> Snapshot_directory
           | Symbolic_link target \<Rightarrow> Snapshot_symlink target)\<rparr>)"

definition from_snapshot_inode :: "snapshot_inode \<Rightarrow> inode" where
  "from_snapshot_inode i =
     (let m = si_metadata i
      in \<lparr>in_metadata =
            \<lparr>md_mode = sm_mode m, md_uid = sm_uid m, md_gid = sm_gid m, md_nlink = sm_nlink m, md_ino = sm_ino m,
             md_atime_ms = sm_atime_ms m, md_atime_nsec = sm_atime_nsec m, md_mtime_ms = sm_mtime_ms m,
             md_mtime_nsec = sm_mtime_nsec m, md_ctime_ms = sm_ctime_ms m, md_ctime_nsec = sm_ctime_nsec m,
             md_birthtime_ms = sm_birthtime_ms m\<rparr>,
          in_kind = (case si_kind i of
             Snapshot_file data \<Rightarrow> File data
           | Snapshot_directory \<Rightarrow> Directory
           | Snapshot_symlink target \<Rightarrow> Symbolic_link target)\<rparr>)"

definition snapshot :: "memory_fs \<Rightarrow> fs_snapshot" where
  "snapshot fs =
     \<lparr>sn_path_index = fs_path_index fs, sn_inodes = bt_map (\<lambda>_. to_snapshot_inode) (fs_inodes fs),
      sn_next_ino = fs_next_ino fs\<rparr>"

definition from_snapshot :: "fs_snapshot \<Rightarrow> memory_fs" where
  "from_snapshot s =
     \<lparr>fs_path_index = sn_path_index s, fs_inodes = bt_map (\<lambda>_. from_snapshot_inode) (sn_inodes s),
      fs_next_ino = sn_next_ino s\<rparr>"

end
