(* ===== verification/Vfs_Tree.thy ===== *)
theory Vfs_Tree
  imports Vfs
begin

text \<open>
  The tree behind the flat path index of the in-memory file system: what path resolution returns, the
  invariant that relates index, inodes and link counts, and how the primitive changes (a new node, a
  dropped path, a new link, a moved subtree) keep it.
\<close>

unbundle bit_operations_syntax

section \<open>What resolution guarantees\<close>

text \<open>
  A resolved path is free of symbolic links: every component but the last that exists is a directory,
  and the last one is not a link when links are followed to the end.
\<close>

definition plain_from :: "memory_fs \<Rightarrow> bool \<Rightarrow> string list \<Rightarrow> string list \<Rightarrow> bool" where
  "plain_from fs follow pre cs \<longleftrightarrow>
     (\<forall>us c vs i. cs = us @ c # vs \<longrightarrow> inode_at fs (abs_path (pre @ us @ [c])) = Some i \<longrightarrow>
        (vs \<noteq> [] \<longrightarrow> in_kind i = Directory) \<and> (follow \<longrightarrow> \<not> is_symlink (in_kind i)))"

abbreviation plain :: "memory_fs \<Rightarrow> bool \<Rightarrow> string list \<Rightarrow> bool" where
  "plain fs follow cs \<equiv> plain_from fs follow [] cs"

definition good :: "string list \<Rightarrow> bool" where
  "good cs \<longleftrightarrow> proper_list cs \<and> list_all printable cs \<and> length (abs_path cs) \<le> MAX_PATH_LENGTH"

definition indexed :: "memory_fs \<Rightarrow> bool" where
  "indexed fs \<longleftrightarrow> (\<forall>k ino. bt_get (fs_path_index fs) k = Some ino \<longrightarrow> (\<exists>i. bt_get (fs_inodes fs) ino = Some i))"

lemma plain_from_Nil [simp]: "plain_from fs follow pre []"
  by (simp add: plain_from_def)

lemma plain_from_Cons:
  "plain_from fs follow pre (c # cs) \<longleftrightarrow>
     (\<forall>i. inode_at fs (abs_path (pre @ [c])) = Some i \<longrightarrow>
        (cs \<noteq> [] \<longrightarrow> in_kind i = Directory) \<and> (follow \<longrightarrow> \<not> is_symlink (in_kind i))) \<and>
     plain_from fs follow (pre @ [c]) cs"
  (is "?l \<longleftrightarrow> ?a \<and> ?r")
proof
  assume l: ?l
  have ?a using l unfolding plain_from_def by (metis append_Nil)
  moreover have ?r unfolding plain_from_def
  proof (intro allI impI)
    fix us d vs i
    assume "cs = us @ d # vs" "inode_at fs (abs_path ((pre @ [c]) @ us @ [d])) = Some i"
    then have "c # cs = (c # us) @ d # vs" "inode_at fs (abs_path (pre @ (c # us) @ [d])) = Some i" by simp_all
    with l show "(vs \<noteq> [] \<longrightarrow> in_kind i = Directory) \<and> (follow \<longrightarrow> \<not> is_symlink (in_kind i))"
      unfolding plain_from_def by blast
  qed
  ultimately show "?a \<and> ?r" ..
next
  assume r: "?a \<and> ?r"
  show ?l unfolding plain_from_def
  proof (intro allI impI)
    fix us d vs i
    assume u: "c # cs = us @ d # vs" "inode_at fs (abs_path (pre @ us @ [d])) = Some i"
    show "(vs \<noteq> [] \<longrightarrow> in_kind i = Directory) \<and> (follow \<longrightarrow> \<not> is_symlink (in_kind i))"
    proof (cases us)
      case Nil
      with u r show ?thesis by simp
    next
      case (Cons x us')
      with u have "cs = us' @ d # vs" "inode_at fs (abs_path ((pre @ [c]) @ us' @ [d])) = Some i" by simp_all
      with r show ?thesis unfolding plain_from_def by blast
    qed
  qed
qed

lemma plain_from_snoc:
  "plain_from fs follow pre (cs @ [c]) \<longleftrightarrow>
     (\<forall>us d vs i. cs = us @ d # vs \<longrightarrow> inode_at fs (abs_path (pre @ us @ [d])) = Some i \<longrightarrow> in_kind i = Directory) \<and>
     (\<forall>i. inode_at fs (abs_path (pre @ cs @ [c])) = Some i \<longrightarrow> follow \<longrightarrow> \<not> is_symlink (in_kind i))"
proof (induction cs arbitrary: pre)
  case Nil
  then show ?case by (auto simp: plain_from_Cons)
next
  case (Cons x cs)
  show ?case
    unfolding append_Cons plain_from_Cons Cons.IH
    by (auto simp: Cons_eq_append_conv, metis append_Nil, metis append_Cons append_assoc append_Nil)
qed

lemma plain_butlast: "plain fs follow cs \<Longrightarrow> plain fs True (butlast cs)"
proof (cases cs rule: rev_cases)
  case (snoc ds c)
  assume "plain fs follow cs"
  then have d: "in_kind i = Directory" if "ds = us @ d # vs" "inode_at fs (abs_path (us @ [d])) = Some i" for us d vs i
    using that unfolding snoc plain_from_snoc by auto
  show ?thesis unfolding snoc plain_from_def using d by fastforce
qed simp

lemma plain_weaken: "plain fs True cs \<Longrightarrow> plain fs follow cs"
  unfolding plain_from_def by blast

lemma good_butlast: "good cs \<Longrightarrow> good (butlast cs)"
proof (cases cs rule: rev_cases)
  case (snoc ds c)
  assume "good cs"
  with length_abs_path_prefix [of ds "[c]"] snoc show ?thesis by (simp add: good_def)
qed (simp add: good_def)

lemma good_proper [simp]: "good cs \<Longrightarrow> proper_list cs"
  by (simp add: good_def)

lemma good_Nil [simp]: "good []"
  by (simp add: good_def MAX_PATH_LENGTH_def)

lemma validate_good: "good cs \<Longrightarrow> validate_path (abs_path cs) = Inr ()"
  by (simp add: good_def validate_abs_path)

subsection \<open>The walk\<close>

lemma walk_resolved:
  assumes "resolve_walk fs follow (abs_path pre) cs = Inr (Resolved q)" "proper_list pre" "proper_list cs"
  shows "q = abs_path (pre @ cs) \<and> plain_from fs follow pre cs"
  using assms
proof (induction cs arbitrary: pre)
  case Nil
  then show ?case by simp
next
  case (Cons c cs)
  have proper: "proper_list (pre @ [c])" using Cons.prems by simp
  have "resolve_walk fs follow (abs_path (pre @ [c])) cs = Inr (Resolved q) \<and>
    (\<forall>i. inode_at fs (abs_path (pre @ [c])) = Some i \<longrightarrow>
        (cs \<noteq> [] \<longrightarrow> in_kind i = Directory) \<and> (follow \<longrightarrow> \<not> is_symlink (in_kind i)))"
    using Cons.prems
    by (auto simp: Let_def inode_at_def split: option.splits inode_kind.splits if_splits)
  with Cons.IH [OF _ proper] Cons.prems(3) show ?case by (simp add: plain_from_Cons)
qed

lemma walk_plain:
  assumes "plain_from fs follow pre cs" "indexed fs" "proper_list pre" "proper_list cs"
  shows "resolve_walk fs follow (abs_path pre) cs = Inr (Resolved (abs_path (pre @ cs)))"
  using assms
proof (induction cs arbitrary: pre)
  case (Cons c cs)
  have proper: "proper_list (pre @ [c])" using Cons.prems by simp
  from Cons.prems(1) have tail: "plain_from fs follow (pre @ [c]) cs"
    and head: "\<forall>i. inode_at fs (abs_path (pre @ [c])) = Some i \<longrightarrow>
      (cs \<noteq> [] \<longrightarrow> in_kind i = Directory) \<and> (follow \<longrightarrow> \<not> is_symlink (in_kind i))"
    by (simp_all add: plain_from_Cons)
  note IH = Cons.IH [OF tail Cons.prems(2) proper]
  show ?case
  proof (cases "bt_get (fs_path_index fs) (abs_path (pre @ [c]))")
    case None
    with Cons.prems IH show ?thesis by simp
  next
    case (Some ino)
    with Cons.prems(2) obtain i where i: "bt_get (fs_inodes fs) ino = Some i" by (auto simp: indexed_def)
    with head Some have "(cs \<noteq> [] \<longrightarrow> in_kind i = Directory) \<and> (follow \<longrightarrow> \<not> is_symlink (in_kind i))"
      by (simp add: inode_at_def)
    with Cons.prems IH Some i show ?thesis by (cases "in_kind i") auto
  qed
qed simp

lemma indexedD: "indexed fs \<Longrightarrow> bt_get (fs_path_index fs) k = Some ino \<Longrightarrow> bt_get (fs_inodes fs) ino \<noteq> None"
  by (auto simp: indexed_def)

lemma walk_not_panicked: "indexed fs \<Longrightarrow> resolve_walk fs follow current cs \<noteq> Inl Panicked"
  by (induction cs arbitrary: current)
     (auto simp: Let_def dest: indexedD split: option.splits inode_kind.splits)

lemma normalize_root [simp]: "normalize_path ''/'' = ''/''"
  using normalize_abs_path [of "[]"] by simp

subsection \<open>Resolution\<close>

lemma resolve_result:
  assumes "resolve_path_with_options fs path follow depth = Inr q"
  shows "\<exists>cs. q = abs_path cs \<and> good cs \<and> plain fs follow cs"
  using assms
proof (induction fs path follow depth rule: resolve_path_with_options.induct)
  case (1 fs path follow depth)
  from "1.prems" have v: "validate_path path = Inr ()" "\<not> MAX_SYMLINK_DEPTH < depth"
    by (auto simp: resolve_path_with_options.simps [of fs path] err_simps split: if_splits)
  define cs where "cs = components path"
  have g: "good cs"
    using v(1) printable_components [of path]
    by (simp add: good_def cs_def components_proper validate_path_iff normalize_path_eq)
  show ?case
  proof (cases "cs = []")
    case True
    with "1.prems" v g show ?thesis
      by (intro exI [of _ "[]"]) (simp add: resolve_path_with_options.simps [of fs path] normalize_path_eq cs_def)
  next
    case False
    have n: "normalize_path path = abs_path cs" "normalize_path path \<noteq> ''/''" "path_parts (normalize_path path) = cs"
      using False g by (simp_all add: cs_def normalize_path_eq)
    have step: "resolve_path_with_options fs path follow depth =
        (case resolve_walk fs follow ''/'' cs of
           Inl e \<Rightarrow> Inl e | Inr (Resolved p) \<Rightarrow> Inr p
         | Inr (Redirect p) \<Rightarrow> resolve_path_with_options fs p follow (depth + 1))"
      using v n by (subst resolve_path_with_options.simps) simp
    show ?thesis
    proof (cases "resolve_walk fs follow ''/'' cs")
      case (Inl e)
      with "1.prems" step show ?thesis by simp
    next
      case (Inr w)
      show ?thesis
      proof (cases w)
        case (Resolved p)
        with "1.prems" step Inr have "resolve_walk fs follow (abs_path []) cs = Inr (Resolved q)" by simp
        from walk_resolved [OF this] g show ?thesis by auto
      next
        case (Redirect p)
        with "1.prems" step Inr have "resolve_path_with_options fs p follow (depth + 1) = Inr q" by simp
        with "1.IH" [OF v(2) refl n(2)] n Inr Redirect show ?thesis by simp
      qed
    qed
  qed
qed

lemma resolve_plain:
  assumes "indexed fs" "good cs" "plain fs follow cs" "depth \<le> MAX_SYMLINK_DEPTH"
  shows "resolve_path_with_options fs (abs_path cs) follow depth = Inr (abs_path cs)"
proof (cases "cs = []")
  case True
  with assms validate_good [OF good_Nil] show ?thesis by (subst resolve_path_with_options.simps) simp
next
  case False
  have "resolve_walk fs follow (abs_path []) cs = Inr (Resolved (abs_path ([] @ cs)))"
    using assms by (intro walk_plain) simp_all
  with False assms validate_good [OF assms(2)] show ?thesis by (subst resolve_path_with_options.simps) simp
qed

lemma resolve_not_panicked: "indexed fs \<Longrightarrow> resolve_path_with_options fs path follow depth \<noteq> Inl Panicked"
proof (induction fs path follow depth rule: resolve_path_with_options.induct)
  case (1 fs path follow depth)
  show ?case
  proof
    assume p: "resolve_path_with_options fs path follow depth = Inl Panicked"
    then have v: "validate_path path = Inr ()" "\<not> MAX_SYMLINK_DEPTH < depth" "normalize_path path \<noteq> ''/''"
      using validate_path_not_panicked [of path]
      by (auto simp: resolve_path_with_options.simps [of fs path] err_simps Let_def split: if_splits)
    show False
    proof (cases "resolve_walk fs follow ''/'' (path_parts (normalize_path path))")
      case (Inl e)
      with p v walk_not_panicked [OF "1.prems"] show ?thesis
        by (auto simp: resolve_path_with_options.simps [of fs path])
    next
      case (Inr w)
      with p v "1.IH" [OF v(2) refl v(3) Inr] "1.prems" show ?thesis
        by (cases w) (auto simp: resolve_path_with_options.simps [of fs path])
    qed
  qed
qed

section \<open>The invariant of the file system\<close>

text \<open>
  The index is a tree: every path is normalised, leads to an inode, and lies in a directory.  The link
  count of a file or symbolic link is the number of its paths; a directory has one path, or none after it
  has been removed, and a link count one higher.
\<close>

abbreviation lookup_path :: "memory_fs \<Rightarrow> string list \<Rightarrow> u64 option" where
  "lookup_path fs cs \<equiv> bt_get (fs_path_index fs) (abs_path cs)"

definition directory_at :: "memory_fs \<Rightarrow> string list \<Rightarrow> bool" where
  "directory_at fs cs \<longleftrightarrow> (\<exists>i. inode_at fs (abs_path cs) = Some i \<and> in_kind i = Directory)"

definition path_refs :: "memory_fs \<Rightarrow> u64 \<Rightarrow> nat" where
  "path_refs fs ino = card {k. bt_get (fs_path_index fs) k = Some ino}"

definition inode_ok :: "memory_fs \<Rightarrow> u64 \<Rightarrow> inode \<Rightarrow> bool" where
  "inode_ok fs ino i \<longleftrightarrow>
     md_ino (in_metadata i) = ino \<and> ino < fs_next_ino fs \<and>
     unat (md_nlink (in_metadata i)) = path_refs fs ino + (if in_kind i = Directory then 1 else 0) \<and>
     (in_kind i = Directory \<longrightarrow> path_refs fs ino < 2) \<and> (in_kind i \<noteq> Directory \<longrightarrow> 0 < path_refs fs ino)"

definition index_ok :: "memory_fs \<Rightarrow> bool" where
  "index_ok fs \<longleftrightarrow>
     (\<forall>k ino. bt_get (fs_path_index fs) k = Some ino \<longrightarrow> (\<exists>cs. proper_list cs \<and> k = abs_path cs)) \<and>
     indexed fs \<and> directory_at fs [] \<and>
     (\<forall>cs c ino. proper_list (cs @ [c]) \<longrightarrow> lookup_path fs (cs @ [c]) = Some ino \<longrightarrow> directory_at fs cs)"

definition vfs_ok :: "memory_fs \<Rightarrow> bool" where
  "vfs_ok fs \<longleftrightarrow> index_ok fs \<and> (\<forall>ino i. bt_get (fs_inodes fs) ino = Some i \<longrightarrow> inode_ok fs ino i)"

lemma vfs_ok_indexed: "vfs_ok fs \<Longrightarrow> indexed fs"
  by (simp add: vfs_ok_def index_ok_def)

lemma vfs_ok_key: "vfs_ok fs \<Longrightarrow> bt_get (fs_path_index fs) k = Some ino \<Longrightarrow> \<exists>cs. proper_list cs \<and> k = abs_path cs"
  by (simp add: vfs_ok_def index_ok_def)

lemma vfs_ok_parent: "vfs_ok fs \<Longrightarrow> proper_list (cs @ [c]) \<Longrightarrow> lookup_path fs (cs @ [c]) = Some ino \<Longrightarrow> directory_at fs cs"
  unfolding vfs_ok_def index_ok_def by blast

lemma vfs_ok_root: "vfs_ok fs \<Longrightarrow> directory_at fs []"
  by (simp add: vfs_ok_def index_ok_def)

lemma vfs_ok_inode: "vfs_ok fs \<Longrightarrow> bt_get (fs_inodes fs) ino = Some i \<Longrightarrow> inode_ok fs ino i"
  by (simp add: vfs_ok_def)

lemma directory_at_lookup: "directory_at fs cs \<Longrightarrow> \<exists>ino. lookup_path fs cs = Some ino"
  by (auto simp: directory_at_def inode_at_def split: option.splits)

lemma vfs_ok_ancestor:
  assumes "vfs_ok fs" "proper_list (cs @ ds)" "lookup_path fs (cs @ ds) = Some ino" "ds \<noteq> []"
  shows "directory_at fs cs"
  using assms(2-4)
proof (induction ds arbitrary: ino rule: rev_induct)
  case (snoc d ds)
  then have "directory_at fs (cs @ ds)" using vfs_ok_parent [OF assms(1), of "cs @ ds" d] by simp
  with snoc show ?case using directory_at_lookup [of fs "cs @ ds"] by (cases "ds = []") auto
qed simp

lemma finite_path_refs [simp]: "finite {k. bt_get (fs_path_index fs) k = Some ino}"
  by (rule finite_subset [OF _ finite_contains [of "fs_path_index fs"]]) (auto simp: bt_contains_iff)

lemma path_refs_pos: "bt_get (fs_path_index fs) k = Some ino \<Longrightarrow> 0 < path_refs fs ino"
  unfolding path_refs_def by (subst card_gt_0_iff) auto

subsection \<open>Frames of the primitive changes\<close>

lemma put_inode_sel [simp]:
  "fs_path_index (put_inode ino i fs) = fs_path_index fs" "fs_next_ino (put_inode ino i fs) = fs_next_ino fs"
  "bt_get (fs_inodes (put_inode ino i fs)) n = (if n = ino then Some i else bt_get (fs_inodes fs) n)"
  by (simp_all add: put_inode_def)

lemma bind_path_sel [simp]:
  "bt_get (fs_path_index (bind_path p ino fs)) k = (if k = p then Some ino else bt_get (fs_path_index fs) k)"
  "fs_next_ino (bind_path p ino fs) = fs_next_ino fs" "fs_inodes (bind_path p ino fs) = fs_inodes fs"
  by (simp_all add: bind_path_def)

lemma unbind_path_sel [simp]:
  "bt_get (fs_path_index (unbind_path p fs)) k = (if k = p then None else bt_get (fs_path_index fs) k)"
  "fs_next_ino (unbind_path p fs) = fs_next_ino fs" "fs_inodes (unbind_path p fs) = fs_inodes fs"
  by (simp_all add: unbind_path_def)

lemma map_metadata_sel [simp]:
  "in_metadata (map_metadata f i) = f (in_metadata i)" "in_kind (map_metadata f i) = in_kind i"
  by (simp_all add: map_metadata_def)

lemma allocate_inode_sel:
  "allocate_inode kind mode now fs =
     (fs_next_ino fs, put_inode (fs_next_ino fs)
        \<lparr>in_metadata = new_metadata kind mode (fs_next_ino fs) now, in_kind = kind\<rparr>
        (fs\<lparr>fs_next_ino := fs_next_ino fs + 1\<rparr>))"
  by (simp add: allocate_inode_def Let_def)

lemma path_refs_bind:
  assumes "bt_get (fs_path_index fs) p = None"
  shows "path_refs (bind_path p ino fs) n = path_refs fs n + (if n = ino then 1 else 0)"
proof -
  have "{k. bt_get (fs_path_index (bind_path p ino fs)) k = Some n} =
      (if n = ino then insert p {k. bt_get (fs_path_index fs) k = Some n} else {k. bt_get (fs_path_index fs) k = Some n})"
    using assms by auto
  with assms show ?thesis unfolding path_refs_def by simp
qed

lemma path_refs_unbind:
  assumes "bt_get (fs_path_index fs) p = Some ino"
  shows "path_refs (unbind_path p fs) n = path_refs fs n - (if n = ino then 1 else 0)"
proof -
  have "{k. bt_get (fs_path_index (unbind_path p fs)) k = Some n} =
      (if n = ino then {k. bt_get (fs_path_index fs) k = Some n} - {p} else {k. bt_get (fs_path_index fs) k = Some n})"
    using assms by auto
  with assms show ?thesis unfolding path_refs_def by simp
qed

lemma path_refs_put [simp]: "path_refs (put_inode ino i fs) n = path_refs fs n"
  by (simp add: path_refs_def)

lemma path_refs_next [simp]: "path_refs (fs\<lparr>fs_next_ino := n\<rparr>) m = path_refs fs m" 
  by (simp add: path_refs_def)

text \<open>A change of an inode that keeps its kind, number and link count.\<close>

lemma vfs_ok_put:
  assumes ok: "vfs_ok fs" and i: "bt_get (fs_inodes fs) ino = Some i"
    and same: "md_ino (in_metadata i') = md_ino (in_metadata i)" "md_nlink (in_metadata i') = md_nlink (in_metadata i)"
      "in_kind i' = Directory \<longleftrightarrow> in_kind i = Directory"
  shows "vfs_ok (put_inode ino i' fs)"
proof -
  let ?fs = "put_inode ino i' fs"
  have dir: "directory_at ?fs cs = directory_at fs cs" for cs
    using i same(3) by (auto simp: directory_at_def inode_at_def split: option.splits)
  have "inode_ok ?fs n x" if "bt_get (fs_inodes ?fs) n = Some x" for n x
  proof (cases "n = ino")
    case True
    with that vfs_ok_inode [OF ok i] same show ?thesis by (auto simp: inode_ok_def split: if_splits)
  next
    case False
    with that vfs_ok_inode [OF ok, of n x] show ?thesis by (simp add: inode_ok_def)
  qed
  moreover have "index_ok ?fs"
    using ok by (auto simp: vfs_ok_def index_ok_def dir indexed_def)
  ultimately show ?thesis by (simp add: vfs_ok_def)
qed

lemma next_ino_fresh: "vfs_ok fs \<Longrightarrow> bt_get (fs_inodes fs) (fs_next_ino fs) = None"
  using vfs_ok_inode [of fs "fs_next_ino fs"] by (cases "bt_get (fs_inodes fs) (fs_next_ino fs)") (auto simp: inode_ok_def)

lemma path_refs_fresh: "vfs_ok fs \<Longrightarrow> bt_get (fs_inodes fs) ino = None \<Longrightarrow> path_refs fs ino = 0"
  using indexedD [OF vfs_ok_indexed, of fs _ ino] by (auto simp: path_refs_def)

text \<open>Binding a new path in an existing directory keeps the index a tree.\<close>

lemma index_ok_bind:
  assumes ok: "vfs_ok fs" and p: "proper_list (cs @ [c])" "directory_at fs cs"
    and idx: "\<And>k. bt_get (fs_path_index fs') k =
      (if k = abs_path (cs @ [c]) then Some ino else bt_get (fs_path_index fs) k)"
    and dir: "\<And>ds. directory_at fs ds \<Longrightarrow> directory_at fs' ds"
    and keep: "\<exists>x. bt_get (fs_inodes fs') ino = Some x"
      "\<And>n. \<exists>x. bt_get (fs_inodes fs) n = Some x \<Longrightarrow> \<exists>x. bt_get (fs_inodes fs') n = Some x"
  shows "index_ok fs'"
  unfolding index_ok_def
proof (intro conjI allI impI)
  show "\<exists>ds. proper_list ds \<and> k = abs_path ds" if "bt_get (fs_path_index fs') k = Some m" for k m
  proof (cases "k = abs_path (cs @ [c])")
    case True
    with p(1) show ?thesis by blast
  next
    case False
    with that vfs_ok_key [OF ok, of k m] show ?thesis by (simp add: idx)
  qed
  show "indexed fs'" using vfs_ok_indexed [OF ok] keep by (auto simp: indexed_def idx)
  show "directory_at fs' []" using vfs_ok_root [OF ok] by (rule dir)
  show "directory_at fs' ds" if "proper_list (ds @ [d])" "lookup_path fs' (ds @ [d]) = Some m" for ds d m
  proof (cases "abs_path (ds @ [d]) = abs_path (cs @ [c])")
    case True
    then have "ds = cs" using that(1) p(1) abs_path_inject [of "ds @ [d]" "cs @ [c]"] by simp
    with dir p(2) show ?thesis by simp
  next
    case False
    with that vfs_ok_parent [OF ok, of ds d m] dir show ?thesis by (simp add: idx)
  qed
qed

text \<open>A new inode under a new path in an existing directory.\<close>

definition create_node :: "inode_kind \<Rightarrow> u32 \<Rightarrow> u64 \<Rightarrow> string \<Rightarrow> memory_fs \<Rightarrow> memory_fs" where
  "create_node kind mode now p fs = bind_path p (fs_next_ino fs) (snd (allocate_inode kind mode now fs))"

lemma vfs_ok_create:
  assumes ok: "vfs_ok fs" and p: "proper_list (cs @ [c])" "lookup_path fs (cs @ [c]) = None" "directory_at fs cs"
    and room: "fs_next_ino fs \<noteq> - 1"
  shows "vfs_ok (create_node kind mode now (abs_path (cs @ [c])) fs)"
proof -
  let ?n = "fs_next_ino fs" and ?p = "abs_path (cs @ [c])"
  define fs' where "fs' = create_node kind mode now ?p fs"
  have idx: "bt_get (fs_path_index fs') k = (if k = ?p then Some ?n else bt_get (fs_path_index fs) k)" for k
    by (simp add: fs'_def create_node_def allocate_inode_sel)
  have ino: "bt_get (fs_inodes fs') n = (if n = ?n then Some \<lparr>in_metadata = new_metadata kind mode ?n now, in_kind = kind\<rparr>
      else bt_get (fs_inodes fs) n)" for n
    by (simp add: fs'_def create_node_def allocate_inode_sel)
  have nx: "fs_next_ino fs' = ?n + 1" by (simp add: fs'_def create_node_def allocate_inode_sel)
  have refs: "path_refs fs' n = path_refs fs n + (if n = ?n then 1 else 0)" for n
    using p(2) by (simp add: fs'_def create_node_def allocate_inode_sel path_refs_bind)
  note fresh = next_ino_fresh [OF ok]
  have dir: "directory_at fs' ds" if d: "directory_at fs ds" for ds
  proof -
    from d obtain m i where m: "lookup_path fs ds = Some m" "bt_get (fs_inodes fs) m = Some i" "in_kind i = Directory"
      by (auto simp: directory_at_def inode_at_def split: option.splits)
    then have "abs_path ds \<noteq> ?p" "m \<noteq> ?n" using p(2) fresh by auto
    with m show ?thesis by (auto simp: directory_at_def inode_at_def idx ino)
  qed
  have "index_ok fs'"
    by (rule index_ok_bind [OF ok p(1,3) idx dir]) (simp_all add: ino)
  moreover have "inode_ok fs' n i" if "bt_get (fs_inodes fs') n = Some i" for n i
  proof (cases "n = ?n")
    case True
    then show ?thesis
      using that path_refs_fresh [OF ok fresh] less_succ_word [OF room]
      by (auto simp: ino refs nx inode_ok_def new_metadata_def)
  next
    case False
    then have "inode_ok fs n i" using that vfs_ok_inode [OF ok] by (simp add: ino)
    then show ?thesis using False less_succ_word [OF room] by (auto simp: inode_ok_def refs nx)
  qed
  ultimately show ?thesis by (simp add: vfs_ok_def fs'_def)
qed

subsection \<open>Removal\<close>

text \<open>A path without paths below it is dropped with a link of its inode.\<close>

definition childless :: "memory_fs \<Rightarrow> string list \<Rightarrow> bool" where
  "childless fs cs \<longleftrightarrow> (\<forall>c. proper_list (cs @ [c]) \<longrightarrow> lookup_path fs (cs @ [c]) = None)"

lemma childless_file:
  "vfs_ok fs \<Longrightarrow> inode_at fs (abs_path cs) = Some i \<Longrightarrow> in_kind i \<noteq> Directory \<Longrightarrow> childless fs cs"
  using vfs_ok_parent [of fs cs] by (fastforce simp: childless_def directory_at_def)

lemma has_children_iff:
  assumes "vfs_ok fs" "proper_list cs" "cs \<noteq> []"
  shows "has_children fs (abs_path cs) \<longleftrightarrow> \<not> childless fs cs"
proof -
  have "has_children fs (abs_path cs) \<longleftrightarrow>
      (\<exists>k ino. bt_get (fs_path_index fs) k = Some ino \<and> prefix (abs_path cs @ ''/'') k)"
    unfolding has_children_def list_ex_iff starts_with_iff_prefix
    by (auto simp: set_keys_iff bt_contains_iff)
  also have "\<dots> \<longleftrightarrow> (\<exists>ds ino. proper_list ds \<and> lookup_path fs ds = Some ino \<and> strict_prefix cs ds)"
    using vfs_ok_key [OF assms(1)] below_iff [OF assms(2) _ assms(3)] by metis
  also have "\<dots> \<longleftrightarrow> \<not> childless fs cs"
  proof
    assume "\<exists>ds ino. proper_list ds \<and> lookup_path fs ds = Some ino \<and> strict_prefix cs ds"
    then obtain c es ino where e: "proper_list ((cs @ [c]) @ es)" "lookup_path fs ((cs @ [c]) @ es) = Some ino"
      by (auto elim!: strict_prefixE')
    then have "\<exists>ino. lookup_path fs (cs @ [c]) = Some ino"
      using vfs_ok_ancestor [OF assms(1) e] directory_at_lookup by (cases "es = []") auto
    with e(1) show "\<not> childless fs cs" by (auto simp: childless_def)
  next
    assume "\<not> childless fs cs"
    then obtain c ino where "proper_list (cs @ [c])" "lookup_path fs (cs @ [c]) = Some ino" by (auto simp: childless_def)
    moreover have "strict_prefix cs (cs @ [c])" by (simp add: strict_prefix_def)
    ultimately show "\<exists>ds ino. proper_list ds \<and> lookup_path fs ds = Some ino \<and> strict_prefix cs ds" by blast
  qed
  finally show ?thesis .
qed

text \<open>What dropping a path does, given the inode with its change time set.\<close>

lemma decrement_cases:
  assumes "bt_get (fs_inodes fs) ino = Some i" "md_nlink (in_metadata i) \<noteq> 0"
  obtains (last) "md_nlink (in_metadata i) = 1"
      "decrement_link_count ino fs = Inr (fs\<lparr>fs_inodes := bt_remove ino (fs_inodes fs)\<rparr>)"
  | (more) "md_nlink (in_metadata i) - 1 \<noteq> 0" "decrement_link_count ino fs =
        Inr (put_inode ino (map_metadata (\<lambda>m. m\<lparr>md_nlink := md_nlink (in_metadata i) - 1\<rparr>) i) fs)"
  using assms by (cases "md_nlink (in_metadata i) - 1 = 0") (auto simp: decrement_link_count_def Let_def)

lemma unat_pred: "x \<noteq> 0 \<Longrightarrow> unat (x - 1) = unat (x :: 'a::len word) - 1"
  using unatSuc [of "x - 1"] by simp

lemma unbind_result:
  assumes ok: "vfs_ok fs" and p: "bt_get (fs_path_index fs) p = Some ino"
    and i: "bt_get (fs_inodes fs) ino = Some i"
    and i': "md_nlink (in_metadata i') = md_nlink (in_metadata i)"
  obtains fs' j where "decrement_link_count ino (unbind_path p (put_inode ino i' fs)) = Inr fs'"
    "fs_next_ino fs' = fs_next_ino fs"
    "\<forall>k. bt_get (fs_path_index fs') k = (if k = p then None else bt_get (fs_path_index fs) k)"
    "\<forall>n. bt_get (fs_inodes fs') n = (if n = ino then j else bt_get (fs_inodes fs) n)"
    "\<forall>n. path_refs fs' n = path_refs fs n - (if n = ino then 1 else 0)"
    "j = None \<and> md_nlink (in_metadata i) = 1 \<or>
     j = Some (map_metadata (\<lambda>m. m\<lparr>md_nlink := md_nlink (in_metadata i) - 1\<rparr>) i') \<and> md_nlink (in_metadata i) - 1 \<noteq> 0"
proof -
  let ?fs1 = "unbind_path p (put_inode ino i' fs)"
  have refs: "path_refs ?fs1 n = path_refs fs n - (if n = ino then 1 else 0)" for n
    using path_refs_unbind [of "put_inode ino i' fs" p ino n] p by simp
  have nz: "md_nlink (in_metadata i') \<noteq> 0"
    using vfs_ok_inode [OF ok i] path_refs_pos [OF p] i' by (auto simp: inode_ok_def)
  have get: "bt_get (fs_inodes ?fs1) ino = Some i'" by simp
  from get nz show thesis
  proof (cases rule: decrement_cases)
    case last
    let ?fs' = "?fs1\<lparr>fs_inodes := bt_remove ino (fs_inodes ?fs1)\<rparr>"
    show ?thesis
      by (rule that [of ?fs' None]) (use last i' refs in \<open>simp_all add: path_refs_def\<close>)
  next
    case more
    let ?fs' = "put_inode ino (map_metadata (\<lambda>m. m\<lparr>md_nlink := md_nlink (in_metadata i') - 1\<rparr>) i') ?fs1"
    show ?thesis
      by (rule that [of ?fs' "Some (map_metadata (\<lambda>m. m\<lparr>md_nlink := md_nlink (in_metadata i') - 1\<rparr>) i')"])
         (use more i' refs in \<open>simp_all add: path_refs_def\<close>)
  qed
qed

text \<open>The other paths keep their kinds, and the invariant holds after the removal.\<close>

lemma vfs_ok_drop:
  assumes ok: "vfs_ok fs" and p: "proper_list cs" "cs \<noteq> []" "lookup_path fs cs = Some ino"
    and i: "bt_get (fs_inodes fs) ino = Some i" and empty: "childless fs cs"
    and i': "md_ino (in_metadata i') = md_ino (in_metadata i)" "md_nlink (in_metadata i') = md_nlink (in_metadata i)"
      "in_kind i' = in_kind i"
  obtains fs' where "decrement_link_count ino (unbind_path (abs_path cs) (put_inode ino i' fs)) = Inr fs'" "vfs_ok fs'"
    "fs_next_ino fs' = fs_next_ino fs"
    "\<forall>k. bt_get (fs_path_index fs') k = (if k = abs_path cs then None else bt_get (fs_path_index fs) k)"
    "\<forall>k x. k \<noteq> abs_path cs \<longrightarrow> inode_at fs k = Some x \<longrightarrow> (\<exists>x'. inode_at fs' k = Some x' \<and> in_kind x' = in_kind x)"
proof -
  obtain fs' j where run: "decrement_link_count ino (unbind_path (abs_path cs) (put_inode ino i' fs)) = Inr fs'"
    and nx: "fs_next_ino fs' = fs_next_ino fs"
    and look': "\<forall>k. bt_get (fs_path_index fs') k = (if k = abs_path cs then None else bt_get (fs_path_index fs) k)"
    and ino': "\<forall>n. bt_get (fs_inodes fs') n = (if n = ino then j else bt_get (fs_inodes fs) n)"
    and refs': "\<forall>n. path_refs fs' n = path_refs fs n - (if n = ino then 1 else 0)"
    and j: "j = None \<and> md_nlink (in_metadata i) = 1 \<or>
      j = Some (map_metadata (\<lambda>m. m\<lparr>md_nlink := md_nlink (in_metadata i) - 1\<rparr>) i') \<and> md_nlink (in_metadata i) - 1 \<noteq> 0"
    by (rule unbind_result [OF ok p(3) i i'(2)])
  note look = look' [rule_format] and ino = ino' [rule_format] and refs = refs' [rule_format]
  have iok: "inode_ok fs ino i" using vfs_ok_inode [OF ok i] .
  have left: "j \<noteq> None" if "bt_get (fs_path_index fs') k = Some ino" for k
    using path_refs_pos [OF that] refs [of ino] iok j by (auto simp: inode_ok_def split: if_splits)
  have at: "\<exists>x'. inode_at fs' k = Some x' \<and> in_kind x' = in_kind x"
    if k: "k \<noteq> abs_path cs" "inode_at fs k = Some x" for k x
  proof -
    from k(2) obtain n where n: "bt_get (fs_path_index fs) k = Some n" "bt_get (fs_inodes fs) n = Some x"
      by (auto simp: inode_at_def split: option.splits)
    with left [of k] j i i'(3) k(1) show ?thesis by (cases "n = ino") (auto simp: inode_at_def look ino)
  qed
  have dir: "directory_at fs' ds" if "directory_at fs ds" "proper_list ds" "ds \<noteq> cs" for ds
    using that at [of "abs_path ds"] abs_path_inject [OF that(2) p(1)] by (fastforce simp: directory_at_def)
  have "index_ok fs'" unfolding index_ok_def
  proof (intro conjI allI impI)
    show "\<exists>ds. proper_list ds \<and> k = abs_path ds" if "bt_get (fs_path_index fs') k = Some m" for k m
      using that vfs_ok_key [OF ok, of k m] by (simp add: look split: if_splits)
    show "indexed fs'" unfolding indexed_def
    proof (intro allI impI)
      fix k m
      assume k: "bt_get (fs_path_index fs') k = Some m"
      show "\<exists>x. bt_get (fs_inodes fs') m = Some x"
      proof (cases "m = ino")
        case True
        with left k show ?thesis by (simp add: ino)
      next
        case False
        with k vfs_ok_indexed [OF ok] show ?thesis by (auto simp: indexed_def look ino split: if_splits)
      qed
    qed
    show "directory_at fs' []" using vfs_ok_root [OF ok] p(2) by (intro dir) simp_all
    show "directory_at fs' ds" if d: "proper_list (ds @ [d])" "lookup_path fs' (ds @ [d]) = Some m" for ds d m
    proof (rule dir)
      have "lookup_path fs (ds @ [d]) = Some m" using d(2) by (simp add: look split: if_splits)
      then show "directory_at fs ds" "ds \<noteq> cs" using vfs_ok_parent [OF ok d(1)] empty d(1) by (auto simp: childless_def)
    qed (use d in simp)
  qed
  moreover have "inode_ok fs' n x" if "bt_get (fs_inodes fs') n = Some x" for n x
  proof (cases "n = ino")
    case True
    then have "x = map_metadata (\<lambda>m. m\<lparr>md_nlink := md_nlink (in_metadata i) - 1\<rparr>) i'"
      "md_nlink (in_metadata i) - 1 \<noteq> 0" using that j by (auto simp: ino)
    moreover have "md_nlink (in_metadata i) \<noteq> 0" using iok path_refs_pos [OF p(3)] by (auto simp: inode_ok_def)
    ultimately show ?thesis
      using iok True i' unat_pred [of "md_nlink (in_metadata i)"] unat_eq_zero [of "md_nlink (in_metadata i) - 1"]
      by (auto simp: inode_ok_def refs nx)
  next
    case False
    with that vfs_ok_inode [OF ok, of n x] show ?thesis by (simp add: ino inode_ok_def refs nx)
  qed
  ultimately have "vfs_ok fs'" by (simp add: vfs_ok_def)
  then show thesis using that [OF run _ nx look'] at by blast
qed

subsection \<open>Links\<close>

lemma vfs_ok_link:
  assumes ok: "vfs_ok fs" and i: "bt_get (fs_inodes fs) ino = Some i" "in_kind i \<noteq> Directory"
    and p: "proper_list (cs @ [c])" "lookup_path fs (cs @ [c]) = None" "directory_at fs cs"
    and room: "md_nlink (in_metadata i) \<noteq> - 1"
    and i': "md_ino (in_metadata i') = md_ino (in_metadata i)" "md_nlink (in_metadata i') = md_nlink (in_metadata i) + 1"
      "in_kind i' = in_kind i"
  shows "vfs_ok (put_inode ino i' (bind_path (abs_path (cs @ [c])) ino fs))"
proof -
  let ?p = "abs_path (cs @ [c])"
  define fs' where "fs' = put_inode ino i' (bind_path ?p ino fs)"
  have idx: "bt_get (fs_path_index fs') k = (if k = ?p then Some ino else bt_get (fs_path_index fs) k)" for k
    by (simp add: fs'_def)
  have get: "bt_get (fs_inodes fs') n = (if n = ino then Some i' else bt_get (fs_inodes fs) n)" for n
    by (simp add: fs'_def)
  have refs: "path_refs fs' n = path_refs fs n + (if n = ino then 1 else 0)" for n
    using p(2) by (simp add: fs'_def path_refs_bind)
  have nx: "fs_next_ino fs' = fs_next_ino fs" by (simp add: fs'_def)
  have dir: "directory_at fs' ds" if d: "directory_at fs ds" for ds
    using d i p(2) i'(3) by (auto simp: directory_at_def inode_at_def idx get split: option.splits)
  have "index_ok fs'"
    by (rule index_ok_bind [OF ok p(1,3) idx dir]) (simp_all add: get)
  moreover have "inode_ok fs' n x" if "bt_get (fs_inodes fs') n = Some x" for n x
  proof (cases "n = ino")
    case True
    have "1 + md_nlink (in_metadata i) \<noteq> 0" using room by (metis add_eq_0_iff)
    then have "unat (md_nlink (in_metadata i')) = unat (md_nlink (in_metadata i)) + 1"
      using unatSuc [of "md_nlink (in_metadata i)"] by (simp add: i' add.commute)
    with True that vfs_ok_inode [OF ok i(1)] i(2) i' show ?thesis by (auto simp: get inode_ok_def refs nx)
  next
    case False
    with that vfs_ok_inode [OF ok, of n x] show ?thesis by (simp add: get inode_ok_def refs nx)
  qed
  ultimately show ?thesis by (simp add: vfs_ok_def fs'_def)
qed

subsection \<open>Moves\<close>

text \<open>
  Moving the subtree at \<open>os\<close> to \<open>ns\<close>, as a function on component lists, and the index after the move.
\<close>

definition moved :: "string list \<Rightarrow> string list \<Rightarrow> string list \<Rightarrow> string list" where
  "moved os ns cs = (if prefix os cs then ns @ drop (length os) cs else cs)"

definition move_lookup :: "memory_fs \<Rightarrow> string list \<Rightarrow> string list \<Rightarrow> string list \<Rightarrow> u64 option" where
  "move_lookup fs os ns cs =
     (if prefix ns cs then lookup_path fs (os @ drop (length ns) cs)
      else if prefix os cs then None else lookup_path fs cs)"

definition move_ready :: "memory_fs \<Rightarrow> string list \<Rightarrow> string list \<Rightarrow> bool" where
  "move_ready fs os ns \<longleftrightarrow>
     proper_list os \<and> proper_list ns \<and> os \<noteq> [] \<and> ns \<noteq> [] \<and> \<not> prefix os ns \<and> \<not> prefix ns os \<and>
     lookup_path fs ns = None \<and> directory_at fs (butlast ns)"

lemma vfs_ok_below:
  assumes "vfs_ok fs" "lookup_path fs cs = None" "proper_list (cs @ ds)"
  shows "lookup_path fs (cs @ ds) = None"
proof (rule ccontr)
  assume "lookup_path fs (cs @ ds) \<noteq> None"
  then obtain ino where ino: "lookup_path fs (cs @ ds) = Some ino" by blast
  with assms(2) have "ds \<noteq> []" by auto
  from vfs_ok_ancestor [OF assms(1,3) ino this] assms(2) show False using directory_at_lookup by fastforce
qed

lemma prefix_cases:
  assumes "\<not> prefix os ns" "\<not> prefix ns os" "prefix ns cs"
  shows "\<not> prefix os cs"
  using assms prefix_same_cases by blast

lemma moved_inj:
  assumes "move_ready fs os ns" "\<not> prefix ns cs" "\<not> prefix ns ds"
  shows "moved os ns cs = moved os ns ds \<longleftrightarrow> cs = ds"
proof -
  have drop: "os @ drop (length os) x = x" if "prefix os x" for x
    using that by (auto simp: prefix_def)
  show ?thesis
    using assms drop [of cs] drop [of ds] by (auto simp: moved_def prefix_def)
qed

lemma lookup_moved:
  assumes "vfs_ok fs" "move_ready fs os ns" "proper_list cs" "lookup_path fs cs = Some ino"
  shows "move_lookup fs os ns (moved os ns cs) = Some ino" "proper_list (moved os ns cs)" "\<not> prefix ns cs"
proof -
  show n: "\<not> prefix ns cs"
  proof
    assume "prefix ns cs"
    then obtain ds where "cs = ns @ ds" by (auto simp: prefix_def)
    with assms vfs_ok_below [OF assms(1), of ns ds] show False by (auto simp: move_ready_def)
  qed
  show "move_lookup fs os ns (moved os ns cs) = Some ino"
    using assms n by (auto simp: move_lookup_def moved_def prefix_def)
  show "proper_list (moved os ns cs)"
    using assms by (auto simp: moved_def move_ready_def prefix_def)
qed

lemma move_lookup_back:
  assumes "vfs_ok fs" "move_ready fs os ns" "proper_list cs" "move_lookup fs os ns cs = Some ino"
  shows "\<exists>ds. proper_list ds \<and> lookup_path fs ds = Some ino \<and> cs = moved os ns ds"
proof (cases "prefix ns cs")
  case True
  then obtain es where es: "cs = ns @ es" by (auto simp: prefix_def)
  with assms have "proper_list (os @ es)" "lookup_path fs (os @ es) = Some ino"
    by (auto simp: move_lookup_def move_ready_def)
  then show ?thesis by (intro exI [of _ "os @ es"]) (simp add: moved_def es)
next
  case False
  with assms show ?thesis by (intro exI [of _ cs]) (auto simp: move_lookup_def moved_def split: if_splits)
qed

lemma moved_snoc: "es @ [e] \<noteq> os \<Longrightarrow> moved os ns (es @ [e]) = moved os ns es @ [e]"
  by (auto simp: moved_def prefix_def append_eq_append_conv2 Cons_eq_append_conv)

lemma path_refs_moved:
  assumes ok: "vfs_ok fs" and ready: "move_ready fs os ns"
    and look: "\<And>cs. proper_list cs \<Longrightarrow> lookup_path fs' cs = move_lookup fs os ns cs"
    and keys: "\<And>k ino. bt_get (fs_path_index fs') k = Some ino \<Longrightarrow> \<exists>cs. proper_list cs \<and> k = abs_path cs"
  shows "path_refs fs' n = path_refs fs n"
proof -
  let ?f = "\<lambda>k. abs_path (moved os ns (path_parts k))"
  let ?A = "{k. bt_get (fs_path_index fs) k = Some n}" and ?B = "{k. bt_get (fs_path_index fs') k = Some n}"
  have "inj_on ?f ?A"
  proof (rule inj_onI)
    fix k l
    assume kl: "k \<in> ?A" "l \<in> ?A" "?f k = ?f l"
    then obtain cs ds where cs: "proper_list cs" "k = abs_path cs" "proper_list ds" "l = abs_path ds"
      using vfs_ok_key [OF ok, of k n] vfs_ok_key [OF ok, of l n] by auto
    with kl lookup_moved [OF ok ready, of cs n] lookup_moved [OF ok ready, of ds n]
    have "moved os ns cs = moved os ns ds" "\<not> prefix ns cs" "\<not> prefix ns ds" by (simp_all add: abs_path_inject)
    with moved_inj [OF ready] cs show "k = l" by blast
  qed
  moreover have "?f ` ?A = ?B"
  proof (intro equalityI subsetI)
    fix k assume "k \<in> ?f ` ?A"
    then obtain l where l: "l \<in> ?A" "k = ?f l" by blast
    then obtain cs where "proper_list cs" "l = abs_path cs" using vfs_ok_key [OF ok] by blast
    with l lookup_moved [OF ok ready, of cs n] look show "k \<in> ?B" by simp
  next
    fix k assume k: "k \<in> ?B"
    then obtain cs where cs: "proper_list cs" "k = abs_path cs" using keys by blast
    with k look move_lookup_back [OF ok ready, of cs n] obtain ds where
      "proper_list ds" "lookup_path fs ds = Some n" "cs = moved os ns ds" by auto
    with cs show "k \<in> ?f ` ?A" by (intro image_eqI [of _ _ "abs_path ds"]) simp_all
  qed
  ultimately show ?thesis unfolding path_refs_def using card_image [of ?f ?A] by simp
qed

lemma vfs_ok_moved:
  assumes ok: "vfs_ok fs" and ready: "move_ready fs os ns"
    and look: "\<And>cs. proper_list cs \<Longrightarrow> lookup_path fs' cs = move_lookup fs os ns cs"
    and keys: "\<And>k ino. bt_get (fs_path_index fs') k = Some ino \<Longrightarrow> \<exists>cs. proper_list cs \<and> k = abs_path cs"
    and same: "fs_inodes fs' = fs_inodes fs" "fs_next_ino fs' = fs_next_ino fs"
  shows "vfs_ok fs'"
proof -
  have dir: "directory_at fs' (moved os ns ds)" if "directory_at fs ds" "proper_list ds" for ds
  proof -
    from that(1) obtain m i where "lookup_path fs ds = Some m" "bt_get (fs_inodes fs) m = Some i" "in_kind i = Directory"
      by (auto simp: directory_at_def inode_at_def split: option.splits)
    with lookup_moved [OF ok ready that(2)] look show ?thesis by (auto simp: directory_at_def inode_at_def same)
  qed
  have origin: "\<exists>ds. proper_list ds \<and> lookup_path fs ds = Some ino \<and> cs = moved os ns ds"
    if "proper_list cs" "lookup_path fs' cs = Some ino" for cs ino
    using move_lookup_back [OF ok ready that(1), of ino] look [OF that(1)] that(2) by simp
  have par: "directory_at fs' cs" if c: "proper_list (cs @ [c])" "lookup_path fs' (cs @ [c]) = Some ino" for cs c ino
  proof -
    from origin [OF c] obtain ds where ds: "proper_list ds" "lookup_path fs ds = Some ino" "cs @ [c] = moved os ns ds" by blast
    show ?thesis
    proof (cases "ds = os")
      case True
      with ds(3) have "cs @ [c] = ns" by (simp add: moved_def)
      then have "cs = butlast ns" by auto
      moreover have "\<not> prefix os (butlast ns)"
        using ready prefix_order.trans [OF _ prefixeq_butlast, of os ns] by (auto simp: move_ready_def)
      ultimately show ?thesis using dir [of "butlast ns"] ready c(1) by (simp add: move_ready_def moved_def)
    next
      case False
      have "ds \<noteq> []" using ds(3) ready by (auto simp: moved_def move_ready_def)
      then obtain es e where e: "ds = es @ [e]" by (cases ds rule: rev_cases) auto
      with False ds(3) have "moved os ns es = cs" by (simp add: moved_snoc)
      with e ds vfs_ok_parent [OF ok, of es e ino] dir [of es] show ?thesis by simp
    qed
  qed
  have "index_ok fs'" unfolding index_ok_def
  proof (intro conjI allI impI)
    show "indexed fs'" unfolding indexed_def
    proof (intro allI impI)
      fix k m
      assume k: "bt_get (fs_path_index fs') k = Some m"
      then obtain cs where "proper_list cs" "k = abs_path cs" using keys by blast
      with k origin [of cs m] indexedD [OF vfs_ok_indexed [OF ok]] show "\<exists>x. bt_get (fs_inodes fs') m = Some x"
        by (auto simp: same)
    qed
    show "directory_at fs' []" using dir [OF vfs_ok_root [OF ok]] ready by (simp add: moved_def move_ready_def)
  qed (use keys par in blast)+
  moreover have "path_refs fs' n = path_refs fs n" for n
    by (rule path_refs_moved [OF ok ready look keys])
  ultimately show ?thesis using ok by (simp add: vfs_ok_def inode_ok_def same)
qed

lemma fold_unbind:
  "bt_get (fs_path_index (fold (\<lambda>(p, _). unbind_path p) xs fs)) k =
     (if k \<in> fst ` set xs then None else bt_get (fs_path_index fs) k)"
  "fs_inodes (fold (\<lambda>(p, _). unbind_path p) xs fs) = fs_inodes fs"
  "fs_next_ino (fold (\<lambda>(p, _). unbind_path p) xs fs) = fs_next_ino fs"
  by (induction xs arbitrary: fs) auto

lemma fold_bind_frame:
  "fs_inodes (fold (\<lambda>(p, ino). bind_path (f p) ino) xs fs) = fs_inodes fs"
  "fs_next_ino (fold (\<lambda>(p, ino). bind_path (f p) ino) xs fs) = fs_next_ino fs"
  by (induction xs arbitrary: fs) auto

lemma fold_bind_other:
  "k \<notin> f ` fst ` set xs \<Longrightarrow>
     bt_get (fs_path_index (fold (\<lambda>(p, ino). bind_path (f p) ino) xs fs)) k = bt_get (fs_path_index fs) k"
  by (induction xs arbitrary: fs) auto

lemma fold_bind_moved:
  assumes "distinct (map fst xs)" "inj_on f (fst ` set xs)" "(p, v) \<in> set xs"
  shows "bt_get (fs_path_index (fold (\<lambda>(p, ino). bind_path (f p) ino) xs fs)) (f p) = Some v"
  using assms
proof (induction xs arbitrary: fs)
  case (Cons x xs)
  show ?case
  proof (cases "x = (p, v)")
    case True
    with Cons.prems(1,2) have "f p \<notin> f ` fst ` set xs" by (auto simp: inj_on_def)
    with True show ?thesis by (simp add: fold_bind_other)
  next
    case False
    with Cons show ?thesis by (auto simp: inj_on_def split: prod.splits)
  qed
qed simp

lemma relocate_abs_path:
  "os \<noteq> [] \<Longrightarrow> ns \<noteq> [] \<Longrightarrow> proper_list (os @ es) \<Longrightarrow>
     relocate (abs_path os) (abs_path ns) (abs_path (os @ es)) = abs_path (ns @ es)"
  by (cases "es = []") (auto simp: relocate_def abs_path_append abs_path_inject)

lemma to_move_iff:
  assumes "vfs_ok fs" "proper_list os" "os \<noteq> []"
  shows "(k, ino) \<in> set (filter (\<lambda>(path, _). path = abs_path os \<or> starts_with path (abs_path os @ ''/''))
      (bt_entries (fs_path_index fs))) \<longleftrightarrow>
    (\<exists>es. proper_list (os @ es) \<and> k = abs_path (os @ es) \<and> lookup_path fs (os @ es) = Some ino)"
proof -
  have "k = abs_path os \<or> starts_with k (abs_path os @ ''/'') \<longleftrightarrow> prefix os cs"
    if "k = abs_path cs" "proper_list cs" for cs
    unfolding starts_with_iff_prefix that(1) below_iff [OF assms(2) that(2) assms(3)]
    using abs_path_inject [OF that(2) assms(2)] by (auto simp: strict_prefix_def)
  note pre = this
  show ?thesis
  proof
    assume "(k, ino) \<in> set (filter (\<lambda>(path, _). path = abs_path os \<or> starts_with path (abs_path os @ ''/''))
      (bt_entries (fs_path_index fs)))"
    then have k: "bt_get (fs_path_index fs) k = Some ino" "k = abs_path os \<or> starts_with k (abs_path os @ ''/'')"
      by (auto simp: set_entries_iff)
    from vfs_ok_key [OF assms(1) k(1)] obtain cs where cs: "proper_list cs" "k = abs_path cs" by blast
    with pre k(2) obtain es where "cs = os @ es" by (auto simp: prefix_def)
    with cs k(1) show "\<exists>es. proper_list (os @ es) \<and> k = abs_path (os @ es) \<and> lookup_path fs (os @ es) = Some ino" by blast
  next
    assume "\<exists>es. proper_list (os @ es) \<and> k = abs_path (os @ es) \<and> lookup_path fs (os @ es) = Some ino"
    then obtain es where es: "proper_list (os @ es)" "k = abs_path (os @ es)" "lookup_path fs (os @ es) = Some ino" by blast
    with pre [OF es(2,1)] show "(k, ino) \<in> set (filter (\<lambda>(path, _). path = abs_path os \<or> starts_with path (abs_path os @ ''/''))
      (bt_entries (fs_path_index fs)))" by (simp add: set_entries_iff)
  qed
qed

text \<open>The source's loop over the entries implements the move.\<close>

lemma move_subtree_frame:
  "fs_inodes (move_subtree old new fs) = fs_inodes fs" "fs_next_ino (move_subtree old new fs) = fs_next_ino fs"
  by (simp_all add: move_subtree_def Let_def fold_bind_frame fold_unbind)

lemma move_subtree_lookup:
  assumes ok: "vfs_ok fs" and ready: "move_ready fs os ns"
  shows "proper_list cs \<Longrightarrow> lookup_path (move_subtree (abs_path os) (abs_path ns) fs) cs = move_lookup fs os ns cs"
    and "bt_get (fs_path_index (move_subtree (abs_path os) (abs_path ns) fs)) k = Some ino \<Longrightarrow>
      \<exists>cs. proper_list cs \<and> k = abs_path cs"
proof -
  have r: "proper_list os" "proper_list ns" "os \<noteq> []" "ns \<noteq> []" using ready by (simp_all add: move_ready_def)
  define xs where "xs = filter (\<lambda>(path, _). path = abs_path os \<or> starts_with path (abs_path os @ ''/''))
      (bt_entries (fs_path_index fs))"
  define f where "f = relocate (abs_path os) (abs_path ns)"
  define fs1 where "fs1 = fold (\<lambda>(p, _). unbind_path p) xs fs"
  have run: "move_subtree (abs_path os) (abs_path ns) fs = fold (\<lambda>(p, ino). bind_path (f p) ino) xs fs1"
    by (simp add: move_subtree_def xs_def f_def fs1_def Let_def)
  have mem: "(k, ino) \<in> set xs \<longleftrightarrow> (\<exists>es. proper_list (os @ es) \<and> k = abs_path (os @ es) \<and> lookup_path fs (os @ es) = Some ino)"
    for k ino unfolding xs_def by (rule to_move_iff [OF ok r(1,3)])
  have dist: "distinct (map fst xs)"
    unfolding xs_def using distinct_keys [of "fs_path_index fs"] by (simp add: bt_keys_def distinct_map_filter)
  have f: "f (abs_path (os @ es)) = abs_path (ns @ es)" if "proper_list (os @ es)" for es
    unfolding f_def using r(3,4) that by (rule relocate_abs_path)
  have inj: "inj_on f (fst ` set xs)"
  proof (rule inj_onI)
    fix k l assume "k \<in> fst ` set xs" "l \<in> fst ` set xs" "f k = f l"
    then obtain es ds where "k = abs_path (os @ es)" "l = abs_path (os @ ds)" "proper_list (os @ es)" "proper_list (os @ ds)"
      "abs_path (ns @ es) = abs_path (ns @ ds)" using mem f by fastforce
    with r(2) show "k = l" by (simp add: abs_path_inject)
  qed
  have imgf: "k \<in> f ` fst ` set xs \<Longrightarrow> \<exists>es ino. k = abs_path (ns @ es) \<and> proper_list (ns @ es) \<and> lookup_path fs (os @ es) = Some ino" for k
    using mem f r(2) by fastforce
  show "lookup_path (move_subtree (abs_path os) (abs_path ns) fs) cs = move_lookup fs os ns cs" if cs: "proper_list cs" for cs
  proof (cases "prefix ns cs \<and> (\<exists>ino. lookup_path fs (os @ drop (length ns) cs) = Some ino)")
    case True
    then obtain es ino where es: "cs = ns @ es" "lookup_path fs (os @ es) = Some ino" by (auto simp: prefix_def)
    then have "(abs_path (os @ es), ino) \<in> set xs" "proper_list (os @ es)" using mem cs r(1) by auto
    from fold_bind_moved [OF dist inj this(1), of fs1] f [OF this(2)] es show ?thesis
      by (simp add: run move_lookup_def)
  next
    case False
    have "abs_path cs \<notin> f ` fst ` set xs"
    proof
      assume "abs_path cs \<in> f ` fst ` set xs"
      from imgf [OF this] cs False show False by (auto simp: abs_path_inject)
    qed
    then have "lookup_path (move_subtree (abs_path os) (abs_path ns) fs) cs = lookup_path fs1 cs"
      by (simp add: run fold_bind_other)
    moreover have "lookup_path fs1 cs = (if abs_path cs \<in> fst ` set xs then None else lookup_path fs cs)"
      by (simp add: fs1_def fold_unbind)
    moreover have "abs_path cs \<in> fst ` set xs \<longleftrightarrow> prefix os cs \<and> (\<exists>ino. lookup_path fs cs = Some ino)"
      using mem cs by (force simp: abs_path_inject prefix_def image_iff)
    moreover have "lookup_path fs cs = None" if "prefix ns cs"
      using that vfs_ok_below [OF ok, of ns] cs ready by (auto simp: move_ready_def prefix_def)
    ultimately show ?thesis using False by (auto simp: move_lookup_def)
  qed
  show "\<exists>cs. proper_list cs \<and> k = abs_path cs"
    if k: "bt_get (fs_path_index (move_subtree (abs_path os) (abs_path ns) fs)) k = Some ino"
  proof (cases "k \<in> f ` fst ` set xs")
    case True
    from imgf [OF this] show ?thesis by blast
  next
    case False
    with k have "bt_get (fs_path_index fs) k = Some ino"
      by (simp add: run fold_bind_other fs1_def fold_unbind split: if_splits)
    with vfs_ok_key [OF ok] show ?thesis by blast
  qed
qed

subsection \<open>Access to existing paths\<close>

lemma resolve_exact_result:
  "resolve_exact_path fs path = Inr q \<Longrightarrow> \<exists>cs. q = abs_path cs \<and> good cs \<and> plain fs False cs"
  unfolding resolve_exact_path_def by (rule resolve_result)

lemma resolve_path_result:
  "resolve_path fs path depth = Inr q \<Longrightarrow> \<exists>cs. q = abs_path cs \<and> good cs \<and> plain fs True cs"
  unfolding resolve_path_def by (rule resolve_result)

lemma inode_id_plain:
  assumes "indexed fs" "good cs" "plain fs follow cs"
  shows "inode_id_for_existing_path fs (abs_path cs) op follow = ok_or (lookup_path fs cs) (Not_found op (abs_path cs))"
proof -
  have "(if follow then resolve_path fs (abs_path cs) 0 else resolve_exact_path fs (abs_path cs)) = Inr (abs_path cs)"
    using resolve_plain [OF assms, of 0] by (cases follow) (simp_all add: resolve_path_def resolve_exact_path_def)
  with assms(2) show ?thesis by (simp add: inode_id_for_existing_path_def Let_def)
qed

lemma inode_id_result:
  assumes "inode_id_for_existing_path fs path op follow = Inr ino"
  shows "\<exists>cs. good cs \<and> plain fs follow cs \<and> lookup_path fs cs = Some ino"
proof -
  from assms obtain q where
    q: "resolve_path_with_options fs (normalize_path path) follow 0 = Inr q" "bt_get (fs_path_index fs) q = Some ino"
    by (auto simp: inode_id_for_existing_path_def resolve_path_def resolve_exact_path_def Let_def err_simps split: if_splits)
  from resolve_result [OF q(1)] q(2) show ?thesis by blast
qed

lemma inode_mut_result:
  assumes "inode_mut_for_existing_path fs path op follow = Inr (ino, i)"
  shows "bt_get (fs_inodes fs) ino = Some i" "\<exists>cs. good cs \<and> plain fs follow cs \<and> lookup_path fs cs = Some ino"
  using assms inode_id_result [of fs path op follow ino]
  by (auto simp: inode_mut_for_existing_path_def err_simps)

text \<open>No access panics while the index points at inodes.\<close>

lemma access_not_panicked:
  assumes "indexed fs"
  shows "resolve_exact_path fs path \<noteq> Inl Panicked" "resolve_path fs path depth \<noteq> Inl Panicked"
    "inode_id_for_existing_path fs path op follow \<noteq> Inl Panicked"
    "inode_for_existing_path fs path op follow \<noteq> Inl Panicked"
    "inode_mut_for_existing_path fs path op follow \<noteq> Inl Panicked"
    "assert_directory_path fs path op \<noteq> Inl Panicked"
proof -
  note r = resolve_not_panicked [OF assms]
  show "resolve_exact_path fs path \<noteq> Inl Panicked" "resolve_path fs path depth \<noteq> Inl Panicked"
    using r by (simp_all add: resolve_exact_path_def resolve_path_def)
  have id: "inode_id_for_existing_path fs path op follow \<noteq> Inl Panicked"
    using r by (auto simp: inode_id_for_existing_path_def resolve_path_def resolve_exact_path_def Let_def err_simps)
  have live: "bt_get (fs_inodes fs) ino \<noteq> None" if "inode_id_for_existing_path fs path op follow = Inr ino" for ino follow
    using inode_id_result [OF that] indexedD [OF assms] by blast
  have "inode_for_existing_path fs path op follow \<noteq> Inl Panicked" for follow
  proof
    assume "inode_for_existing_path fs path op follow = Inl Panicked"
    moreover have "inode_id_for_existing_path fs path op follow \<noteq> Inl Panicked"
      using r by (auto simp: inode_id_for_existing_path_def resolve_path_def resolve_exact_path_def Let_def err_simps)
    ultimately show False using live [of follow] by (auto simp: inode_for_existing_path_def err_simps)
  qed
  then show "inode_for_existing_path fs path op follow \<noteq> Inl Panicked" "assert_directory_path fs path op \<noteq> Inl Panicked"
    by (auto simp: assert_directory_path_def err_simps split: if_splits)
  show "inode_mut_for_existing_path fs path op follow \<noteq> Inl Panicked"
    using id live [of follow] by (auto simp: inode_mut_for_existing_path_def err_simps)
qed (use resolve_not_panicked [OF assms] in
  \<open>auto simp: inode_id_for_existing_path_def resolve_path_def resolve_exact_path_def Let_def err_simps\<close>)

lemma assert_directory_iff:
  assumes "indexed fs" "good cs" "plain fs True cs"
  shows "assert_directory_path fs (abs_path cs) op = Inr () \<longleftrightarrow> directory_at fs cs"
  using indexedD [OF assms(1), of "abs_path cs"]
  by (cases "lookup_path fs cs")
     (auto simp: assert_directory_path_def inode_for_existing_path_def inode_id_plain [OF assms] err_simps
        directory_at_def inode_at_def)

text \<open>The parent of a resolved path.\<close>

lemma assert_parent:
  assumes "indexed fs" "good cs" "plain fs follow cs"
  shows "assert_directory_path fs (dirname (abs_path cs)) op = Inr () \<longleftrightarrow> directory_at fs (butlast cs)"
  using assert_directory_iff [OF assms(1) good_butlast [OF assms(2)] plain_butlast [OF assms(3)]] assms(2) by simp

subsection \<open>Recursive \<open>mkdir\<close>\<close>

definition dir_chain :: "memory_fs \<Rightarrow> string list \<Rightarrow> bool" where
  "dir_chain fs cs \<longleftrightarrow> (\<forall>us vs i. cs = us @ vs \<longrightarrow> inode_at fs (abs_path us) = Some i \<longrightarrow> in_kind i = Directory)"

lemma dir_chain_plain: "dir_chain fs cs \<Longrightarrow> plain fs follow cs"
  unfolding dir_chain_def plain_from_def
proof (intro allI impI)
  fix us c vs i
  assume d: "\<forall>us vs i. cs = us @ vs \<longrightarrow> inode_at fs (abs_path us) = Some i \<longrightarrow> in_kind i = Directory"
    and c: "cs = us @ c # vs" and i: "inode_at fs (abs_path ([] @ us @ [c])) = Some i"
  from c have "cs = (us @ [c]) @ vs" by simp
  with d i have "in_kind i = Directory" unfolding append_Nil by blast
  then show "(vs \<noteq> [] \<longrightarrow> in_kind i = Directory) \<and> (follow \<longrightarrow> \<not> is_symlink (in_kind i))" by simp
qed

lemma plain_dir_chain:
  assumes "vfs_ok fs" "plain fs follow (cs @ [c])"
  shows "dir_chain fs cs"
  unfolding dir_chain_def
proof (intro allI impI)
  fix us vs i
  assume u: "cs = us @ vs" "inode_at fs (abs_path us) = Some i"
  show "in_kind i = Directory"
  proof (cases us rule: rev_cases)
    case Nil
    with u vfs_ok_root [OF assms(1)] show ?thesis by (simp add: directory_at_def)
  next
    case (snoc ws d)
    with u have "cs = ws @ d # vs" "inode_at fs (abs_path ([] @ ws @ [d])) = Some i" by simp_all
    with assms(2) show ?thesis unfolding plain_from_snoc by blast
  qed
qed

lemma dir_chain_prefix: "dir_chain fs (cs @ ds) \<Longrightarrow> dir_chain fs cs"
  unfolding dir_chain_def by (metis append_assoc)

definition extends :: "memory_fs \<Rightarrow> memory_fs \<Rightarrow> bool" where
  "extends fs fs' \<longleftrightarrow>
     (\<forall>k v. bt_get (fs_path_index fs) k = Some v \<longrightarrow> bt_get (fs_path_index fs') k = Some v) \<and>
     (\<forall>n i. bt_get (fs_inodes fs) n = Some i \<longrightarrow> bt_get (fs_inodes fs') n = Some i)"

lemma extends_refl [simp]: "extends fs fs"
  by (simp add: extends_def)

lemma extends_trans: "extends a b \<Longrightarrow> extends b c \<Longrightarrow> extends a c"
  by (simp add: extends_def)

lemma create_node_sel:
  "bt_get (fs_path_index (create_node kind mode now p fs)) k = (if k = p then Some (fs_next_ino fs) else bt_get (fs_path_index fs) k)"
  "bt_get (fs_inodes (create_node kind mode now p fs)) n =
     (if n = fs_next_ino fs then Some \<lparr>in_metadata = new_metadata kind mode (fs_next_ino fs) now, in_kind = kind\<rparr>
      else bt_get (fs_inodes fs) n)"
  "fs_next_ino (create_node kind mode now p fs) = fs_next_ino fs + 1"
  by (simp_all add: create_node_def allocate_inode_sel)

lemma extends_create:
  "vfs_ok fs \<Longrightarrow> bt_get (fs_path_index fs) p = None \<Longrightarrow> extends fs (create_node kind mode now p fs)"
  using next_ino_fresh [of fs] by (auto simp: extends_def create_node_sel)

lemma inode_at_create:
  assumes "vfs_ok fs"
  shows "inode_at (create_node kind mode now p fs) k =
    (if k = p then Some \<lparr>in_metadata = new_metadata kind mode (fs_next_ino fs) now, in_kind = kind\<rparr> else inode_at fs k)"
  using next_ino_fresh [OF assms] indexedD [OF vfs_ok_indexed [OF assms], of k]
  by (auto simp: inode_at_def create_node_sel split: option.splits)

lemma mkdir_part_plain:
  assumes ok: "vfs_ok fs" and g: "good (cs @ [c])" and chain: "dir_chain fs (cs @ [c])"
  shows "mkdir_part (abs_path (cs @ [c])) is_last now fs =
    Inr (abs_path (cs @ [c]),
      if lookup_path fs (cs @ [c]) = None then create_node Directory (S_IFDIR OR 0x1ED) now (abs_path (cs @ [c])) fs else fs)"
proof -
  have r: "resolve_path_with_options fs (abs_path (cs @ [c])) (\<not> is_last) 0 = Inr (abs_path (cs @ [c]))"
    using vfs_ok_indexed [OF ok] g dir_chain_plain [OF chain] by (rule resolve_plain) simp
  show ?thesis
  proof (cases "lookup_path fs (cs @ [c])")
    case None
    with r show ?thesis by (simp add: mkdir_part_def create_node_def allocate_inode_sel)
  next
    case (Some ino)
    then obtain i where i: "bt_get (fs_inodes fs) ino = Some i" using indexedD [OF vfs_ok_indexed [OF ok]] by blast
    with Some have "inode_at fs (abs_path (cs @ [c])) = Some i" by (simp add: inode_at_def)
    with chain have "in_kind i = Directory" unfolding dir_chain_def by (metis append_Nil2)
    with r Some i show ?thesis by (simp add: mkdir_part_def)
  qed
qed

lemma dir_chain_extends:
  assumes "vfs_ok fs" "dir_chain fs cs"
  shows "dir_chain (create_node Directory mode now p fs) cs"
  using assms(2) unfolding dir_chain_def inode_at_create [OF assms(1)] by auto

lemma room_succ: "unat n + Suc k < 2 ^ 64 \<Longrightarrow> n \<noteq> - 1 \<and> unat (n + 1) + k < 2 ^ 64" for n :: u64
proof
  assume r: "unat n + Suc k < 2 ^ 64"
  then show "n \<noteq> - 1" by (auto simp: unsigned_minus_1_eq_mask mask_eq_exp_minus_1)
  then have "1 + n \<noteq> 0" by (metis add_eq_0_iff)
  then show "unat (n + 1) + k < 2 ^ 64" using unatSuc [of n] r by (simp add: add.commute)
qed

text \<open>On a path of directories, \<open>mkdir\<close> succeeds, creates what is missing and nothing else.\<close>

lemma mkdir_parts_plain:
  assumes "vfs_ok fs" "good (pre @ ps)" "dir_chain fs (pre @ ps)" "directory_at fs pre"
    and "unat (fs_next_ino fs) + length ps < 2 ^ 64"
  obtains fs' where "mkdir_parts (abs_path pre) ps now fs = (Inr (), fs')" "vfs_ok fs'" "extends fs fs'"
    "directory_at fs' (pre @ ps)" "dir_chain fs' (pre @ ps)"
    "\<forall>cs. proper_list cs \<longrightarrow> \<not> prefix cs (pre @ ps) \<longrightarrow> lookup_path fs' cs = lookup_path fs cs"
    "unat (fs_next_ino fs') \<le> unat (fs_next_ino fs) + length ps"
  using assms
proof (induction ps arbitrary: pre fs thesis)
  case Nil
  then show ?case by simp
next
  case (Cons p ps)
  let ?fs1 = "if lookup_path fs (pre @ [p]) = None
    then create_node Directory (S_IFDIR OR 0x1ED) now (abs_path (pre @ [p])) fs else fs"
  have g: "good (pre @ [p])" using Cons.prems(3) length_abs_path_prefix [of "pre @ [p]" ps] by (simp add: good_def)
  have chain: "dir_chain fs (pre @ [p])" using Cons.prems(4) dir_chain_prefix [of fs "pre @ [p]" ps] by simp
  note step = mkdir_part_plain [OF Cons.prems(2) g chain, of "ps = []" now]
  have room: "fs_next_ino fs \<noteq> - 1 \<and> unat (fs_next_ino fs + 1) + length ps < 2 ^ 64"
    using room_succ Cons.prems(6) by simp
  have ok1: "vfs_ok ?fs1" using vfs_ok_create [OF Cons.prems(2) good_proper [OF g] _ Cons.prems(5)] room Cons.prems(2) by simp
  have chain1: "dir_chain ?fs1 ((pre @ [p]) @ ps)" using dir_chain_extends [OF Cons.prems(2)] Cons.prems(4) by simp
  have ext1: "extends fs ?fs1" using extends_create [OF Cons.prems(2)] by simp
  have at: "\<exists>i. inode_at ?fs1 (abs_path (pre @ [p])) = Some i"
  proof (cases "lookup_path fs (pre @ [p])")
    case None
    then show ?thesis by (simp add: inode_at_create [OF Cons.prems(2)])
  next
    case (Some ino)
    with indexedD [OF vfs_ok_indexed [OF Cons.prems(2)]] show ?thesis by (auto simp: inode_at_def)
  qed
  then have dir1: "directory_at ?fs1 (pre @ [p])"
    using chain1 unfolding dir_chain_def directory_at_def by blast
  have n1: "unat (fs_next_ino ?fs1) \<le> unat (fs_next_ino fs) + 1" "unat (fs_next_ino ?fs1) + length ps < 2 ^ 64"
    using room Cons.prems(6) unat_add_lem [of "fs_next_ino fs" 1] by (auto simp: create_node_sel unat_word_ariths)
  have good1: "good ((pre @ [p]) @ ps)" using Cons.prems(3) by simp
  obtain fs' where fs': "mkdir_parts (abs_path (pre @ [p])) ps now ?fs1 = (Inr (), fs')" "vfs_ok fs'" "extends ?fs1 fs'"
    "directory_at fs' ((pre @ [p]) @ ps)" "dir_chain fs' ((pre @ [p]) @ ps)"
    "\<forall>cs. proper_list cs \<longrightarrow> \<not> prefix cs ((pre @ [p]) @ ps) \<longrightarrow> lookup_path fs' cs = lookup_path ?fs1 cs"
    "unat (fs_next_ino fs') \<le> unat (fs_next_ino ?fs1) + length ps"
    using Cons.IH [OF _ ok1 good1 chain1 dir1 n1(2)] by blast
  have same: "lookup_path ?fs1 cs = lookup_path fs cs" if "proper_list cs" "\<not> prefix cs (pre @ p # ps)" for cs
    using that abs_path_inject [OF that(1) good_proper [OF g]] by (auto simp: create_node_sel prefix_def)
  show ?case
  proof (rule Cons.prems(1) [of fs'])
    show "mkdir_parts (abs_path pre) (p # ps) now fs = (Inr (), fs')"
      using step fs'(1) g by (simp add: good_def)
    show "extends fs fs'" using ext1 fs'(3) by (rule extends_trans)
  qed (use fs' same n1(1) in auto)
qed

end
