(* ===== verification/Vfs_Safety.thy ===== *)
theory Vfs_Safety
  imports Vfs_Tree
begin

text \<open>
  Every operation of \<open>MemoryFileSystem\<close> keeps the invariant and never hits one of the source's
  \<open>expect\<close> calls, one lemma per operation, and the file system as a system of guarded operations.
\<close>

unbundle bit_operations_syntax

section \<open>The operations keep the invariant and do not panic\<close>

definition safe_result :: "vfs_error + memory_fs \<Rightarrow> bool" where
  "safe_result r \<longleftrightarrow> r \<noteq> Inl Panicked \<and> (\<forall>fs. r = Inr fs \<longrightarrow> vfs_ok fs)"

definition safe :: "(vfs_error + 'a) \<times> memory_fs \<Rightarrow> bool" where
  "safe r \<longleftrightarrow> fst r \<noteq> Inl Panicked \<and> vfs_ok (snd r)"

lemma safe_simps [simp]:
  "safe (Inl e, fs) \<longleftrightarrow> e \<noteq> Panicked \<and> vfs_ok fs" "safe (Inr x, fs) \<longleftrightarrow> vfs_ok fs"
  "safe_result (Inr fs) \<longleftrightarrow> vfs_ok fs" "safe_result (Inl e) \<longleftrightarrow> e \<noteq> Panicked"
  by (auto simp: safe_def safe_result_def)

lemma safe_and_then:
  "x \<noteq> Inl Panicked \<Longrightarrow> (\<And>y. x = Inr y \<Longrightarrow> safe_result (f y)) \<Longrightarrow> safe_result (and_then x f)"
  by (cases x) auto

lemma safe_commit: "vfs_ok fs \<Longrightarrow> safe_result r \<Longrightarrow> safe (commit r fs)"
  by (cases r) (auto simp: commit_def)

lemma safe_case:
  "vfs_ok fs \<Longrightarrow> x \<noteq> Inl Panicked \<Longrightarrow> (\<And>y. x = Inr y \<Longrightarrow> safe (f y)) \<Longrightarrow>
     safe (case x of Inl e \<Rightarrow> (Inl e, fs) | Inr y \<Rightarrow> f y)"
  by (cases x) auto

lemma live_inode: "vfs_ok fs \<Longrightarrow> bt_get (fs_path_index fs) p = Some ino \<Longrightarrow> ok_or (bt_get (fs_inodes fs) ino) Panicked \<noteq> Inl Panicked"
  using indexedD [OF vfs_ok_indexed] by (auto simp: ok_or_def split: option.splits)

lemma not_a_file_not_panicked [simp]: "not_a_file op path kind \<noteq> Panicked"
  by (simp add: not_a_file_def)

text \<open>Operations on the data or the metadata of one inode.\<close>

lemma safe_data_operation:
  assumes ok: "vfs_ok fs"
    and regular: "\<And>ino i data. x = Inr (ino, i) \<Longrightarrow> in_kind i = File data \<Longrightarrow>
      bt_get (fs_inodes fs) ino = Some i \<Longrightarrow> safe (f ino i data)"
    and x: "x \<noteq> Inl Panicked" "\<And>ino i. x = Inr (ino, i) \<Longrightarrow> bt_get (fs_inodes fs) ino = Some i"
    and e: "\<And>kind. e kind \<noteq> Panicked"
  shows "safe (case x of Inl e \<Rightarrow> (Inl e, fs)
    | Inr (ino, i) \<Rightarrow> (case in_kind i of File data \<Rightarrow> f ino i data | kind \<Rightarrow> (Inl (e kind), fs)))"
proof (cases x)
  case (Inl e')
  with ok x(1) show ?thesis by simp
next
  case (Inr y)
  then obtain ino i where y: "x = Inr (ino, i)" by (cases y) auto
  with regular x(2) ok e show ?thesis by (cases "in_kind i") simp_all
qed

lemma set_data_sel [simp]:
  "in_kind (set_data data now i) = File data" "md_ino (in_metadata (set_data data now i)) = md_ino (in_metadata i)"
  "md_nlink (in_metadata (set_data data now i)) = md_nlink (in_metadata i)"
  by (simp_all add: set_data_def)

lemma set_time_sel [simp]:
  "in_kind (set_atime now i) = in_kind i" "md_ino (in_metadata (set_atime now i)) = md_ino (in_metadata i)"
  "md_nlink (in_metadata (set_atime now i)) = md_nlink (in_metadata i)"
  "in_kind (set_ctime now i) = in_kind i" "md_ino (in_metadata (set_ctime now i)) = md_ino (in_metadata i)"
  "md_nlink (in_metadata (set_ctime now i)) = md_nlink (in_metadata i)"
  by (simp_all add: set_atime_def set_ctime_def)

lemma safe_read_file: "vfs_ok fs \<Longrightarrow> safe (read_file path now fs)"
  unfolding read_file_def
  by (rule safe_data_operation)
     (auto intro: vfs_ok_put dest: inode_mut_result(1) simp: access_not_panicked vfs_ok_indexed)

lemma safe_truncate_file: "vfs_ok fs \<Longrightarrow> safe (truncate_file path len now fs)"
  unfolding truncate_file_def
  by (rule safe_data_operation)
     (auto intro: vfs_ok_put dest: inode_mut_result(1) simp: access_not_panicked vfs_ok_indexed)

lemma safe_pread: "vfs_ok fs \<Longrightarrow> safe (pread path offset len now fs)"
  unfolding pread_def
  by (rule safe_data_operation)
     (auto intro: vfs_ok_put dest: inode_mut_result(1) simp: access_not_panicked vfs_ok_indexed Let_def)

lemma safe_append_file: "vfs_ok fs \<Longrightarrow> safe (append_file path data now fs)"
  unfolding append_file_def
  by (rule safe_data_operation)
     (auto intro: vfs_ok_put dest: inode_mut_result(1) simp: access_not_panicked vfs_ok_indexed err_simps)

lemma safe_update_metadata:
  assumes "vfs_ok fs" "\<And>m. md_ino (f m) = md_ino m" "\<And>m. md_nlink (f m) = md_nlink m"
  shows "safe (update_metadata path op follow f fs)"
  unfolding update_metadata_def
proof (rule safe_case [OF assms(1)])
  fix y
  assume y: "inode_mut_for_existing_path fs path op follow = Inr y"
  obtain ino i where p: "y = (ino, i)" by (cases y)
  with y have "bt_get (fs_inodes fs) ino = Some i" by (auto dest: inode_mut_result(1))
  from vfs_ok_put [OF assms(1) this, of "map_metadata f i"] assms(2,3) p
  show "safe (case y of (ino, i) \<Rightarrow> (Inr (), put_inode ino (map_metadata f i) fs))" by simp
qed (simp add: access_not_panicked vfs_ok_indexed assms(1))

lemma safe_chmod: "vfs_ok fs \<Longrightarrow> safe (chmod path mode now fs)"
  unfolding chmod_def by (rule safe_update_metadata) (simp_all add: Let_def)

lemma safe_chown: "vfs_ok fs \<Longrightarrow> safe (chown path uid gid now fs)"
  unfolding chown_def by (rule safe_update_metadata) simp_all

lemma safe_utimes: "vfs_ok fs \<Longrightarrow> safe (utimes path atime_ms mtime_ms now fs)"
  unfolding utimes_def by (rule safe_update_metadata) simp_all

lemma apply_times_same:
  "(\<And>f m m'. f \<in> set fl \<Longrightarrow> f m = Inr m' \<Longrightarrow> md_ino m' = md_ino m \<and> md_nlink m' = md_nlink m) \<Longrightarrow>
   (\<And>f m. f \<in> set fl \<Longrightarrow> f m \<noteq> Inl Panicked) \<Longrightarrow>
   md_ino (snd (apply_times fl m)) = md_ino m \<and> md_nlink (snd (apply_times fl m)) = md_nlink m \<and>
   fst (apply_times fl m) \<noteq> Inl Panicked"
proof (induction fl arbitrary: m)
  case (Cons f fl)
  show ?case
  proof (cases "f m")
    case (Inl e)
    with Cons.prems(2) [of f m] show ?thesis by simp
  next
    case (Inr m')
    have "md_ino (snd (apply_times fl m')) = md_ino m' \<and> md_nlink (snd (apply_times fl m')) = md_nlink m' \<and>
        fst (apply_times fl m') \<noteq> Inl Panicked"
      by (rule Cons.IH) (use Cons.prems in \<open>meson list.set_intros(2)\<close>)+
    with Inr Cons.prems(1) [of f m m'] show ?thesis by simp
  qed
qed simp

lemma to_truncated_not_panicked [simp]: "to_truncated_millis t \<noteq> Inl Panicked"
  by (simp add: to_truncated_millis_def)

lemma safe_utimes_spec:
  assumes ok: "vfs_ok fs"
  shows "safe (utimes_spec path atime mtime follow now fs)"
  unfolding utimes_spec_def
proof (rule safe_case [OF ok], goal_cases)
  case 1
  have "resolve_utime_spec s n e \<noteq> Inl Panicked" for s n e by (cases s) simp_all
  then show ?case
    using access_not_panicked [OF vfs_ok_indexed [OF ok]]
    by (auto simp: err_simps stat_def lstat_def split: if_splits)
next
  case (2 y)
  obtain ino i a m where y: "y = (ino, i, a, m)" by (cases y) auto
  with 2 have i: "bt_get (fs_inodes fs) ino = Some i" by (auto simp: err_simps dest: inode_mut_result(1))
  let ?r = "apply_times [set_atime_spec a, set_mtime_spec m, set_ctime_spec now] (in_metadata i)"
  have "md_ino (snd ?r) = md_ino (in_metadata i) \<and> md_nlink (snd ?r) = md_nlink (in_metadata i) \<and> fst ?r \<noteq> Inl Panicked"
    by (rule apply_times_same) (auto simp: set_atime_spec_def set_mtime_spec_def set_ctime_spec_def err_simps)
  then show ?case
    using vfs_ok_put [OF ok i, of "i\<lparr>in_metadata := snd ?r\<rparr>"]
    unfolding y by (simp add: Let_def safe_def split_beta del: apply_times.simps)
qed

text \<open>Removal.\<close>

lemma root_lookup: "vfs_ok fs \<Longrightarrow> directory_at fs [] \<and> (\<exists>ino. lookup_path fs [] = Some ino)"
  using vfs_ok_root directory_at_lookup by blast

lemma childless_unless:
  assumes "vfs_ok fs" "proper_list cs" "cs \<noteq> []" "lookup_path fs cs = Some ino" "bt_get (fs_inodes fs) ino = Some i"
    and "in_kind i = Directory \<longrightarrow> \<not> has_children fs (abs_path cs)"
  shows "childless fs cs"
  using childless_file [OF assms(1), of cs i] has_children_iff [OF assms(1-3)] assms(4-6)
  by (cases "in_kind i = Directory") (simp_all add: inode_at_def)

lemma drop_path_result:
  assumes "vfs_ok fs" "proper_list cs" "cs \<noteq> []" "lookup_path fs cs = Some ino" "bt_get (fs_inodes fs) ino = Some i"
    and "in_kind i = Directory \<longrightarrow> \<not> has_children fs (abs_path cs)"
  obtains fs' where "drop_path (abs_path cs) ino i now fs = Inr fs'" "vfs_ok fs'" "fs_next_ino fs' = fs_next_ino fs"
    "\<forall>k. bt_get (fs_path_index fs') k = (if k = abs_path cs then None else bt_get (fs_path_index fs) k)"
    "\<forall>k x. k \<noteq> abs_path cs \<longrightarrow> inode_at fs k = Some x \<longrightarrow> (\<exists>x'. inode_at fs' k = Some x' \<and> in_kind x' = in_kind x)"
  unfolding drop_path_def
  by (rule vfs_ok_drop [OF assms(1-5) childless_unless [OF assms], of "set_ctime now i"]) (simp_all add: that)

lemma safe_drop_path:
  assumes "vfs_ok fs" "proper_list cs" "cs \<noteq> []" "lookup_path fs cs = Some ino" "bt_get (fs_inodes fs) ino = Some i"
    and "in_kind i = Directory \<longrightarrow> \<not> has_children fs (abs_path cs)"
  shows "safe_result (drop_path (abs_path cs) ino i now fs)"
  by (rule drop_path_result [OF assms, of now]) simp

lemma ok_or_live:
  "vfs_ok fs \<Longrightarrow> lookup_path fs cs = Some ino \<Longrightarrow> ok_or (bt_get (fs_inodes fs) ino) Panicked = Inr i \<Longrightarrow>
     inode_at fs (abs_path cs) = Some i \<and> bt_get (fs_inodes fs) ino = Some i"
  by (auto simp: err_simps inode_at_def)

lemma safe_remove_file:
  assumes ok: "vfs_ok fs"
  shows "safe (remove_file path now fs)"
  unfolding remove_file_def remove_exact_path_def
proof (rule safe_commit [OF ok], rule safe_and_then, goal_cases)
  case (2 q)
  from resolve_exact_result [OF 2] obtain cs where cs: "q = abs_path cs" "good cs" by blast
  show ?case
  proof (rule safe_and_then, goal_cases)
    case (2 ino)
    then have ino: "lookup_path fs cs = Some ino" by (simp add: cs err_simps)
    show ?case
    proof (rule safe_and_then, goal_cases)
      case (2 i)
      with ok_or_live [OF ok ino] have i: "bt_get (fs_inodes fs) ino = Some i" "inode_at fs (abs_path cs) = Some i" by auto
      show ?case
      proof (cases "in_kind i = Directory")
        case False
        with root_lookup [OF ok] i(2) have "cs \<noteq> []" by (auto simp: directory_at_def)
        with False safe_drop_path [OF ok good_proper [OF cs(2)] _ ino i(1)] show ?thesis by (simp add: cs)
      qed simp
    qed (rule live_inode [OF ok ino])
  qed (simp add: err_simps)
qed (simp add: access_not_panicked vfs_ok_indexed ok)

lemma safe_remove_dir:
  assumes ok: "vfs_ok fs"
  shows "safe (remove_dir path fs)"
  unfolding remove_dir_def
proof (rule safe_commit [OF ok], rule safe_and_then, goal_cases)
  case (2 q)
  from resolve_exact_result [OF 2] obtain cs where cs: "q = abs_path cs" "good cs" by blast
  show ?case
  proof (cases "cs = []")
    case False
    have "safe_result (and_then (ok_or (lookup_path fs cs) (Not_found ''rmdir'' path)) (\<lambda>ino.
        and_then (ok_or (bt_get (fs_inodes fs) ino) Panicked) (\<lambda>i.
        if in_kind i \<noteq> Directory then Inl (Not_directory ''rmdir'' path)
        else if has_children fs (abs_path cs) then Inl (Not_empty path)
        else decrement_link_count ino (unbind_path (abs_path cs) fs))))"
    proof (rule safe_and_then, goal_cases)
      case (2 ino)
      then have ino: "lookup_path fs cs = Some ino" by (simp add: err_simps)
      show ?case
      proof (rule safe_and_then, goal_cases)
        case (2 i)
        with ok_or_live [OF ok ino] have i: "bt_get (fs_inodes fs) ino = Some i" by auto
        have same: "put_inode ino i fs = fs" using i by (simp add: put_inode_def bt_insert_idem)
        show ?case
        proof (cases "in_kind i = Directory \<and> \<not> has_children fs (abs_path cs)")
          case True
          with childless_unless [OF ok good_proper [OF cs(2)] False ino i] have cl: "childless fs cs" by simp
          obtain fs' where "decrement_link_count ino (unbind_path (abs_path cs) (put_inode ino i fs)) = Inr fs'" "vfs_ok fs'"
            by (rule vfs_ok_drop [OF ok good_proper [OF cs(2)] False ino i cl refl refl refl])
          with True same show ?thesis by simp
        qed auto
      qed (rule live_inode [OF ok ino])
    qed (simp add: err_simps)
    with False show ?thesis unfolding cs(1) using cs(2) by simp
  qed (simp add: cs)
qed (simp add: access_not_panicked vfs_ok_indexed ok)

text \<open>Creation.\<close>

lemma create_in_parent:
  assumes ok: "vfs_ok fs" and cs: "good cs" "cs \<noteq> []" "lookup_path fs cs = None" "directory_at fs (butlast cs)"
    and room: "fs_next_ino fs \<noteq> - 1"
  shows "vfs_ok (create_node kind mode now (abs_path cs) fs)"
proof -
  have "cs = butlast cs @ [last cs]" using cs(2) by simp
  then show ?thesis
    using vfs_ok_create [OF ok, of "butlast cs" "last cs"] cs room good_proper by (metis append_butlast_last_id)
qed

lemma safe_create_dir:
  assumes ok: "vfs_ok fs" and room: "fs_next_ino fs \<noteq> - 1"
  shows "safe (create_dir path now fs)"
  unfolding create_dir_def
proof (rule safe_commit [OF ok], rule safe_and_then, goal_cases)
  case (2 q)
  from resolve_exact_result [OF 2] obtain cs where cs: "q = abs_path cs" "good cs" "plain fs False cs" by blast
  show ?case
  proof (cases "cs = []")
    case False
    have "safe_result (and_then (assert_directory_path fs (dirname (abs_path cs)) ''mkdir'') (\<lambda>_.
            case lookup_path fs cs of
              Some ino \<Rightarrow>
                and_then (ok_or (bt_get (fs_inodes fs) ino) Panicked) (\<lambda>i.
                  if in_kind i = Directory then Inr fs else Inl (Already_exists ''mkdir'' path))
            | None \<Rightarrow>
                let (ino, fs1) = allocate_inode Directory (S_IFDIR OR 0x1ED) now fs
                in Inr (bind_path (abs_path cs) ino fs1)))"
    proof (rule safe_and_then, goal_cases)
      case (2 u)
      then have dir: "directory_at fs (butlast cs)" using assert_parent [OF vfs_ok_indexed [OF ok] cs(2,3)] by simp
      show ?case
      proof (cases "lookup_path fs cs")
        case None
        with create_in_parent [OF ok cs(2) False None dir room] show ?thesis
          by (simp add: create_node_def allocate_inode_sel)
      next
        case (Some ino)
        then show ?thesis using live_inode [OF ok Some] ok by (auto intro!: safe_and_then)
      qed
    qed (simp add: access_not_panicked vfs_ok_indexed ok)
    with False show ?thesis unfolding cs(1) using cs(2) by simp
  qed (simp add: cs ok)
qed (simp add: access_not_panicked vfs_ok_indexed ok)

text \<open>
  A recursive \<open>mkdir\<close> follows symbolic links before the last component; when such a link leads to a
  missing path whose parent is missing too, the new directory lies outside the tree.  The guard excludes
  this case.
\<close>

fun mkdir_guard :: "string \<Rightarrow> string list \<Rightarrow> u64 \<Rightarrow> memory_fs \<Rightarrow> bool" where
  "mkdir_guard current [] now fs = True"
| "mkdir_guard current (part # parts) now fs =
     (case mkdir_part (child_path current part) (parts = []) now fs of
        Inl e \<Rightarrow> True
      | Inr (resolved, fs1) \<Rightarrow>
          bt_contains (fs_path_index fs) (dirname resolved) \<and> mkdir_guard resolved parts now fs1)"

lemma plain_parent_directory:
  assumes "vfs_ok fs" "plain fs follow cs" "lookup_path fs (butlast cs) = Some ino"
  shows "directory_at fs (butlast cs)"
proof (cases "butlast cs = []")
  case True
  then show ?thesis using vfs_ok_root [OF assms(1)] by simp
next
  case False
  then have cs: "cs = butlast cs @ [last cs]" by (metis append_butlast_last_id butlast.simps(1))
  obtain i where i: "inode_at fs (abs_path (butlast cs)) = Some i"
    using assms(3) indexedD [OF vfs_ok_indexed [OF assms(1)]] by (auto simp: inode_at_def)
  have "dir_chain fs (butlast cs)" using plain_dir_chain [OF assms(1), of follow "butlast cs" "last cs"] assms(2) cs by simp
  then have "in_kind i = Directory" using i unfolding dir_chain_def by (metis append_Nil2)
  with i show ?thesis by (simp add: directory_at_def)
qed

lemma mkdir_part_safe:
  assumes ok: "vfs_ok fs" and room: "fs_next_ino fs \<noteq> - 1"
    and run: "mkdir_part raw is_last now fs = Inr (resolved, fs1)" and par: "bt_contains (fs_path_index fs) (dirname resolved)"
  shows "vfs_ok fs1 \<and> (fs_next_ino fs1 = fs_next_ino fs \<or> fs_next_ino fs1 = fs_next_ino fs + 1)"
proof -
  from run obtain q where q: "resolve_path_with_options fs raw (\<not> is_last) 0 = Inr q"
    by (auto simp: mkdir_part_def err_simps)
  from resolve_result [OF q] obtain cs where cs: "q = abs_path cs" "good cs" "plain fs (\<not> is_last) cs" by blast
  show ?thesis
  proof (cases "lookup_path fs cs")
    case None
    have "cs \<noteq> []" using root_lookup [OF ok] None by auto
    moreover have eq: "resolved = abs_path cs" "fs1 = create_node Directory (S_IFDIR OR 0x1ED) now (abs_path cs) fs"
      using run q None by (auto simp: mkdir_part_def cs create_node_def allocate_inode_sel)
    moreover have "directory_at fs (butlast cs)"
      using plain_parent_directory [OF ok cs(3)] par cs(2) eq(1) by (auto simp: bt_contains_iff)
    ultimately show ?thesis using create_in_parent [OF ok cs(2) _ None _ room] by (simp add: create_node_sel)
  next
    case (Some ino)
    with run q ok show ?thesis by (auto simp: mkdir_part_def cs err_simps split: if_splits)
  qed
qed

lemma mkdir_part_not_panicked: "vfs_ok fs \<Longrightarrow> mkdir_part raw is_last now fs \<noteq> Inl Panicked"
  using resolve_not_panicked [OF vfs_ok_indexed] indexedD [OF vfs_ok_indexed]
  by (auto simp: mkdir_part_def err_simps allocate_inode_sel split: option.splits if_splits)

lemma safe_mkdir_parts:
  "vfs_ok fs \<Longrightarrow> mkdir_guard current parts now fs \<Longrightarrow> unat (fs_next_ino fs) + length parts < 2 ^ 64 \<Longrightarrow>
     safe (mkdir_parts current parts now fs)"
proof (induction parts arbitrary: current fs)
  case (Cons part parts)
  show ?case
  proof (cases "mkdir_part (child_path current part) (parts = []) now fs")
    case (Inl e)
    with mkdir_part_not_panicked [OF Cons.prems(1)] Cons.prems(1) show ?thesis by auto
  next
    case (Inr x)
    then obtain resolved fs1 where x: "mkdir_part (child_path current part) (parts = []) now fs = Inr (resolved, fs1)"
      by (cases x) auto
    have room: "fs_next_ino fs \<noteq> - 1 \<and> unat (fs_next_ino fs + 1) + length parts < 2 ^ 64"
      using room_succ Cons.prems(3) by simp
    from mkdir_part_safe [OF Cons.prems(1) _ x] room Cons.prems(2) x have
      "vfs_ok fs1" "fs_next_ino fs1 = fs_next_ino fs \<or> fs_next_ino fs1 = fs_next_ino fs + 1" by auto
    moreover have "mkdir_guard resolved parts now fs1" using Cons.prems(2) x by simp
    moreover have "unat (fs_next_ino fs1) + length parts < 2 ^ 64" using calculation(2) room Cons.prems(3) by auto
    ultimately show ?thesis using Cons.IH x by simp
  qed
qed simp

lemma safe_mkdir:
  assumes "vfs_ok fs" "unat (fs_next_ino fs) + Suc (length (components path)) < 2 ^ 64"
    and "recursive \<Longrightarrow> mkdir_guard ''/'' (components path) now fs"
  shows "safe (mkdir path recursive now fs)"
proof -
  have "fs_next_ino fs \<noteq> - 1" using room_succ [OF assms(2)] by simp
  with assms safe_create_dir safe_mkdir_parts show ?thesis by (simp add: mkdir_def Let_def)
qed

text \<open>Writing: the directories on the way to the resolved path are created first.\<close>

definition room_for_path :: "memory_fs \<Rightarrow> bool" where
  "room_for_path fs \<longleftrightarrow> unat (fs_next_ino fs) + MAX_PATH_LENGTH + 2 < 2 ^ 64"

lemma length_components: "proper_list cs \<Longrightarrow> length cs \<le> length (abs_path cs)"
proof (induction cs)
  case (Cons c cs)
  then show ?case by (cases "cs = []") (auto simp: abs_path_def)
qed simp

lemma mkdir_parent:
  assumes ok: "vfs_ok fs" and room: "room_for_path fs" and cs: "good cs" "plain fs follow cs"
  obtains fs1 where "mkdir (dirname (abs_path cs)) True now fs = (Inr (), fs1)" "vfs_ok fs1" "extends fs fs1"
    "directory_at fs1 (butlast cs)" "dir_chain fs1 (butlast cs)" "lookup_path fs1 cs = lookup_path fs cs"
    "fs_next_ino fs1 \<noteq> - 1"
    "\<forall>ds. proper_list ds \<longrightarrow> \<not> prefix ds (butlast cs) \<longrightarrow> lookup_path fs1 ds = lookup_path fs ds"
proof (cases "butlast cs = []")
  case True
  have "fs_next_ino fs \<noteq> - 1"
    using room room_succ [of "fs_next_ino fs" "MAX_PATH_LENGTH + 1"] by (simp add: room_for_path_def)
  moreover have "dir_chain fs []" using vfs_ok_root [OF ok] by (auto simp: dir_chain_def directory_at_def)
  ultimately show thesis
    using True ok cs(1) vfs_ok_root [OF ok] by (intro that [of fs]) (simp_all add: mkdir_def)
next
  case False
  let ?ds = "butlast cs"
  have eq: "cs = ?ds @ [last cs]" using False by (metis append_butlast_last_id butlast.simps(1))
  have g: "good ([] @ ?ds)" using good_butlast [OF cs(1)] by simp
  have chain: "dir_chain fs ([] @ ?ds)" using plain_dir_chain [OF ok, of follow ?ds "last cs"] cs(2) eq by simp
  have len: "length ?ds \<le> MAX_PATH_LENGTH" using length_components [of ?ds] g by (simp add: good_def)
  have r: "unat (fs_next_ino fs) + length ?ds < 2 ^ 64" using room len by (simp add: room_for_path_def)
  obtain fs1 where fs1: "mkdir_parts (abs_path []) ?ds now fs = (Inr (), fs1)" "vfs_ok fs1" "extends fs fs1"
    "directory_at fs1 ([] @ ?ds)" "dir_chain fs1 ([] @ ?ds)"
    "\<forall>xs. proper_list xs \<longrightarrow> \<not> prefix xs ([] @ ?ds) \<longrightarrow> lookup_path fs1 xs = lookup_path fs xs"
    "unat (fs_next_ino fs1) \<le> unat (fs_next_ino fs) + length ?ds"
    using mkdir_parts_plain [OF ok g chain _ r] vfs_ok_root [OF ok] by blast
  have "\<not> prefix cs ?ds" using eq prefix_length_le [of cs ?ds] by (metis False append_butlast_last_id butlast.simps(1) length_append_singleton not_less_eq_eq order_refl)
  then have "lookup_path fs1 cs = lookup_path fs cs" using fs1(6) cs(1) by simp
  moreover have "fs_next_ino fs1 \<noteq> - 1"
    using room_succ [of "fs_next_ino fs1" 0] fs1(7) len room by (simp add: room_for_path_def)
  moreover have "mkdir (dirname (abs_path cs)) True now fs = (Inr (), fs1)"
    using fs1(1) False cs(1) g by (simp add: mkdir_def)
  ultimately show thesis using fs1 by (intro that) simp_all
qed

lemma chain_plain:
  assumes "dir_chain fs (butlast cs)" "\<And>i. inode_at fs (abs_path cs) = Some i \<Longrightarrow> follow \<Longrightarrow> \<not> is_symlink (in_kind i)"
  shows "plain fs follow cs"
proof (cases cs rule: rev_cases)
  case (snoc ds c)
  have "in_kind i = Directory" if "ds = us @ d # vs" "inode_at fs (abs_path (us @ [d])) = Some i" for us d vs i
  proof -
    from that(1) have "butlast cs = (us @ [d]) @ vs" by (simp add: snoc butlast_append)
    with assms(1) that(2) show ?thesis unfolding dir_chain_def by blast
  qed
  with assms(2) show ?thesis unfolding snoc plain_from_snoc by (auto simp: snoc)
qed simp

text \<open>The state in which a write has created the missing directories, and the write itself.\<close>

lemma write_file_result:
  assumes ok: "vfs_ok fs" and room: "room_for_path fs" and q: "resolve_path fs path 0 = Inr (abs_path cs)"
    and cs: "good cs" "plain fs True cs"
  obtains fs1 where "vfs_ok fs1" "extends fs fs1" "directory_at fs1 (butlast cs)" "dir_chain fs1 (butlast cs)"
    "fs_next_ino fs1 \<noteq> - 1" "lookup_path fs1 cs = lookup_path fs cs"
    "\<forall>ds. proper_list ds \<longrightarrow> \<not> prefix ds (butlast cs) \<longrightarrow> lookup_path fs1 ds = lookup_path fs ds"
    "lookup_path fs cs = None \<longrightarrow>
       write_file path data now fs = (Inr (), create_node (File data) (S_IFREG OR 0x1A4) now (abs_path cs) fs1) \<and>
       create_file_exclusive path data now fs = (Inr (), create_node (File data) (S_IFREG OR 0x1A4) now (abs_path cs) fs1)"
    "\<forall>ino i. lookup_path fs cs = Some ino \<longrightarrow> bt_get (fs_inodes fs1) ino = Some i \<longrightarrow>
       write_file path data now fs =
         (case in_kind i of File _ \<Rightarrow> (Inr (), put_inode ino (set_data data now i) fs1)
          | kind \<Rightarrow> (Inl (not_a_file ''open'' path kind), fs1)) \<and>
       create_file_exclusive path data now fs = (Inl (Already_exists ''open'' path), fs1)"
proof -
  obtain fs1 where fs1: "mkdir (dirname (abs_path cs)) True now fs = (Inr (), fs1)" "vfs_ok fs1" "extends fs fs1"
    "directory_at fs1 (butlast cs)" "dir_chain fs1 (butlast cs)" "lookup_path fs1 cs = lookup_path fs cs"
    "fs_next_ino fs1 \<noteq> - 1"
    "\<forall>ds. proper_list ds \<longrightarrow> \<not> prefix ds (butlast cs) \<longrightarrow> lookup_path fs1 ds = lookup_path fs ds"
    by (rule mkdir_parent [OF ok room cs, of now])
  have pl: "plain fs1 False cs" using chain_plain [OF fs1(5)] by simp
  note id = inode_id_plain [OF vfs_ok_indexed [OF fs1(2)] cs(1) pl, of "''open''"]
  note run = write_file_def create_file_exclusive_def bt_contains_iff
  show thesis
  proof (rule that [of fs1])
    show "lookup_path fs cs = None \<longrightarrow>
       write_file path data now fs = (Inr (), create_node (File data) (S_IFREG OR 0x1A4) now (abs_path cs) fs1) \<and>
       create_file_exclusive path data now fs = (Inr (), create_node (File data) (S_IFREG OR 0x1A4) now (abs_path cs) fs1)"
      using q fs1(1,6) by (simp add: run create_node_def allocate_inode_sel)
    show "\<forall>ino i. lookup_path fs cs = Some ino \<longrightarrow> bt_get (fs_inodes fs1) ino = Some i \<longrightarrow>
       write_file path data now fs =
         (case in_kind i of File _ \<Rightarrow> (Inr (), put_inode ino (set_data data now i) fs1)
          | kind \<Rightarrow> (Inl (not_a_file ''open'' path kind), fs1)) \<and>
       create_file_exclusive path data now fs = (Inl (Already_exists ''open'' path), fs1)"
      using q fs1(1,6) id by (simp add: run inode_mut_for_existing_path_def)
  qed (fact fs1)+
qed

lemma safe_write:
  assumes ok: "vfs_ok fs" and room: "room_for_path fs"
  shows "safe (write_file path data now fs) \<and> safe (create_file_exclusive path data now fs)"
proof (cases "resolve_path fs path 0")
  case (Inl e)
  with access_not_panicked(2) [OF vfs_ok_indexed [OF ok], of path 0] ok show ?thesis
    by (auto simp: write_file_def create_file_exclusive_def)
next
  case (Inr q)
  from resolve_path_result [OF Inr] obtain cs where cs: "q = abs_path cs" "good cs" "plain fs True cs" by blast
  show ?thesis
  proof (rule write_file_result [OF ok room Inr [unfolded cs(1)] cs(2,3), of data now], goal_cases)
    case (1 fs1)
    show ?case
    proof (cases "lookup_path fs cs")
      case None
      then have "cs \<noteq> []" using root_lookup [OF ok] by auto
      from create_in_parent [OF 1(1) cs(2) this _ 1(3,5)] None 1(6,8) show ?thesis by simp
    next
      case (Some ino)
      then obtain i where i: "bt_get (fs_inodes fs1) ino = Some i"
        using 1(6) indexedD [OF vfs_ok_indexed [OF 1(1)]] by fastforce
      with Some 1(1,9) vfs_ok_put [OF 1(1) i, of "set_data data now i"] show ?thesis
        by (cases "in_kind i") simp_all
    qed
  qed
qed

lemma splice_some: "start + length content < 2 ^ 64 \<Longrightarrow> \<exists>data. splice existing start content = Some data"
  by (simp add: splice_def Let_def)

lemma safe_pwrite:
  assumes ok: "vfs_ok fs" and room: "room_for_path fs" and len: "unat offset + length content < 2 ^ 64"
  shows "safe (pwrite path content offset now fs)"
proof -
  obtain r fs1 where r: "read_file path now fs = (r, fs1)" by (cases "read_file path now fs")
  have "vfs_ok fs1" "r \<noteq> Inl Panicked" using safe_read_file [OF ok, of path now] r by (simp_all add: safe_def)
  moreover have "fs_next_ino fs1 = fs_next_ino fs"
    using r by (auto simp: read_file_def split: sum.splits inode_kind.splits)
  moreover have "room_for_path fs1" using calculation(3) room by (simp add: room_for_path_def)
  ultimately show ?thesis
  proof (cases r)
    case (Inr existing)
    obtain d where "splice existing (unat offset) content = Some d" using splice_some [OF len] by blast
    with Inr r safe_write [OF \<open>vfs_ok fs1\<close> \<open>room_for_path fs1\<close>, of path d now] show ?thesis
      by (simp add: pwrite_def default_pwrite_def)
  qed (simp add: r pwrite_def default_pwrite_def)
qed

text \<open>Links.\<close>

lemma safe_symlink_with_metadata:
  assumes ok: "vfs_ok fs" and room: "fs_next_ino fs \<noteq> - 1"
  shows "safe (symlink_with_metadata target link_path mode uid gid now fs)"
  unfolding symlink_with_metadata_def
proof (rule safe_commit [OF ok], rule safe_and_then, goal_cases)
  case (2 q)
  from resolve_exact_result [OF 2] obtain cs where cs: "q = abs_path cs" "good cs" "plain fs False cs" by blast
  define m where "m = (if mode AND 0xF000 = 0 then S_IFLNK OR (mode AND 0xFFF) else mode)"
  have "safe_result (and_then (assert_directory_path fs (dirname (abs_path cs)) ''symlink'') (\<lambda>_.
            let (ino, fs1) = allocate_inode (Symbolic_link target) m now fs
            in and_then (ok_or (bt_get (fs_inodes fs1) ino) Panicked) (\<lambda>i.
                 Inr (bind_path (abs_path cs) ino
                   (put_inode ino (map_metadata (\<lambda>m. m\<lparr>md_uid := uid, md_gid := gid\<rparr>) i) fs1)))))"
    if none: "lookup_path fs cs = None"
  proof (rule safe_and_then, goal_cases)
    case (2 u)
    then have dir: "directory_at fs (butlast cs)" using assert_parent [OF vfs_ok_indexed [OF ok] cs(2,3)] by simp
    have "cs \<noteq> []" using root_lookup [OF ok] none by auto
    from create_in_parent [OF ok cs(2) this none dir room]
    have ok1: "vfs_ok (create_node (Symbolic_link target) m now (abs_path cs) fs)" .
    have comm: "bind_path p n (put_inode n x f) = put_inode n x (bind_path p n f)" for p n x f
      by (simp add: bind_path_def put_inode_def)
    from vfs_ok_put [OF ok1, of "fs_next_ino fs" _ "map_metadata (\<lambda>m. m\<lparr>md_uid := uid, md_gid := gid\<rparr>)
        \<lparr>in_metadata = new_metadata (Symbolic_link target) m (fs_next_ino fs) now, in_kind = Symbolic_link target\<rparr>"]
    show ?case by (simp add: create_node_sel) (simp add: create_node_def allocate_inode_sel comm)
  qed (simp add: access_not_panicked vfs_ok_indexed ok)
  then show ?case unfolding cs(1) m_def by (simp add: bt_contains_iff)
qed (simp add: access_not_panicked vfs_ok_indexed ok)

lemma safe_link_file:
  assumes ok: "vfs_ok fs"
    and room: "\<And>n i. bt_get (fs_inodes fs) n = Some i \<Longrightarrow> md_nlink (in_metadata i) \<noteq> - 1"
  shows "safe (link_file old_path new_path now fs)"
  unfolding link_file_def
proof (rule safe_commit [OF ok], rule safe_and_then, goal_cases)
  case (2 ino)
  then obtain os where "lookup_path fs os = Some ino" using inode_id_result by blast
  note live = live_inode [OF ok this]
  show ?case
  proof (rule safe_and_then [OF live], goal_cases)
    case (1 i)
    then have i: "bt_get (fs_inodes fs) ino = Some i" by (simp add: err_simps)
    let ?i = "map_metadata (\<lambda>m. m\<lparr>md_nlink := md_nlink m + 1, md_ctime_ms := now\<rparr>) i"
    have "safe_result (and_then (resolve_exact_path fs new_path) (\<lambda>normalized.
          if bt_contains (fs_path_index fs) normalized then Inl (Already_exists ''link'' new_path)
          else and_then (assert_directory_path fs (dirname normalized) ''link'') (\<lambda>_.
              Inr (put_inode ino ?i (bind_path normalized ino fs)))))" if nd: "in_kind i \<noteq> Directory"
    proof (rule safe_and_then, goal_cases)
      case (2 q)
      from resolve_exact_result [OF 2] obtain cs where cs: "q = abs_path cs" "good cs" "plain fs False cs" by blast
      have "vfs_ok (put_inode ino ?i (bind_path (abs_path cs) ino fs))"
        if none: "lookup_path fs cs = None" and a: "assert_directory_path fs (dirname (abs_path cs)) ''link'' = Inr ()"
      proof -
        have "directory_at fs (butlast cs)" using a assert_parent [OF vfs_ok_indexed [OF ok] cs(2,3)] by simp
        moreover have "cs \<noteq> []" using root_lookup [OF ok] none by auto
        then have "cs = butlast cs @ [last cs]" by simp
        ultimately show ?thesis
          using vfs_ok_link [OF ok i nd, of "butlast cs" "last cs" ?i] cs(2) none room [OF i] by simp
      qed
      then show ?case unfolding cs(1)
        using access_not_panicked(6) [OF vfs_ok_indexed [OF ok]]
        by (auto simp: bt_contains_iff intro!: safe_and_then)
    qed (simp add: access_not_panicked vfs_ok_indexed ok)
    then show ?case by (cases "in_kind i") simp_all
  qed
qed (simp add: access_not_panicked vfs_ok_indexed ok)

text \<open>Renaming.\<close>

lemma remove_existing_result:
  assumes ok: "vfs_ok fs" and ns: "resolve_exact_path fs new_path = Inr (abs_path ns)" "good ns" "ns \<noteq> []"
  shows "remove_existing_destination new_path now fs \<noteq> Inl Panicked"
    and "remove_existing_destination new_path now fs = Inr fs1 \<Longrightarrow>
      vfs_ok fs1 \<and> fs_next_ino fs1 = fs_next_ino fs \<and> childless fs ns \<and>
      (\<forall>k. bt_get (fs_path_index fs1) k = (if k = abs_path ns then None else bt_get (fs_path_index fs) k)) \<and>
      (\<forall>k x. k \<noteq> abs_path ns \<longrightarrow> inode_at fs k = Some x \<longrightarrow> (\<exists>x'. inode_at fs1 k = Some x' \<and> in_kind x' = in_kind x))"
    (is "_ \<Longrightarrow> ?post")
proof -
  have "remove_existing_destination new_path now fs \<noteq> Inl Panicked \<and>
    (remove_existing_destination new_path now fs = Inr fs1 \<longrightarrow> ?post)"
  proof (cases "lookup_path fs ns")
    case None
    then have "childless fs ns" using vfs_ok_below [OF ok None] by (auto simp: childless_def)
    with None ns ok show ?thesis by (auto simp: remove_existing_destination_def)
  next
    case (Some ino)
    then obtain i where i: "bt_get (fs_inodes fs) ino = Some i" using indexedD [OF vfs_ok_indexed [OF ok]] by blast
    show ?thesis
    proof (cases "in_kind i = Directory \<and> has_children fs (abs_path ns)")
      case True
      with Some i ns show ?thesis by (simp add: remove_existing_destination_def)
    next
      case False
      then have nc: "in_kind i = Directory \<longrightarrow> \<not> has_children fs (abs_path ns)" by simp
      note cl = childless_unless [OF ok good_proper [OF ns(2)] ns(3) Some i nc]
      show ?thesis
        by (rule drop_path_result [OF ok good_proper [OF ns(2)] ns(3) Some i nc, of now])
           (use False Some i ns cl in \<open>auto simp: remove_existing_destination_def\<close>)
    qed
  qed
  then show "remove_existing_destination new_path now fs \<noteq> Inl Panicked"
    and "remove_existing_destination new_path now fs = Inr fs1 \<Longrightarrow> ?post" by blast+
qed

text \<open>A file or link moves by itself, a directory with what is below it; both are the same move.\<close>

definition move_entry :: "inode_kind \<Rightarrow> string \<Rightarrow> string \<Rightarrow> u64 \<Rightarrow> memory_fs \<Rightarrow> memory_fs" where
  "move_entry kind old new ino fs =
     (if kind \<noteq> Directory then bind_path new ino (unbind_path old fs) else move_subtree old new fs)"

lemma move_entry_result:
  assumes ok: "vfs_ok fs" and ready: "move_ready fs os ns"
    and i: "lookup_path fs os = Some ino" "bt_get (fs_inodes fs) ino = Some i" "in_kind i = kind"
  shows "vfs_ok (move_entry kind (abs_path os) (abs_path ns) ino fs)"
    and "proper_list cs \<Longrightarrow> lookup_path (move_entry kind (abs_path os) (abs_path ns) ino fs) cs = move_lookup fs os ns cs"
    and "fs_inodes (move_entry kind (abs_path os) (abs_path ns) ino fs) = fs_inodes fs"
    and "fs_next_ino (move_entry kind (abs_path os) (abs_path ns) ino fs) = fs_next_ino fs"
proof -
  let ?fs = "move_entry kind (abs_path os) (abs_path ns) ino fs"
  show same: "fs_inodes ?fs = fs_inodes fs" "fs_next_ino ?fs = fs_next_ino fs"
    by (simp_all add: move_entry_def move_subtree_frame)
  have p: "proper_list os" "proper_list ns" using ready by (simp_all add: move_ready_def)
  have below: "lookup_path fs (os @ d # ds) = None" if "kind \<noteq> Directory" "proper_list (os @ d # ds)" for d ds
  proof -
    have "childless fs os" using childless_file [OF ok, of os i] i that(1) by (simp add: inode_at_def)
    then have "lookup_path fs (os @ [d]) = None" using that(2) by (simp add: childless_def)
    from vfs_ok_below [OF ok this, of ds] that(2) show ?thesis by simp
  qed
  have at_ns: "lookup_path fs (ns @ ds) = None" if "proper_list (ns @ ds)" for ds
    using vfs_ok_below [OF ok _ that] ready by (simp add: move_ready_def)
  show look: "lookup_path ?fs cs = move_lookup fs os ns cs" if cs: "proper_list cs" for cs
  proof (cases "kind = Directory")
    case True
    with move_subtree_lookup(1) [OF ok ready cs] show ?thesis by (simp add: move_entry_def)
  next
    case False
    have n: "\<not> prefix os ns" "\<not> prefix ns os" using ready by (simp_all add: move_ready_def)
    have b: "proper_list zs \<Longrightarrow> lookup_path fs (os @ zs) = (if zs = [] then Some ino else None)" for zs
      using below [OF False] p(1) i(1) by (cases zs) simp_all
    have "lookup_path ?fs cs = (if cs = ns then Some ino else if cs = os then None else lookup_path fs cs)"
      using False cs p by (simp add: move_entry_def abs_path_inject)
    with cs n b at_ns p i(1) show ?thesis by (auto simp: move_lookup_def prefix_def split: if_splits)
  qed
  have "\<exists>cs. proper_list cs \<and> k = abs_path cs" if "bt_get (fs_path_index ?fs) k = Some m" for k m
    using that move_subtree_lookup(2) [OF ok ready, of k m] vfs_ok_key [OF ok, of k m] p(2)
    by (auto simp: move_entry_def split: if_splits)
  then show "vfs_ok ?fs" using vfs_ok_moved [OF ok ready look] same by blast
qed

text \<open>After the checks, \<open>rename\<close> is the move.\<close>

lemma rename_result:
  assumes ok: "vfs_ok fs" and os: "resolve_exact_path fs old_path = Inr (abs_path os)" "good os"
    and ns: "resolve_exact_path fs new_path = Inr (abs_path ns)" "good ns" "plain fs False ns" "ns \<noteq> []"
    and neq: "os \<noteq> [] \<and> os \<noteq> ns" "\<not> prefix os ns"
    and dir: "directory_at fs (butlast ns)" and look: "lookup_path fs os = Some ino" and i: "bt_get (fs_inodes fs) ino = Some i"
    and rem: "remove_existing_destination new_path now fs = Inr fs1"
  shows "rename old_path new_path now fs =
      (Inr (), put_inode ino (set_ctime now (the (bt_get (fs_inodes fs1) ino))) (move_entry (in_kind i) (abs_path os) (abs_path ns) ino fs1))"
    and "vfs_ok fs1" "move_ready fs1 os ns" "lookup_path fs1 os = Some ino"
    and "\<exists>i1. bt_get (fs_inodes fs1) ino = Some i1 \<and> in_kind i1 = in_kind i"
    and "proper_list cs \<Longrightarrow> move_lookup fs1 os ns cs = move_lookup fs os ns cs"
proof -
  from remove_existing_result(2) [OF ok ns(1,2,4) rem]
  have fs1: "vfs_ok fs1" "childless fs ns"
    "\<And>k. bt_get (fs_path_index fs1) k = (if k = abs_path ns then None else bt_get (fs_path_index fs) k)"
    "\<And>k x. k \<noteq> abs_path ns \<Longrightarrow> inode_at fs k = Some x \<Longrightarrow> \<exists>x'. inode_at fs1 k = Some x' \<and> in_kind x' = in_kind x"
    by auto
  have p: "proper_list os" "proper_list ns" using os(2) ns(2) by simp_all
  have nsos: "\<not> prefix ns os"
  proof
    assume "prefix ns os"
    then obtain es where es: "os = ns @ es" by (auto simp: prefix_def)
    with neq obtain d ds where "es = d # ds" by (cases es) auto
    with es have d: "os = (ns @ [d]) @ ds" by simp
    then have "lookup_path fs (ns @ [d]) \<noteq> None" using vfs_ok_below [OF ok, of "ns @ [d]" ds] p(1) look by auto
    with fs1(2) p(1) d show False by (simp add: childless_def)
  qed
  have bl: "abs_path (butlast ns) \<noteq> abs_path ns"
    using ns(4) p(2) good_proper [OF good_butlast [OF ns(2)]] by (simp add: abs_path_inject) (metis append_butlast_last_id not_Cons_self2 self_append_conv)
  have "directory_at fs1 (butlast ns)" using dir fs1(4) [OF bl] by (auto simp: directory_at_def)
  with p ns(4) neq nsos fs1(3) [of "abs_path ns"] show ready: "move_ready fs1 os ns" by (simp add: move_ready_def)
  have osns: "abs_path os \<noteq> abs_path ns" using neq p by (simp add: abs_path_inject)
  with look fs1(3) show look1: "lookup_path fs1 os = Some ino" by simp
  with fs1(4) [OF osns, of i] look i obtain i1 where i1: "bt_get (fs_inodes fs1) ino = Some i1" "in_kind i1 = in_kind i"
    by (auto simp: inode_at_def)
  then show "\<exists>i1. bt_get (fs_inodes fs1) ino = Some i1 \<and> in_kind i1 = in_kind i" by blast
  show "vfs_ok fs1" by (rule fs1)
  have sw: "\<not> starts_with (abs_path ns) (abs_path os @ ''/'')"
    using below_iff [OF p(1,2)] neq unfolding starts_with_iff_prefix by (auto simp: strict_prefix_def)
  have "bt_get (fs_inodes (move_entry (in_kind i) (abs_path os) (abs_path ns) ino fs1)) ino = Some i1"
    using move_entry_result(3) [OF fs1(1) ready look1 i1] i1(1) by simp
  then show "rename old_path new_path now fs =
      (Inr (), put_inode ino (set_ctime now (the (bt_get (fs_inodes fs1) ino))) (move_entry (in_kind i) (abs_path os) (abs_path ns) ino fs1))"
    using os ns(1) neq osns sw look i rem i1(1) dir assert_parent [OF vfs_ok_indexed [OF ok] ns(2,3), of "''rename''"] p
    by (simp add: rename_def commit_def move_entry_def Let_def)
  show "move_lookup fs1 os ns cs = move_lookup fs os ns cs" if "proper_list cs"
  proof -
    have "proper_list (os @ drop (length ns) cs)" if "prefix ns cs" using that \<open>proper_list cs\<close> p by (auto simp: prefix_def)
    moreover have "os @ drop (length ns) cs \<noteq> ns" using neq(2) by (metis prefixI)
    ultimately show ?thesis using that p by (auto simp: move_lookup_def fs1(3) abs_path_inject)
  qed
qed

lemma rename_checks:
  assumes ok: "vfs_ok fs" and root: "resolve_exact_path fs new_path \<noteq> Inr ''/''"
    and neq: "resolve_exact_path fs old_path \<noteq> resolve_exact_path fs new_path"
    and r: "fst (rename old_path new_path now fs) = Inr () \<or> fst (rename old_path new_path now fs) = Inl Panicked"
  obtains os ns ino i fs1 where
    "resolve_exact_path fs old_path = Inr (abs_path os)" "good os"
    "resolve_exact_path fs new_path = Inr (abs_path ns)" "good ns" "plain fs False ns" "ns \<noteq> []"
    "os \<noteq> [] \<and> os \<noteq> ns" "\<not> prefix os ns" "directory_at fs (butlast ns)"
    "lookup_path fs os = Some ino" "bt_get (fs_inodes fs) ino = Some i"
    "remove_existing_destination new_path now fs = Inr fs1"
proof -
  note np = access_not_panicked [OF vfs_ok_indexed [OF ok]]
  from r neq obtain p q where pq: "resolve_exact_path fs old_path = Inr p" "resolve_exact_path fs new_path = Inr q"
    "p \<noteq> ''/''" "assert_directory_path fs (dirname q) ''rename'' = Inr ()" "\<not> starts_with q (p @ ''/'')"
    using np by (auto simp: rename_def commit_def err_simps split: sum.splits if_splits)
  from resolve_exact_result [OF pq(1)] obtain os where os: "p = abs_path os" "good os" by blast
  from resolve_exact_result [OF pq(2)] obtain ns where ns: "q = abs_path ns" "good ns" "plain fs False ns" by blast
  have n: "os \<noteq> [] \<and> os \<noteq> ns" "ns \<noteq> []" using pq(1-3) os ns root neq by auto
  have "\<not> prefix os ns"
    using pq(5) below_iff [of os ns] os ns n unfolding starts_with_iff_prefix by (auto simp: strict_prefix_def)
  moreover have "directory_at fs (butlast ns)"
    using pq(4) assert_parent [OF vfs_ok_indexed [OF ok] ns(2,3)] unfolding ns(1) by simp
  moreover have rem: "remove_existing_destination new_path now fs \<noteq> Inl Panicked"
    using remove_existing_result(1) [OF ok _ ns(2) n(2)] pq(2) ns(1) by simp
  moreover obtain ino i fs1 where "lookup_path fs os = Some ino" "bt_get (fs_inodes fs) ino = Some i"
    "remove_existing_destination new_path now fs = Inr fs1"
    using r pq neq rem unfolding os(1)
    by (auto simp: rename_def commit_def err_simps Let_def dest: indexedD [OF vfs_ok_indexed [OF ok]]
        split: sum.splits if_splits)
  ultimately show thesis using that os ns n pq by blast
qed

lemma safe_rename:
  assumes ok: "vfs_ok fs" and root: "resolve_exact_path fs new_path \<noteq> Inr ''/''"
  shows "safe (rename old_path new_path now fs)"
proof (cases "resolve_exact_path fs old_path \<noteq> resolve_exact_path fs new_path \<and>
    (fst (rename old_path new_path now fs) = Inr () \<or> fst (rename old_path new_path now fs) = Inl Panicked)")
  case False
  have "snd (rename old_path new_path now fs) = fs" if "fst (rename old_path new_path now fs) = Inl e" for e
    using that by (auto simp: rename_def commit_def split: sum.splits)
  moreover have "fst (rename old_path new_path now fs) \<noteq> Inl Panicked \<and> snd (rename old_path new_path now fs) = fs"
    if "resolve_exact_path fs old_path = resolve_exact_path fs new_path"
    using that access_not_panicked(1) [OF vfs_ok_indexed [OF ok], of new_path]
    by (auto simp: rename_def commit_def err_simps split: sum.splits if_splits)
  ultimately show ?thesis
    using False ok by (cases "fst (rename old_path new_path now fs)") (auto simp: safe_def)
next
  case True
  show ?thesis
  proof (rule rename_checks [OF ok root, of old_path now], goal_cases)
    case (3 os ns ino i fs1)
    note facts = rename_result [OF ok 3]
    from facts(5) obtain i1 where i1: "bt_get (fs_inodes fs1) ino = Some i1" "in_kind i1 = in_kind i" by blast
    note move = move_entry_result [OF facts(2-4) i1]
    have "vfs_ok (put_inode ino (set_ctime now i1) (move_entry (in_kind i) (abs_path os) (abs_path ns) ino fs1))"
      by (rule vfs_ok_put [OF move(1), of ino i1]) (simp_all add: move(3) i1(1))
    with facts(1) i1(1) show ?thesis by simp
  qed (use True in simp_all)
qed

text \<open>Listing.  In the order of the keys, those with a given prefix are neighbours.\<close>

lemma prefix_between: "pre \<le> k \<Longrightarrow> k \<le> pre @ x \<Longrightarrow> prefix pre (k :: string)"
proof (induction pre arbitrary: k)
  case (Cons c pre)
  then show ?case by (cases k) auto
qed simp

lemma prefix_le: "prefix pre (k :: string) \<Longrightarrow> pre \<le> k"
proof (induction pre arbitrary: k)
  case (Cons c pre)
  then show ?case by (cases k) auto
qed simp

lemma takeWhile_filter:
  assumes "sorted_wrt R xs" "\<And>x y. R x y \<Longrightarrow> P y \<Longrightarrow> P x"
  shows "takeWhile P xs = filter P xs"
  using assms(1)
proof (induction xs)
  case (Cons x xs)
  show ?case
  proof (cases "P x")
    case False
    with Cons.prems assms(2) have "filter P xs = []" by (auto simp: filter_empty_conv)
    with False show ?thesis by simp
  qed (use Cons in simp)
qed simp

lemma index_range_eq:
  "index_range fs pre = filter (\<lambda>(k, _). starts_with k pre) (bt_entries (fs_path_index fs))"
proof -
  let ?xs = "filter (\<lambda>(k, _). pre \<le> k) (bt_entries (fs_path_index fs))"
  have "sorted_wrt (\<lambda>x y. fst x < fst y) (bt_entries (fs_path_index fs))"
    using sorted_keys [of "fs_path_index fs"] by (simp add: bt_keys_def sorted_wrt_map)
  then have "sorted_wrt (\<lambda>x y. fst x < fst y) ?xs" by (rule sorted_wrt_filter)
  then have "sorted_wrt (\<lambda>x y. pre \<le> fst x \<and> fst x \<le> fst y) ?xs"
    by (rule sorted_wrt_mono_rel [rotated]) auto
  then have "takeWhile (\<lambda>(k, _). starts_with k pre) ?xs = filter (\<lambda>(k, _). starts_with k pre) ?xs"
  proof (rule takeWhile_filter)
    fix x y :: "string \<times> u64"
    assume "pre \<le> fst x \<and> fst x \<le> fst y" "case y of (k, _) \<Rightarrow> starts_with k pre"
    then obtain z where "pre \<le> fst x" "fst x \<le> pre @ z"
      unfolding starts_with_iff_prefix by (auto simp: prefix_def split_beta)
    from prefix_between [OF this] show "case x of (k, _) \<Rightarrow> starts_with k pre"
      unfolding starts_with_iff_prefix by (simp add: split_beta)
  qed
  also have "\<dots> = filter (\<lambda>(k, _). starts_with k pre) (bt_entries (fs_path_index fs))"
    unfolding starts_with_iff_prefix filter_filter by (rule filter_cong) (auto dest: prefix_le)
  finally show ?thesis by (simp add: index_range_def)
qed

lemma directory_prefix_child: "proper_list cs \<Longrightarrow> directory_prefix (abs_path cs) @ c = abs_path (cs @ [c])"
  by (simp add: directory_prefix_def) (simp add: abs_path_def)

lemma child_key:
  assumes "proper_list cs" "proper_list ds" "abs_path ds = directory_prefix (abs_path cs) @ c" "slash \<notin> set c" "c \<noteq> ''''"
  shows "ds = cs @ [c]"
proof -
  obtain d es where d: "ds = cs @ d # es"
  proof (cases "cs = []")
    case True
    with assms(3,5) have "ds \<noteq> []" by (auto simp: directory_prefix_def abs_path_def)
    with True that show thesis by (cases ds) auto
  next
    case False
    then have "prefix (abs_path cs @ ''/'') (abs_path ds)" using assms(1,3) by (simp add: directory_prefix_def)
    with below_iff [OF assms(1,2) False] that show thesis by (auto elim!: strict_prefixE')
  qed
  have "abs_path ds = directory_prefix (abs_path cs) @ d @ concat (map (\<lambda>c. slash # c) es)"
    using assms(1) by (simp add: d directory_prefix_def) (simp add: abs_path_def)
  with assms(3) have c: "c = d @ concat (map (\<lambda>c. slash # c) es)" by simp
  with assms(4) have "es = []" by (cases es) auto
  with c d show ?thesis by simp
qed

definition entry_of :: "memory_fs \<Rightarrow> string \<Rightarrow> u64 \<Rightarrow> dir_entry" where
  "entry_of fs name ino =
     (let kind = in_kind (the (bt_get (fs_inodes fs) ino))
      in \<lparr>de_name = name, de_is_directory = (kind = Directory), de_is_symbolic_link = is_symlink kind\<rparr>)"

lemma collect_entries_result:
  assumes "\<forall>x\<in>set xs. prefix pre (fst x) \<and> bt_get (fs_inodes fs) (snd x) \<noteq> None" "distinct (map fst xs)"
  shows "\<exists>m'. collect_entries fs pre xs m = Inr m' \<and>
    (\<forall>n. bt_get m' n = (if n \<noteq> '''' \<and> slash \<notin> set n \<and> pre @ n \<in> fst ` set xs
       then map_option (entry_of fs n) (map_of xs (pre @ n)) else bt_get m n))"
  using assms
proof (induction xs arbitrary: m)
  case (Cons x xs)
  obtain k ino where x: "x = (k, ino)" by (cases x)
  from Cons.prems x obtain name i where k: "k = pre @ name" "bt_get (fs_inodes fs) ino = Some i" by (auto simp: prefix_def)
  have fresh: "k \<notin> fst ` set xs" using Cons.prems(2) x by (auto simp: image_iff)
  define m1 where "m1 = (if name = '''' \<or> slash \<in> set name then m else bt_insert name (entry_of fs name ino) m)"
  from Cons.IH [of m1] Cons.prems obtain m' where m': "collect_entries fs pre xs m1 = Inr m'"
    "\<forall>n. bt_get m' n = (if n \<noteq> '''' \<and> slash \<notin> set n \<and> pre @ n \<in> fst ` set xs
       then map_option (entry_of fs n) (map_of xs (pre @ n)) else bt_get m1 n)" by auto
  have "collect_entries fs pre (x # xs) m = Inr m'"
    using m'(1) x k by (auto simp: m1_def entry_of_def Let_def)
  moreover have "bt_get m' n = (if n \<noteq> '''' \<and> slash \<notin> set n \<and> pre @ n \<in> fst ` set (x # xs)
       then map_option (entry_of fs n) (map_of (x # xs) (pre @ n)) else bt_get m n)" for n
    unfolding m'(2) [rule_format] using x k fresh by (auto simp: m1_def)
  ultimately show ?case by blast
qed simp

text \<open>A listing has the names of the entries of the directory, in order.\<close>

definition names_in :: "memory_fs \<Rightarrow> string list \<Rightarrow> string set" where
  "names_in fs cs = {c. proper c \<and> lookup_path fs (cs @ [c]) \<noteq> None}"

lemma map_of_index_range:
  "prefix pre k \<Longrightarrow> map_of (index_range fs pre) k = bt_get (fs_path_index fs) k"
  unfolding index_range_eq starts_with_iff_prefix
  using distinct_keys [of "fs_path_index fs"]
  by (subst map_of_filter_distinct [of _ "\<lambda>k _. prefix pre k"])
     (simp_all add: bt_get.rep_eq bt_keys_def split: option.split)

lemma collect_index_range:
  assumes ok: "vfs_ok fs" and cs: "proper_list cs"
  shows "\<exists>m. collect_entries fs (directory_prefix (abs_path cs)) (index_range fs (directory_prefix (abs_path cs))) bt_empty = Inr m \<and>
    (\<forall>n. bt_get m n = (if proper n then map_option (entry_of fs n) (lookup_path fs (cs @ [n])) else None))"
proof -
  define pre where "pre = directory_prefix (abs_path cs)"
  have entry: "prefix pre (fst x) \<and> bt_get (fs_path_index fs) (fst x) = Some (snd x)" if "x \<in> set (index_range fs pre)" for x
    using that set_entries_iff [of "fst x" "snd x"] unfolding index_range_eq starts_with_iff_prefix by auto
  have "\<forall>x\<in>set (index_range fs pre). prefix pre (fst x) \<and> bt_get (fs_inodes fs) (snd x) \<noteq> None"
    using entry indexedD [OF vfs_ok_indexed [OF ok]] by blast
  moreover have "distinct (map fst (index_range fs pre))"
    using distinct_keys [of "fs_path_index fs"] by (simp add: index_range_eq bt_keys_def distinct_map_filter)
  ultimately obtain m where m: "collect_entries fs pre (index_range fs pre) bt_empty = Inr m"
    "\<forall>n. bt_get m n = (if n \<noteq> '''' \<and> slash \<notin> set n \<and> pre @ n \<in> fst ` set (index_range fs pre)
       then map_option (entry_of fs n) (map_of (index_range fs pre) (pre @ n)) else bt_get bt_empty n)"
    using collect_entries_result by blast
  have "bt_get m n = (if proper n then map_option (entry_of fs n) (lookup_path fs (cs @ [n])) else None)" for n
  proof -
    have key: "pre @ n = abs_path (cs @ [n])" unfolding pre_def by (rule directory_prefix_child [OF cs])
    have dom: "pre @ n \<in> fst ` set (index_range fs pre) \<longleftrightarrow> lookup_path fs (cs @ [n]) \<noteq> None"
      using map_of_eq_None_iff [of "index_range fs pre" "pre @ n"] by (simp add: map_of_index_range flip: key)
    have "proper n" if n: "n \<noteq> ''''" "slash \<notin> set n" and l: "lookup_path fs (cs @ [n]) = Some ino" for ino
    proof -
      from vfs_ok_key [OF ok l] obtain ds where ds: "proper_list ds" "abs_path (cs @ [n]) = abs_path ds" by blast
      have "ds = cs @ [n]" using child_key [OF cs ds(1) _ n(2,1)] ds(2) key by (simp add: pre_def)
      with ds(1) show ?thesis by simp
    qed
    moreover have "proper n \<Longrightarrow> n \<noteq> '''' \<and> slash \<notin> set n" by (simp add: proper_def)
    ultimately show ?thesis
      unfolding m(2) [rule_format] dom by (auto simp: map_of_index_range simp flip: key)
  qed
  with m(1) show ?thesis unfolding pre_def by blast
qed

lemma bt_keys_cong: "(\<And>k. bt_contains m k = bt_contains m' k) \<Longrightarrow> bt_keys m = bt_keys m'"
  by (rule strict_sorted_equal) (auto simp: set_eq_iff)

lemma bt_values_names: "(\<And>k v. bt_get m k = Some v \<Longrightarrow> f v = k) \<Longrightarrow> map f (bt_values m) = bt_keys m"
  unfolding bt_values_def bt_keys_def by (auto simp: set_entries_iff)

lemma touch_directory_result:
  assumes ok: "vfs_ok fs" and r: "touch_directory path now fs = Inr (q, fs1)"
  shows "\<exists>cs. resolve_path fs path 0 = Inr (abs_path cs) \<and> q = abs_path cs \<and> good cs"
    and "vfs_ok fs1" "fs_path_index fs1 = fs_path_index fs" "fs_next_ino fs1 = fs_next_ino fs"
proof -
  from r obtain ino i where i: "resolve_path fs path 0 = Inr q" "assert_directory_path fs path ''scandir'' = Inr ()"
    "inode_mut_for_existing_path fs q ''scandir'' False = Inr (ino, i)"
    "fs1 = put_inode ino (map_metadata (\<lambda>m. m\<lparr>md_atime_ms := now\<rparr>) i) fs"
    by (auto simp: touch_directory_def err_simps)
  from vfs_ok_put [OF ok inode_mut_result(1) [OF i(3)]] i(4)
  show "vfs_ok fs1" "fs_path_index fs1 = fs_path_index fs" "fs_next_ino fs1 = fs_next_ino fs" by simp_all
  from resolve_path_result [OF i(1)] obtain cs where cs: "q = abs_path cs" "good cs" "plain fs True cs" by blast
  with i(1) show "\<exists>cs. resolve_path fs path 0 = Inr (abs_path cs) \<and> q = abs_path cs \<and> good cs" by blast
qed

lemma touch_not_panicked: "vfs_ok fs \<Longrightarrow> touch_directory path now fs \<noteq> Inl Panicked"
  using access_not_panicked [OF vfs_ok_indexed] by (auto simp: touch_directory_def err_simps)

lemma read_dir_with_types_result:
  assumes ok: "vfs_ok fs" and r: "touch_directory path now fs = Inr (abs_path cs, fs1)" and cs: "proper_list cs"
  shows "\<exists>m. read_dir_with_types path now fs = (Inr (bt_values m), fs1) \<and>
    collect_entries fs1 (directory_prefix (abs_path cs)) (index_range fs1 (directory_prefix (abs_path cs))) bt_empty = Inr m \<and>
    (\<forall>n. bt_get m n = (if proper n then map_option (entry_of fs1 n) (lookup_path fs (cs @ [n])) else None))"
  using collect_index_range [OF touch_directory_result(2) [OF ok r] cs] r
  by (auto simp: read_dir_with_types_def touch_directory_result(3) [OF ok r])

lemma de_name_entry [simp]: "de_name (entry_of fs n ino) = n"
  by (simp add: entry_of_def Let_def)

lemma names_listed:
  assumes "\<forall>n. bt_get m n = (if proper n then map_option (entry_of fs1 n) (lookup_path fs (cs @ [n])) else None)"
  shows "map de_name (bt_values m) = bt_keys m" "set (bt_keys m) = names_in fs cs"
proof -
  show "map de_name (bt_values m) = bt_keys m"
    by (rule bt_values_names) (auto simp: assms [rule_format] split: if_splits)
  show "set (bt_keys m) = names_in fs cs"
    by (auto simp: names_in_def bt_contains_iff assms [rule_format] split: if_splits)
qed

lemma read_dir_result:
  assumes ok: "vfs_ok fs" and r: "touch_directory path now fs = Inr (abs_path cs, fs1)" and cs: "proper_list cs"
  shows "\<exists>names. read_dir path now fs = (Inr names, fs1) \<and> sorted_wrt (<) names \<and> set names = names_in fs cs"
proof -
  from read_dir_with_types_result [OF assms] obtain m where m: "read_dir_with_types path now fs = (Inr (bt_values m), fs1)"
    "\<forall>n. bt_get m n = (if proper n then map_option (entry_of fs1 n) (lookup_path fs (cs @ [n])) else None)" by blast
  with names_listed [OF m(2)] show ?thesis by (intro exI [of _ "bt_keys m"]) (simp add: read_dir_def)
qed

text \<open>The limited listing stops early; its result is the one of the limit on the whole listing.\<close>

definition add_name :: "string \<Rightarrow> string \<times> u64 \<Rightarrow> (string, string) btreemap \<Rightarrow> (string, string) btreemap" where
  "add_name pre x m =
     (let name = drop (length pre) (fst x)
      in if name = '''' \<or> slash \<in> set name then m else bt_insert name name m)"

lemma bt_len_add_name: "bt_len m \<le> bt_len (add_name pre x m)"
  by (simp add: add_name_def Let_def bt_len_insert)

lemma bt_len_add_names: "bt_len m \<le> bt_len (fold (add_name pre) xs m)"
  by (induction xs arbitrary: m) (auto intro: order_trans [OF bt_len_add_name])

lemma collect_names_result:
  "bt_len m \<le> limit \<Longrightarrow> collect_names path pre limit xs m =
     (if limit < bt_len (fold (add_name pre) xs m) then Inl (listing_too_long path limit)
      else Inr (fold (add_name pre) xs m))"
proof (induction xs arbitrary: m)
  case (Cons x xs)
  obtain k ino where x: "x = (k, ino)" by (cases x)
  have "collect_names path pre limit (x # xs) m =
      (if limit < bt_len (add_name pre x m) then Inl (listing_too_long path limit)
       else collect_names path pre limit xs (add_name pre x m))"
    using Cons.prems by (simp add: x add_name_def Let_def)
  with bt_len_add_names [of "add_name pre x m" pre xs] Cons.IH [of "add_name pre x m"] show ?case by simp
qed simp

lemma add_names_keys:
  assumes "collect_entries fs pre xs m = Inr m'" "\<forall>n. bt_contains a n = bt_contains m n" "\<forall>k v. bt_get a k = Some v \<longrightarrow> v = k"
  shows "bt_keys (fold (add_name pre) xs a) = bt_keys m' \<and> bt_values (fold (add_name pre) xs a) = bt_keys m'"
  using assms
proof (induction xs arbitrary: a m)
  case Nil
  then have "bt_keys a = bt_keys m'" "map id (bt_values a) = bt_keys a"
    by (auto intro: bt_keys_cong) (use bt_values_names [of a id] Nil.prems(3) in simp)
  then show ?case by simp
next
  case (Cons x xs)
  obtain k ino where x: "x = (k, ino)" by (cases x)
  show ?case
  proof (cases "drop (length pre) k = '''' \<or> slash \<in> set (drop (length pre) k)")
    case True
    with Cons.prems Cons.IH [of m a] x show ?thesis by (simp add: add_name_def)
  next
    case False
    with Cons.prems(1) x obtain e where e: "collect_entries fs pre xs (bt_insert (drop (length pre) k) e m) = Inr m'"
      by (auto simp: Let_def split: option.splits)
    from False have "fold (add_name pre) (x # xs) a = fold (add_name pre) xs (bt_insert (drop (length pre) k) (drop (length pre) k) a)"
      by (simp add: add_name_def x Let_def)
    moreover have "bt_keys (fold (add_name pre) xs (bt_insert (drop (length pre) k) (drop (length pre) k) a)) = bt_keys m' \<and>
        bt_values (fold (add_name pre) xs (bt_insert (drop (length pre) k) (drop (length pre) k) a)) = bt_keys m'"
      by (rule Cons.IH [OF e]) (use Cons.prems(2,3) in simp_all)
    ultimately show ?thesis by simp
  qed
qed

lemma read_dir_limited_default:
  assumes ok: "vfs_ok fs"
  shows "read_dir_limited path limit now fs = default_read_dir_limited (\<lambda>p. read_dir p now) path limit fs"
proof (cases "touch_directory path now fs")
  case (Inl e)
  then show ?thesis by (simp add: read_dir_limited_def default_read_dir_limited_def read_dir_def read_dir_with_types_def)
next
  case (Inr y)
  obtain q fs1 where y: "y = (q, fs1)" by (cases y)
  with Inr touch_directory_result(1) [OF ok] obtain cs where cs: "q = abs_path cs" "good cs" by blast
  have t: "touch_directory path now fs = Inr (abs_path cs, fs1)" using Inr y cs by simp
  let ?pre = "directory_prefix (abs_path cs)"
  from read_dir_with_types_result [OF ok t good_proper [OF cs(2)]] obtain m where m:
    "read_dir_with_types path now fs = (Inr (bt_values m), fs1)"
    "collect_entries fs1 ?pre (index_range fs1 ?pre) bt_empty = Inr m"
    "\<forall>n. bt_get m n = (if proper n then map_option (entry_of fs1 n) (lookup_path fs (cs @ [n])) else None)" by blast
  from add_names_keys [OF m(2), of bt_empty]
  have keys: "bt_keys (fold (add_name ?pre) (index_range fs1 ?pre) bt_empty) = bt_keys m"
    "bt_values (fold (add_name ?pre) (index_range fs1 ?pre) bt_empty) = bt_keys m" by simp_all
  then have "collect_names path ?pre limit (index_range fs1 ?pre) bt_empty =
      (if limit < length (bt_keys m) then Inl (listing_too_long path limit)
       else Inr (fold (add_name ?pre) (index_range fs1 ?pre) bt_empty))"
    by (subst collect_names_result) (simp_all add: bt_len_keys [of "fold _ _ _"])
  with t m(1) names_listed(1) [OF m(3)] keys(2) show ?thesis
    by (simp add: read_dir_limited_def default_read_dir_limited_def read_dir_def Let_def)
qed

lemma safe_read_dir:
  assumes ok: "vfs_ok fs"
  shows "safe (read_dir path now fs)" "safe (read_dir_with_types path now fs)" "safe (read_dir_limited path limit now fs)"
proof -
  have "safe (read_dir path now fs) \<and> safe (read_dir_with_types path now fs)"
  proof (cases "touch_directory path now fs")
    case (Inl e)
    with ok touch_not_panicked [OF ok] show ?thesis by (auto simp: read_dir_def read_dir_with_types_def)
  next
    case (Inr y)
    obtain q fs1 where y: "y = (q, fs1)" by (cases y)
    with Inr touch_directory_result(1) [OF ok] obtain cs where cs: "q = abs_path cs" "good cs" by blast
    have t: "touch_directory path now fs = Inr (abs_path cs, fs1)" using Inr y cs by simp
    from read_dir_with_types_result [OF ok t good_proper [OF cs(2)]] touch_directory_result(2) [OF ok t]
    show ?thesis by (auto simp: read_dir_def)
  qed
  then show "safe (read_dir path now fs)" "safe (read_dir_with_types path now fs)" by simp_all
  then show "safe (read_dir_limited path limit now fs)"
    unfolding read_dir_limited_default [OF ok] default_read_dir_limited_def
    by (auto simp: safe_def listing_too_long_def split: prod.splits sum.splits)
qed

section \<open>Runs of operations\<close>

datatype fs_op =
    Read_file string | Write_file string bytes | Create_file_exclusive string bytes | Append_file string bytes
  | Read_dir string | Read_dir_limited string nat | Read_dir_with_types string | Create_dir string | Mkdir string bool
  | Remove_file string | Remove_dir string | Rename string string | Symlink string string | Link string string
  | Chmod string u32 | Chown string u32 u32 | Utimes string u64 u64 | Utimes_spec string utime_spec utime_spec bool time_spec
  | Truncate string u64 | Pread string u64 nat | Pwrite string bytes u64
  | Stat string | Lstat string | Read_link string | Realpath string | Exists string

definition outcome :: "(vfs_error + 'a) \<times> memory_fs \<Rightarrow> (vfs_error + unit) \<times> memory_fs" where
  "outcome r = (map_sum id (\<lambda>_. ()) (fst r), snd r)"

fun fs_run :: "u64 \<times> fs_op \<Rightarrow> memory_fs \<Rightarrow> (vfs_error + unit) \<times> memory_fs" where
  "fs_run (now, Read_file p) fs = outcome (read_file p now fs)"
| "fs_run (now, Write_file p data) fs = write_file p data now fs"
| "fs_run (now, Create_file_exclusive p data) fs = create_file_exclusive p data now fs"
| "fs_run (now, Append_file p data) fs = outcome (append_file p data now fs)"
| "fs_run (now, Read_dir p) fs = outcome (read_dir p now fs)"
| "fs_run (now, Read_dir_limited p limit) fs = outcome (read_dir_limited p limit now fs)"
| "fs_run (now, Read_dir_with_types p) fs = outcome (read_dir_with_types p now fs)"
| "fs_run (now, Create_dir p) fs = create_dir p now fs"
| "fs_run (now, Mkdir p recursive) fs = mkdir p recursive now fs"
| "fs_run (now, Remove_file p) fs = remove_file p now fs"
| "fs_run (now, Remove_dir p) fs = remove_dir p fs"
| "fs_run (now, Rename p q) fs = rename p q now fs"
| "fs_run (now, Symlink target p) fs = symlink target p now fs"
| "fs_run (now, Link p q) fs = link_file p q now fs"
| "fs_run (now, Chmod p mode) fs = chmod p mode now fs"
| "fs_run (now, Chown p uid gid) fs = chown p uid gid now fs"
| "fs_run (now, Utimes p a m) fs = utimes p a m now fs"
| "fs_run (now, Utimes_spec p a m follow t) fs = utimes_spec p a m follow t fs"
| "fs_run (now, Truncate p len) fs = truncate_file p len now fs"
| "fs_run (now, Pread p offset len) fs = outcome (pread p offset len now fs)"
| "fs_run (now, Pwrite p data offset) fs = pwrite p data offset now fs"
| "fs_run (now, Stat p) fs = outcome (stat fs p, fs)"
| "fs_run (now, Lstat p) fs = outcome (lstat fs p, fs)"
| "fs_run (now, Read_link p) fs = outcome (read_link fs p, fs)"
| "fs_run (now, Realpath p) fs = outcome (realpath fs p, fs)"
| "fs_run (now, Exists p) fs = outcome (Inr (exists_path fs p), fs)"

definition fs_step :: "u64 \<times> fs_op \<Rightarrow> memory_fs \<Rightarrow> memory_fs" where
  "fs_step e fs = snd (fs_run e fs)"

text \<open>
  Inode numbers and link counts are 64-bit counters that must not wrap.  Beyond that, three calls are
  excluded: a recursive \<open>mkdir\<close> that leaves the tree through a dangling link, a rename onto the root, and
  a write past the largest file offset.
\<close>

fun fs_enabled :: "u64 \<times> fs_op \<Rightarrow> memory_fs \<Rightarrow> bool" where
  "fs_enabled (now, Write_file p data) fs = room_for_path fs"
| "fs_enabled (now, Create_file_exclusive p data) fs = room_for_path fs"
| "fs_enabled (now, Pwrite p data offset) fs = (room_for_path fs \<and> unat offset + length data < 2 ^ 64)"
| "fs_enabled (now, Create_dir p) fs = (fs_next_ino fs \<noteq> - 1)"
| "fs_enabled (now, Symlink target p) fs = (fs_next_ino fs \<noteq> - 1)"
| "fs_enabled (now, Mkdir p recursive) fs =
     (unat (fs_next_ino fs) + Suc (length (components p)) < 2 ^ 64 \<and>
      (recursive \<longrightarrow> mkdir_guard ''/'' (components p) now fs))"
| "fs_enabled (now, Link p q) fs = list_all (\<lambda>i. md_nlink (in_metadata i) \<noteq> - 1) (bt_values (fs_inodes fs))"
| "fs_enabled (now, Rename p q) fs = (resolve_exact_path fs q \<noteq> Inr ''/'')"
| "fs_enabled _ fs = True"

lemma safe_outcome [simp]: "safe (outcome r) \<longleftrightarrow> safe r"
  by (cases r; cases "fst r") (auto simp: outcome_def safe_def)

lemma safe_query: "vfs_ok fs \<Longrightarrow> r \<noteq> Inl Panicked \<Longrightarrow> safe (r, fs)"
  by (simp add: safe_def)

lemma queries_not_panicked:
  assumes "vfs_ok fs"
  shows "stat fs p \<noteq> Inl Panicked" "lstat fs p \<noteq> Inl Panicked" "read_link fs p \<noteq> Inl Panicked" "realpath fs p \<noteq> Inl Panicked"
  using access_not_panicked [OF vfs_ok_indexed [OF assms]]
  by (auto simp: stat_def lstat_def read_link_def realpath_def err_simps split: inode_kind.splits if_splits)

lemma fs_run_safe: "vfs_ok fs \<Longrightarrow> fs_enabled e fs \<Longrightarrow> safe (fs_run e fs)"
proof -
  assume ok: "vfs_ok fs" and en: "fs_enabled e fs"
  obtain now c where e: "e = (now, c)" by (cases e)
  have link: "list_all (\<lambda>i. md_nlink (in_metadata i) \<noteq> - 1) (bt_values (fs_inodes fs)) \<Longrightarrow>
      bt_get (fs_inodes fs) n = Some i \<Longrightarrow> md_nlink (in_metadata i) \<noteq> - 1" for n i
    by (auto simp: list_all_iff dest: bt_values_get)
  show ?thesis
    using en unfolding e
    by (cases c)
       (simp_all add: ok safe_read_file safe_write safe_append_file safe_read_dir safe_create_dir safe_mkdir safe_remove_file
          safe_remove_dir safe_rename symlink_def safe_symlink_with_metadata safe_link_file [OF ok link] safe_chmod safe_chown
          safe_utimes safe_utimes_spec safe_truncate_file safe_pread safe_pwrite safe_query queries_not_panicked)
qed

lemma vfs_ok_new: "vfs_ok (new_memory_fs now)"
proof -
  let ?fs = "new_memory_fs now"
  have idx: "bt_get (fs_path_index ?fs) k = (if k = ''/'' then Some 1 else None)" for k
    by (simp add: new_memory_fs_def allocate_inode_sel)
  have ino: "bt_get (fs_inodes ?fs) n = (if n = 1 then Some \<lparr>in_metadata = new_metadata Directory (S_IFDIR OR 0x1ED) 1 now,
      in_kind = Directory\<rparr> else None)" for n
    by (simp add: new_memory_fs_def allocate_inode_sel)
  have nx: "fs_next_ino ?fs = 2" by (simp add: new_memory_fs_def allocate_inode_sel)
  have refs: "path_refs ?fs n = (if n = 1 then 1 else 0)" for n
    by (simp add: path_refs_def idx)
  have root: "abs_path cs \<noteq> ''/''" if "proper_list (cs)" "cs \<noteq> []" for cs using that by simp
  have "index_ok ?fs"
    unfolding index_ok_def indexed_def
    by (auto simp: idx ino directory_at_def inode_at_def root intro: exI [of _ "[]"])
  then show ?thesis by (auto simp: vfs_ok_def inode_ok_def ino refs nx new_metadata_def split: if_splits)
qed

interpretation vfs_system: guarded_system "new_memory_fs now" fs_enabled fs_step vfs_ok
proof
  show "vfs_ok (new_memory_fs now)" by (rule vfs_ok_new)
  show "vfs_ok (fs_step e s)" if "vfs_ok s" "fs_enabled e s" for s e
    using fs_run_safe [OF that] by (simp add: fs_step_def safe_def)
qed

end
