(* ===== verification/Vfs_Store.thy ===== *)
theory Vfs_Store
  imports Vfs_Safety
begin

text \<open>
  What a file system is used for: written data reads back, listings are complete, and the default
  methods of the trait \<open>VirtualFileSystem\<close> do their work on any store that keeps a small contract.
\<close>

unbundle bit_operations_syntax

section \<open>Resolution while files change\<close>

text \<open>
  A change that keeps every directory and every symbolic link, and every file a file, keeps the way to a
  path, as long as nothing new on the resolved path is in the way.
\<close>

definition same_shape :: "inode_kind \<Rightarrow> inode_kind \<Rightarrow> bool" where
  "same_shape k k' \<longleftrightarrow> k = k' \<or> is_file k \<and> is_file k'"

definition keeps_shape :: "memory_fs \<Rightarrow> memory_fs \<Rightarrow> bool" where
  "keeps_shape fs fs' \<longleftrightarrow>
     (\<forall>k i. inode_at fs k = Some i \<longrightarrow> (\<exists>i'. inode_at fs' k = Some i' \<and> same_shape (in_kind i) (in_kind i')))"

lemma walk_missing:
  assumes "vfs_ok fs" "lookup_path fs pre = None" "proper_list pre" "proper_list ds"
  shows "resolve_walk fs follow (abs_path pre) ds = Inr (Resolved (abs_path (pre @ ds)))"
proof (rule walk_plain [OF _ vfs_ok_indexed [OF assms(1)] assms(3,4)])
  have "inode_at fs (abs_path (pre @ us @ [c])) = None" if "ds = us @ c # vs" for us c vs
    using vfs_ok_below [OF assms(1,2), of "us @ [c]"] assms(3,4) that by (simp add: inode_at_def)
  then show "plain_from fs follow pre ds" unfolding plain_from_def by fastforce
qed

lemma walk_redirect:
  assumes ok: "vfs_ok fs" and shape: "keeps_shape fs fs'"
  shows "resolve_walk fs follow (abs_path pre) ds = Inr (Redirect r) \<Longrightarrow> proper_list pre \<Longrightarrow> proper_list ds \<Longrightarrow>
    resolve_walk fs' follow (abs_path pre) ds = Inr (Redirect r)"
proof (induction ds arbitrary: pre)
  case (Cons c ds)
  show ?case
  proof (cases "lookup_path fs (pre @ [c])")
    case None
    with walk_missing [OF ok None, of ds follow] Cons.prems show ?thesis by simp
  next
    case (Some ino)
    then obtain i where i: "bt_get (fs_inodes fs) ino = Some i" using indexedD [OF vfs_ok_indexed [OF ok]] by blast
    with Some have "inode_at fs (abs_path (pre @ [c])) = Some i" by (simp add: inode_at_def)
    with shape obtain ino' i' where i': "lookup_path fs' (pre @ [c]) = Some ino'" "bt_get (fs_inodes fs') ino' = Some i'"
      "same_shape (in_kind i) (in_kind i')"
      by (fastforce simp: keeps_shape_def inode_at_def split: option.splits)
    have step: "resolve_walk fs' follow (abs_path (pre @ [c])) ds = Inr (Redirect r)"
      if "resolve_walk fs follow (abs_path (pre @ [c])) ds = Inr (Redirect r)"
      using Cons.IH [OF that] Cons.prems by simp
    show ?thesis
      using Cons.prems Some i i' step
      by (cases "in_kind i"; cases "in_kind i'") (auto simp: same_shape_def Let_def split: if_splits)
  qed
qed simp

lemma resolve_keeps:
  assumes "resolve_path_with_options fs path follow depth = Inr (abs_path cs)" "proper_list cs"
    and "vfs_ok fs" "keeps_shape fs fs'" "indexed fs'" "plain fs' follow cs"
  shows "resolve_path_with_options fs' path follow depth = Inr (abs_path cs)"
  using assms
proof (induction fs path follow depth rule: resolve_path_with_options.induct)
  case (1 fs path follow depth)
  from "1.prems"(1) have v: "validate_path path = Inr ()" "\<not> MAX_SYMLINK_DEPTH < depth"
    by (auto simp: resolve_path_with_options.simps [of fs path] err_simps split: if_splits)
  let ?ds = "components path"
  have n: "normalize_path path = abs_path ?ds" "path_parts (normalize_path path) = ?ds"
    by (simp_all add: normalize_path_eq components_proper)
  have step: "resolve_path_with_options f path follow depth =
      (if normalize_path path = ''/'' then Inr (normalize_path path)
       else case resolve_walk f follow ''/'' ?ds of
         Inl e \<Rightarrow> Inl e | Inr (Resolved p) \<Rightarrow> Inr p | Inr (Redirect p) \<Rightarrow> resolve_path_with_options f p follow (depth + 1))" for f
    using v n by (subst resolve_path_with_options.simps) simp
  show ?case
  proof (cases "normalize_path path = ''/''")
    case True
    with "1.prems"(1) show ?thesis by (simp add: step)
  next
    case False
    from "1.prems"(1) False obtain w where w: "resolve_walk fs follow ''/'' ?ds = Inr w"
      by (simp add: step split: sum.splits)
    show ?thesis
    proof (cases w)
      case (Resolved p)
      with "1.prems"(1) w step False have r: "resolve_walk fs follow (abs_path []) ?ds = Inr (Resolved (abs_path cs))" by simp
      with walk_resolved [OF r] "1.prems"(2) have "?ds = cs" by (simp add: abs_path_inject components_proper)
      moreover have "resolve_walk fs' follow (abs_path []) cs = Inr (Resolved (abs_path ([] @ cs)))"
        using "1.prems" by (intro walk_plain) simp_all
      ultimately show ?thesis using False by (simp add: step)
    next
      case (Redirect p)
      have "resolve_path_with_options fs p follow (depth + 1) = Inr (abs_path cs)" using "1.prems"(1) w Redirect step False by simp
      with "1.IH" [OF v(2) refl False] w Redirect n "1.prems" have
        "resolve_path_with_options fs' p follow (depth + 1) = Inr (abs_path cs)" by simp
      moreover have "resolve_walk fs' follow ''/'' ?ds = Inr (Redirect p)"
        using walk_redirect [OF "1.prems"(3,4), of follow "[]" ?ds p] w Redirect by (simp add: components_proper)
      ultimately show ?thesis using False by (simp add: step)
    qed
  qed
qed

lemma resolve_normalized:
  assumes "resolve_path_with_options fs path follow depth = Inr q"
  shows "resolve_path_with_options fs (normalize_path path) follow depth = Inr q"
proof -
  from assms have v: "validate_path path = Inr ()"
    by (auto simp: resolve_path_with_options.simps [of fs path] err_simps)
  then have "good (components path)"
    using printable_components [of path] by (simp add: good_def components_proper validate_path_iff normalize_path_eq)
  from validate_good [OF this] have w: "validate_path (normalize_path path) = Inr ()" by (simp add: normalize_path_eq)
  have n: "normalize_path (normalize_path path) = normalize_path path" by (simp add: normalize_path_eq components_proper)
  have d: "\<not> MAX_SYMLINK_DEPTH < depth" using assms v by (auto simp: resolve_path_with_options.simps [of fs path] split: if_splits)
  have "resolve_path_with_options fs (normalize_path path) follow depth = resolve_path_with_options fs path follow depth"
    by (subst (1 2) resolve_path_with_options.simps) (simp add: v w n d)
  with assms show ?thesis by simp
qed

text \<open>The file at the end of a resolved path.\<close>

lemma read_file_at:
  assumes "vfs_ok fs" "resolve_path fs path 0 = Inr (abs_path cs)" "inode_at fs (abs_path cs) = Some i"
  shows "fst (read_file path now fs) = (case in_kind i of File data \<Rightarrow> Inr data | kind \<Rightarrow> Inl (not_a_file ''open'' path kind))"
proof -
  from assms(3) obtain ino where ino: "lookup_path fs cs = Some ino" "bt_get (fs_inodes fs) ino = Some i"
    by (auto simp: inode_at_def split: option.splits)
  have "inode_mut_for_existing_path fs path ''open'' True = Inr (ino, i)"
    using resolve_normalized [of fs path True 0] assms(2) ino
    by (simp add: inode_mut_for_existing_path_def inode_id_for_existing_path_def resolve_path_def Let_def)
  then show ?thesis by (simp add: read_file_def split: inode_kind.split)
qed

lemma plain_keeps:
  assumes ok: "vfs_ok fs" and cs: "lookup_path fs cs = Some ino" "proper_list cs" "plain fs follow cs" and shape: "keeps_shape fs fs'"
  shows "plain fs' follow cs"
  unfolding plain_from_def
proof (intro allI impI)
  fix us c vs i'
  assume c: "cs = us @ c # vs" and i': "inode_at fs' (abs_path ([] @ us @ [c])) = Some i'"
  have "\<exists>n. lookup_path fs (us @ [c]) = Some n"
    using cs(1,2) vfs_ok_ancestor [OF ok, of "us @ [c]" vs ino] directory_at_lookup c by (cases "vs = []") auto
  then obtain i where i: "inode_at fs (abs_path (us @ [c])) = Some i"
    using indexedD [OF vfs_ok_indexed [OF ok]] by (fastforce simp: inode_at_def)
  with shape i' have s: "same_shape (in_kind i) (in_kind i')" by (fastforce simp: keeps_shape_def)
  from cs(3) c i have "(vs \<noteq> [] \<longrightarrow> in_kind i = Directory) \<and> (follow \<longrightarrow> \<not> is_symlink (in_kind i))"
    unfolding plain_from_def by fastforce
  with s show "(vs \<noteq> [] \<longrightarrow> in_kind i' = Directory) \<and> (follow \<longrightarrow> \<not> is_symlink (in_kind i'))"
    by (cases "in_kind i"; cases "in_kind i'") (auto simp: same_shape_def)
qed

lemma keeps_shape_extends: "extends fs fs' \<Longrightarrow> keeps_shape fs fs'"
  by (auto simp: extends_def keeps_shape_def same_shape_def inode_at_def split: option.splits)

lemma keeps_shape_trans: "keeps_shape a b \<Longrightarrow> keeps_shape b c \<Longrightarrow> keeps_shape a c"
  unfolding keeps_shape_def same_shape_def by metis

lemma keeps_shape_put:
  "bt_get (fs_inodes fs) ino = Some i \<Longrightarrow> same_shape (in_kind i) (in_kind i') \<Longrightarrow> keeps_shape fs (put_inode ino i' fs)"
  by (auto simp: keeps_shape_def same_shape_def inode_at_def split: option.splits)

lemma dir_chain_create:
  assumes "vfs_ok fs" "good cs" "cs \<noteq> []" "dir_chain fs (butlast cs)"
  shows "dir_chain (create_node kind mode now (abs_path cs) fs) (butlast cs)"
  unfolding dir_chain_def inode_at_create [OF assms(1)]
proof (intro allI impI)
  fix us vs i
  assume u: "butlast cs = us @ vs" and i: "(if abs_path us = abs_path cs
    then Some \<lparr>in_metadata = new_metadata kind mode (fs_next_ino fs) now, in_kind = kind\<rparr> else inode_at fs (abs_path us)) = Some i"
  have "proper_list us" using good_proper [OF good_butlast [OF assms(2)]] u by simp
  moreover have "length us < length cs" using arg_cong [OF u, of length] assms(3) by (cases "length cs") simp_all
  ultimately have "abs_path us \<noteq> abs_path cs" using assms(2) by (auto simp: abs_path_inject)
  with i have "inode_at fs (abs_path us) = Some i" by simp
  with assms(4) u show "in_kind i = Directory" unfolding dir_chain_def by blast
qed

text \<open>What a successful write leaves behind.\<close>

lemma write_file_effect:
  assumes ok: "vfs_ok fs" and room: "room_for_path fs" and w: "write_file path data now fs = (Inr (), fs')"
  obtains cs where "resolve_path fs path 0 = Inr (abs_path cs)" "good cs" "plain fs' True cs" "vfs_ok fs'" "keeps_shape fs fs'"
    "\<exists>i. inode_at fs' (abs_path cs) = Some i \<and> in_kind i = File data"
    "\<forall>k n. bt_get (fs_path_index fs) k = Some n \<longrightarrow> bt_get (fs_path_index fs') k = Some n"
    "\<forall>n i. bt_get (fs_inodes fs) n = Some i \<longrightarrow> lookup_path fs cs \<noteq> Some n \<longrightarrow> bt_get (fs_inodes fs') n = Some i"
proof -
  have ok': "vfs_ok fs'" using safe_write [OF ok room, of path data now] w by simp
  from w obtain q where q: "resolve_path fs path 0 = Inr q" by (auto simp: write_file_def split: sum.splits)
  from resolve_path_result [OF q] obtain cs where cs: "q = abs_path cs" "good cs" "plain fs True cs" by blast
  show thesis
  proof (rule write_file_result [OF ok room q [unfolded cs(1)] cs(2,3), of data now], goal_cases)
    case (1 fs1)
    show ?case
    proof (cases "lookup_path fs cs")
      case None
      let ?fs = "create_node (File data) (S_IFREG OR 0x1A4) now (abs_path cs) fs1"
      have fs': "fs' = ?fs" using 1(8) None w by simp
      have ext: "extends fs ?fs" using extends_trans [OF 1(2) extends_create [OF 1(1)]] 1(6) None by simp
      have at: "inode_at ?fs k = (if k = abs_path cs then Some \<lparr>in_metadata = new_metadata (File data) (S_IFREG OR 0x1A4)
          (fs_next_ino fs1) now, in_kind = File data\<rparr> else inode_at fs1 k)" for k by (rule inode_at_create [OF 1(1)])
      have "cs \<noteq> []" using root_lookup [OF ok] None by auto
      from dir_chain_create [OF 1(1) cs(2) this 1(4)] at have "plain ?fs True cs" by (intro chain_plain) auto
      with that [of cs] q cs ok' fs' at ext keeps_shape_extends [OF ext] None show ?thesis by (auto simp: extends_def)
    next
      case (Some ino)
      then obtain i where i: "bt_get (fs_inodes fs) ino = Some i" using indexedD [OF vfs_ok_indexed [OF ok]] by blast
      then have i1: "bt_get (fs_inodes fs1) ino = Some i" using 1(2) by (simp add: extends_def)
      with 1(9) Some w have fs': "is_file (in_kind i)" "fs' = put_inode ino (set_data data now i) fs1"
        by (auto split: inode_kind.splits)
      have ks: "keeps_shape fs fs'"
        using keeps_shape_trans [OF keeps_shape_extends [OF 1(2)] keeps_shape_put [OF i1, of "set_data data now i"]] fs'
        by (simp add: same_shape_def)
      have "plain fs' True cs" by (rule plain_keeps [OF ok Some good_proper [OF cs(2)] cs(3) ks])
      moreover have "inode_at fs' (abs_path cs) = Some (set_data data now i)"
        using Some 1(6) fs'(2) by (simp add: inode_at_def)
      ultimately show ?thesis
        using q cs ok' ks Some 1(2) fs'(2) by (intro that [of cs]) (auto simp: extends_def)
    qed
  qed
qed

section \<open>The contract of a file store\<close>

text \<open>
  What the default methods of the trait rely on: a written file reads back, and a file that could be read
  can be overwritten.  From it, the default \<open>pwrite\<close> and \<open>append_file\<close> do what their names say.
\<close>

definition pwritten :: "bytes \<Rightarrow> nat \<Rightarrow> bytes \<Rightarrow> bytes \<Rightarrow> bool" where
  "pwritten old start content new \<longleftrightarrow>
     length new = max (length old) (start + length content) \<and>
     (\<forall>i<length new. new ! i =
        (if start \<le> i \<and> i < start + length content then content ! (i - start)
         else if i < length old then old ! i else 0))"

lemma splice_pwritten:
  assumes "start + length content < 2 ^ 64"
  shows "\<exists>new. splice old start content = Some new \<and> pwritten old start content new"
proof -
  define grown where "grown = (if length old < start then resize start old else old)"
  define padded where "padded = (if length grown < start + length content then resize (start + length content) grown else grown)"
  have g: "length grown = max (length old) start" "\<And>i. i < length grown \<Longrightarrow> grown ! i = (if i < length old then old ! i else 0)"
    by (auto simp: grown_def resize_def nth_append)
  have p: "length padded = max (length old) (start + length content)"
    "\<And>i. i < length padded \<Longrightarrow> padded ! i = (if i < length old then old ! i else 0)"
    using g by (auto simp: padded_def resize_def nth_append)
  have "splice old start content = Some (take start padded @ content @ drop (start + length content) padded)"
    using assms by (simp add: splice_def Let_def grown_def padded_def)
  moreover have "pwritten old start content (take start padded @ content @ drop (start + length content) padded)"
    using p by (auto simp: pwritten_def nth_append)
  ultimately show ?thesis by blast
qed

locale file_store =
  fixes rd :: "string \<Rightarrow> 's \<Rightarrow> (vfs_error + bytes) \<times> 's"
    and wr :: "string \<Rightarrow> bytes \<Rightarrow> 's \<Rightarrow> (vfs_error + unit) \<times> 's"
    and accepts :: "string \<Rightarrow> bool"
    and ready :: "'s \<Rightarrow> bool"
  assumes read_ready: "ready s \<Longrightarrow> ready (snd (rd p s))"
    and write_read: "ready s \<Longrightarrow> wr p data s = (Inr (), s') \<Longrightarrow> fst (rd p s') = Inr data"
    and overwrite: "ready s \<Longrightarrow> accepts p \<Longrightarrow> rd p s = (Inr old, s1) \<Longrightarrow> fst (wr p data s1) = Inr ()"
begin

lemma rewrite:
  assumes "ready s" "accepts p" "rd p s = (Inr old, s1)"
  shows "\<exists>s'. wr p data s1 = (Inr (), s') \<and> fst (rd p s') = Inr data"
proof -
  have "fst (wr p data s1) = Inr ()" by (rule overwrite [OF assms])
  then obtain s' where w: "wr p data s1 = (Inr (), s')" by (cases "wr p data s1") auto
  moreover have "ready s1" using read_ready [OF assms(1), of p] assms(3) by simp
  ultimately show ?thesis using write_read by blast
qed

lemma pwrite_data:
  assumes "ready s" "accepts p" "fst (rd p s) = Inr old" "unat offset + length content < 2 ^ 64"
  shows "\<exists>s' new. default_pwrite rd wr p content offset s = (Inr (), s') \<and> fst (rd p s') = Inr new \<and>
    pwritten old (unat offset) content new"
proof -
  obtain s1 where s1: "rd p s = (Inr old, s1)" using assms(3) by (cases "rd p s") auto
  from splice_pwritten [OF assms(4)] obtain new where
    new: "splice old (unat offset) content = Some new" "pwritten old (unat offset) content new" by blast
  with rewrite [OF assms(1,2) s1, of new] s1 show ?thesis by (auto simp: default_pwrite_def)
qed

lemma append_data:
  assumes "ready s" "accepts p" "fst (rd p s) = Inr old"
  shows "\<exists>s'. default_append_file rd wr p content s = (Inr (of_nat (length old + length content)), s') \<and>
    fst (rd p s') = Inr (old @ content)"
proof -
  obtain s1 where s1: "rd p s = (Inr old, s1)" using assms(3) by (cases "rd p s") auto
  with rewrite [OF assms(1,2) s1, of "old @ content"] show ?thesis by (auto simp: default_append_file_def)
qed

end

text \<open>The in-memory file system meets the contract.\<close>

definition store_ready :: "memory_fs \<Rightarrow> bool" where
  "store_ready fs \<longleftrightarrow> vfs_ok fs \<and> room_for_path fs"

lemma write_file_reads:
  assumes "store_ready fs" "write_file path data now fs = (Inr (), fs')"
  shows "fst (read_file path later fs') = Inr data"
proof (rule write_file_effect [OF _ _ assms(2)], goal_cases)
  case (3 cs)
  from 3(6) obtain i where i: "inode_at fs' (abs_path cs) = Some i" "in_kind i = File data" by blast
  have "resolve_path fs' path 0 = Inr (abs_path cs)"
    using resolve_keeps [of fs path True 0 cs fs'] 3 assms(1) good_proper [OF 3(2)] vfs_ok_indexed [OF 3(4)]
    by (simp add: resolve_path_def store_ready_def)
  from read_file_at [OF 3(4) this i(1)] i(2) show ?case by simp
qed (use assms(1) in \<open>simp_all add: store_ready_def\<close>)

lemma resolve_normalize_eq:
  assumes "validate_path path = Inr ()" "depth \<le> MAX_SYMLINK_DEPTH"
  shows "resolve_path_with_options fs (normalize_path path) follow depth = resolve_path_with_options fs path follow depth"
proof -
  have "good (components path)"
    using assms(1) printable_components [of path] by (simp add: good_def components_proper validate_path_iff normalize_path_eq)
  from validate_good [OF this] have w: "validate_path (normalize_path path) = Inr ()" by (simp add: normalize_path_eq)
  have n: "normalize_path (normalize_path path) = normalize_path path" by (simp add: normalize_path_eq components_proper)
  show ?thesis using assms by (subst (1 2) resolve_path_with_options.simps) (simp add: w n not_less)
qed

lemma read_file_state:
  assumes "vfs_ok fs" "read_file path now fs = (Inr old, fs1)"
  obtains cs ino i where "resolve_path fs (normalize_path path) 0 = Inr (abs_path cs)" "good cs" "plain fs True cs"
    "lookup_path fs cs = Some ino" "bt_get (fs_inodes fs) ino = Some i" "in_kind i = File old"
    "fs1 = put_inode ino (set_atime now i) fs"
proof -
  from assms(2) obtain ino i where i: "inode_mut_for_existing_path fs path ''open'' True = Inr (ino, i)"
    "in_kind i = File old" "fs1 = put_inode ino (set_atime now i) fs"
    by (auto simp: read_file_def split: sum.splits inode_kind.splits)
  from i(1) obtain q where q: "resolve_path fs (normalize_path path) 0 = Inr q" "bt_get (fs_path_index fs) q = Some ino"
    "bt_get (fs_inodes fs) ino = Some i"
    by (auto simp: inode_mut_for_existing_path_def inode_id_for_existing_path_def Let_def err_simps)
  from resolve_path_result [OF q(1)] obtain cs where cs: "q = abs_path cs" "good cs" "plain fs True cs" by blast
  show thesis by (rule that [of cs ino i]) (use q cs i in simp_all)
qed

lemma read_file_ready: "store_ready fs \<Longrightarrow> store_ready (snd (read_file path now fs))"
proof -
  assume r: "store_ready fs"
  have "fs_next_ino (snd (read_file path now fs)) = fs_next_ino fs"
    by (auto simp: read_file_def split: sum.splits inode_kind.splits)
  with r safe_read_file [of fs path now] show ?thesis by (simp add: store_ready_def room_for_path_def safe_def)
qed

lemma write_after_read:
  assumes r: "store_ready fs" and v: "validate_path path = Inr ()" and rd: "read_file path now fs = (Inr old, fs1)"
  shows "fst (write_file path data later fs1) = Inr ()"
proof (rule read_file_state [OF _ rd], goal_cases)
  case (2 cs ino i)
  have ok1: "store_ready fs1" using read_file_ready [OF r, of path now] rd by simp
  have ks: "keeps_shape fs fs1" using keeps_shape_put [OF 2(5), of "set_atime now i"] 2(7) by (simp add: same_shape_def)
  have pl: "plain fs1 True cs"
    using plain_keeps [OF _ 2(4) good_proper [OF 2(2)] 2(3) ks] r by (simp add: store_ready_def)
  have res: "resolve_path fs1 path 0 = Inr (abs_path cs)"
    using resolve_keeps [of fs path True 0 cs fs1] resolve_normalize_eq [OF v, of 0] 2(1) good_proper [OF 2(2)] ks pl r ok1
    by (simp add: resolve_path_def store_ready_def vfs_ok_indexed)
  show ?case
  proof (rule write_file_result [OF _ _ res 2(2) pl, of data later], goal_cases)
    case (3 fs2)
    have look: "lookup_path fs1 cs = Some ino" "bt_get (fs_inodes fs1) ino = Some (set_atime now i)" using 2(4,7) by simp_all
    with 3(2) have "bt_get (fs_inodes fs2) ino = Some (set_atime now i)" by (simp add: extends_def)
    with 3(9) look(1) 2(6) show ?case by simp
  qed (use ok1 in \<open>simp_all add: store_ready_def\<close>)
qed (use r in \<open>simp add: store_ready_def\<close>)

interpretation memory_store: file_store "\<lambda>p. read_file p now" "\<lambda>p data. write_file p data now"
  "\<lambda>p. validate_path p = Inr ()" store_ready for now
  by unfold_locales (use read_file_ready write_file_reads write_after_read in blast)+

text \<open>Other files are untouched by a write.\<close>

lemma write_keeps_others:
  assumes "vfs_ok fs" "room_for_path fs" "write_file path data now fs = (Inr (), fs')"
  shows "resolve_path fs path 0 = Inr q \<longrightarrow> resolve_path fs other 0 = Inr r \<longrightarrow>
    bt_get (fs_path_index fs) r = Some ino \<longrightarrow> bt_get (fs_path_index fs) q \<noteq> Some ino \<longrightarrow>
    fst (read_file other later fs') = fst (read_file other later fs)"
proof (intro impI)
  assume a: "resolve_path fs path 0 = Inr q" "resolve_path fs other 0 = Inr r" "bt_get (fs_path_index fs) r = Some ino"
    "bt_get (fs_path_index fs) q \<noteq> Some ino"
  from resolve_path_result [OF a(2)] obtain ds where ds: "r = abs_path ds" "good ds" "plain fs True ds" by blast
  obtain i where i: "bt_get (fs_inodes fs) ino = Some i" using indexedD [OF vfs_ok_indexed [OF assms(1)] a(3)] by blast
  show "fst (read_file other later fs') = fst (read_file other later fs)"
  proof (rule write_file_effect [OF assms], goal_cases)
    case (1 cs)
    have at: "inode_at fs (abs_path ds) = Some i" "inode_at fs' (abs_path ds) = Some i"
      using a i 1(1,7,8) ds(1) by (auto simp: inode_at_def)
    have pl: "plain fs' True ds"
      using plain_keeps [OF assms(1) _ good_proper [OF ds(2)] ds(3) 1(5)] a(3) ds(1) by simp
    have "resolve_path fs' other 0 = Inr (abs_path ds)"
      using resolve_keeps [of fs other True 0 ds fs'] a(2) ds 1(4,5) assms(1) pl
      by (simp add: resolve_path_def vfs_ok_indexed)
    from read_file_at [OF 1(4) this at(2)] read_file_at [OF assms(1) _ at(1), of other] a(2) ds(1) show ?case by simp
  qed
qed

lemma touch_directory_succeeds:
  assumes "vfs_ok fs" "resolve_path fs path 0 = Inr q" "inode_at fs q = Some i" "in_kind i = Directory"
  shows "\<exists>fs1. touch_directory path now fs = Inr (q, fs1)"
proof -
  from assms(3) obtain ino where ino: "bt_get (fs_path_index fs) q = Some ino" "bt_get (fs_inodes fs) ino = Some i"
    by (auto simp: inode_at_def split: option.splits)
  from resolve_path_result [OF assms(2)] obtain cs where cs: "q = abs_path cs" "good cs" "plain fs True cs" by blast
  have "resolve_path fs (normalize_path path) 0 = Inr q"
    using resolve_normalized [of fs path True 0 q] assms(2) by (simp add: resolve_path_def)
  then have "assert_directory_path fs path ''scandir'' = Inr ()"
    using ino assms(4)
    by (simp add: assert_directory_path_def inode_for_existing_path_def inode_id_for_existing_path_def Let_def)
  moreover have "inode_mut_for_existing_path fs q ''scandir'' False = Inr (ino, i)"
    using inode_id_plain [OF vfs_ok_indexed [OF assms(1)] cs(2) plain_weaken [OF cs(3), of False], of "''scandir''"] ino cs(1)
    by (simp add: inode_mut_for_existing_path_def)
  ultimately show ?thesis using assms(2) by (simp add: touch_directory_def)
qed

section \<open>Properties\<close>

text \<open>
  (C1) From a new file system, after any sequence of operations and then one more, in which inode numbers
  and link counts do not wrap, no rename targets the root, no recursive \<open>mkdir\<close> goes through a dangling
  link and no write at an offset ends past the largest file offset, no operation runs into
  an \<open>expect\<close> of the source, and the index stays a tree of live inodes with exact link counts: every path
  lies in a directory, and a file's or link's count is the number of its paths.
\<close>

theorem file_system_runs_safe:
  assumes "valid_run fs_enabled fs_step (new_memory_fs boot) es" "fs_enabled e (fold fs_step es (new_memory_fs boot))"
  shows "fst (fs_run e (fold fs_step es (new_memory_fs boot))) \<noteq> Inl Panicked \<and>
    vfs_ok (snd (fs_run e (fold fs_step es (new_memory_fs boot))))"
  using fs_run_safe [OF vfs_system.run_inv [OF assms(1)] assms(2)] by (simp add: safe_def)

theorem file_system_runs_safe_witness:
  "fst (fs_run (2, Rename ''/d'' ''/e'') (fold fs_step [(1, Create_dir ''/d'')] (new_memory_fs 0))) \<noteq> Inl Panicked"
proof -
  have v: "valid_run fs_enabled fs_step (new_memory_fs 0) [(1, Create_dir ''/d'')]" by code_simp
  have e: "fs_enabled (2, Rename ''/d'' ''/e'') (fold fs_step [(1, Create_dir ''/d'')] (new_memory_fs 0))" by code_simp
  show ?thesis using file_system_runs_safe [OF v e] by (rule conjunct1)
qed

text \<open>
  (C2) In a consistent file system with inode numbers left, a successful write is read back from the same path, whatever links the path goes through, and
  every path that led to another file still reads the same.
\<close>

theorem write_read_roundtrip:
  assumes "vfs_ok fs" "room_for_path fs" "write_file path data now fs = (Inr (), fs')"
  shows "fst (read_file path later fs') = Inr data \<and>
    (\<forall>q other r ino. resolve_path fs path 0 = Inr q \<longrightarrow> resolve_path fs other 0 = Inr r \<longrightarrow>
       bt_get (fs_path_index fs) r = Some ino \<longrightarrow> bt_get (fs_path_index fs) q \<noteq> Some ino \<longrightarrow>
       fst (read_file other later fs') = fst (read_file other later fs))"
  using write_file_reads [of fs path data now fs' later] write_keeps_others [OF assms] assms
  by (simp add: store_ready_def)

theorem write_read_roundtrip_witness:
  "\<exists>fs'. write_file ''/f'' [7, 8] 1 (new_memory_fs 0) = (Inr (), fs') \<and> fst (read_file ''/f'' 2 fs') = Inr [7, 8]"
proof -
  have "fst (write_file ''/f'' [7, 8] 1 (new_memory_fs 0)) = Inr ()" by code_simp
  then obtain fs' where w: "write_file ''/f'' [7, 8] 1 (new_memory_fs 0) = (Inr (), fs')"
    by (cases "write_file ''/f'' [7, 8] 1 (new_memory_fs 0)") simp
  have r: "room_for_path (new_memory_fs 0)" by code_simp
  show ?thesis using write_read_roundtrip [OF vfs_ok_new r w, of 2] w by blast
qed

text \<open>
  (C13) In a consistent file system a real path is final: it is its own real path, it is normalised, and no prefix of it is a symbolic
  link.
\<close>

theorem realpath_canonical:
  assumes "vfs_ok fs" "realpath fs path = Inr q"
  shows "realpath fs q = Inr q \<and> normalize_path q = q \<and>
    (\<forall>us vs. components q = us @ vs \<longrightarrow> (\<exists>i. inode_at fs (abs_path us) = Some i \<and> \<not> is_symlink (in_kind i)))"
proof -
  note ix = vfs_ok_indexed [OF assms(1)]
  from assms(2) have r: "resolve_path fs path 0 = Inr q" "bt_contains (fs_path_index fs) q"
    by (auto simp: realpath_def err_simps split: if_splits)
  from resolve_path_result [OF r(1)] obtain cs where cs: "q = abs_path cs" "good cs" "plain fs True cs" by blast
  from r(2) obtain ino where ino: "lookup_path fs cs = Some ino" by (auto simp: cs bt_contains_iff)
  have "resolve_path fs q 0 = Inr q" unfolding cs(1) resolve_path_def by (rule resolve_plain [OF ix cs(2,3)]) simp
  moreover have "\<exists>i. inode_at fs (abs_path us) = Some i \<and> \<not> is_symlink (in_kind i)" if u: "cs = us @ vs" for us vs
  proof -
    have "\<exists>n. lookup_path fs us = Some n"
      using vfs_ok_ancestor [OF assms(1), of us vs ino] good_proper [OF cs(2)] ino directory_at_lookup u by (cases "vs = []") auto
    then obtain i where i: "inode_at fs (abs_path us) = Some i" using indexedD [OF ix] by (fastforce simp: inode_at_def)
    show ?thesis
    proof (cases us rule: rev_cases)
      case Nil
      with i vfs_ok_root [OF assms(1)] show ?thesis by (auto simp: directory_at_def)
    next
      case (snoc ws c)
      with i cs(3) u have "\<not> is_symlink (in_kind i)" unfolding plain_from_def by fastforce
      with i show ?thesis by blast
    qed
  qed
  ultimately show ?thesis using r(2) cs good_proper [OF cs(2)] by (simp add: realpath_def)
qed

theorem realpath_canonical_witness:
  "realpath (fs_step (1, Create_dir ''/d'') (new_memory_fs 0)) ''/d'' = Inr ''/d''"
proof -
  let ?fs = "fs_step (1, Create_dir ''/d'') (new_memory_fs 0)"
  have e: "fs_enabled (1, Create_dir ''/d'') (new_memory_fs 0)" by code_simp
  have r: "realpath ?fs ''/./d'' = Inr ''/d''" by code_simp
  show ?thesis using realpath_canonical [OF vfs_system.step_inv [OF vfs_ok_new e] r] by (rule conjunct1)
qed

text \<open>
  (C14) Resolution always ends; symbolic links that lead around in a cycle are reported as \<open>ELOOP\<close>.  A set of
  valid paths is a cycle when from each of them the walk is redirected to one of them.  (A link that makes
  the path longer each time round leaves every such set and ends in \<open>ENAMETOOLONG\<close>.)
\<close>

theorem symlink_cycle_reported:
  assumes cycle: "\<And>p. p \<in> P \<Longrightarrow> validate_path p = Inr () \<and> normalize_path p \<noteq> ''/'' \<and>
      (\<exists>p'\<in>P. resolve_walk fs follow ''/'' (path_parts (normalize_path p)) = Inr (Redirect p'))"
    and "path \<in> P"
  shows "\<exists>p\<in>P. resolve_path_with_options fs path follow depth = Inl (Symlink_loop p)"
  using assms(2)
proof (induction "MAX_SYMLINK_DEPTH + 1 - depth" arbitrary: path depth)
  case 0
  then show ?case using cycle [of path] by (subst resolve_path_with_options.simps) auto
next
  case (Suc n)
  from cycle [OF Suc.prems] obtain p' where p': "p' \<in> P" "validate_path path = Inr ()" "normalize_path path \<noteq> ''/''"
    "resolve_walk fs follow ''/'' (path_parts (normalize_path path)) = Inr (Redirect p')" by blast
  have "\<exists>p\<in>P. resolve_path_with_options fs p' follow (depth + 1) = Inl (Symlink_loop p)"
    using Suc.hyps(1) [of "depth + 1" p'] Suc.hyps(2) p'(1) by simp
  moreover have "\<not> MAX_SYMLINK_DEPTH < depth" using Suc.hyps(2) by simp
  ultimately show ?case using p' by (subst resolve_path_with_options.simps) simp
qed

theorem symlink_cycle_reported_witness:
  "resolve_path_with_options (fs_step (1, Symlink ''/a'' ''/a'') (new_memory_fs 0)) ''/a'' True 0 = Inl (Symlink_loop ''/a'')"
proof -
  let ?fs = "fs_step (1, Symlink ''/a'' ''/a'') (new_memory_fs 0)"
  have "validate_path ''/a'' = Inr () \<and> normalize_path ''/a'' \<noteq> ''/'' \<and>
    resolve_walk ?fs True ''/'' (path_parts (normalize_path ''/a'')) = Inr (Redirect ''/a'')" by code_simp
  then show ?thesis using symlink_cycle_reported [of "{''/a''}" ?fs True "''/a''" 0] by blast
qed

text \<open>
  (C15) In a consistent file system a listing has the name of every entry of the directory, each once and in order, and nothing else.
\<close>

theorem read_dir_lists_children:
  assumes "vfs_ok fs" "resolve_path fs path 0 = Inr q" "inode_at fs q = Some i" "in_kind i = Directory"
  shows "\<exists>names fs'. read_dir path now fs = (Inr names, fs') \<and> sorted_wrt (<) names \<and>
    set names = {c. proper c \<and> bt_contains (fs_path_index fs) (child_path q c)}"
proof -
  from touch_directory_succeeds [OF assms] obtain fs1 where t: "touch_directory path now fs = Inr (q, fs1)" by blast
  from touch_directory_result(1) [OF assms(1) t] obtain cs where cs: "q = abs_path cs" "good cs" by blast
  from read_dir_result [OF assms(1) t [unfolded cs(1)] good_proper [OF cs(2)]] show ?thesis
    unfolding cs(1) using good_proper [OF cs(2)] by (auto simp: names_in_def bt_contains_def)
qed

theorem read_dir_lists_children_witness:
  "\<exists>names fs'. read_dir ''/'' 2 (fs_step (1, Create_dir ''/d'') (new_memory_fs 0)) = (Inr names, fs') \<and> ''d'' \<in> set names"
proof -
  let ?fs = "fs_step (1, Create_dir ''/d'') (new_memory_fs 0)"
  have e: "fs_enabled (1, Create_dir ''/d'') (new_memory_fs 0)" by code_simp
  have r: "resolve_path ?fs ''/'' 0 = Inr ''/''" by code_simp
  have "map_option in_kind (inode_at ?fs ''/'') = Some Directory" by code_simp
  then obtain i where i: "inode_at ?fs ''/'' = Some i" "in_kind i = Directory" by auto
  have "proper ''d'' \<and> bt_contains (fs_path_index ?fs) (child_path ''/'' ''d'')" by code_simp
  with read_dir_lists_children [OF vfs_system.step_inv [OF vfs_ok_new e] r i, of 2] show ?thesis by blast
qed

text \<open>
  The limited listing that stops as soon as the limit is passed has the result of the trait's default,
  which lists everything and then counts.
\<close>

theorem read_dir_limited_agrees:
  assumes "vfs_ok fs"
  shows "read_dir_limited path limit now fs = default_read_dir_limited (\<lambda>p. read_dir p now) path limit fs"
  using assms by (rule read_dir_limited_default)

theorem read_dir_limited_agrees_witness:
  "read_dir_limited ''/'' 0 1 (new_memory_fs 0) = default_read_dir_limited (\<lambda>p. read_dir p 1) ''/'' 0 (new_memory_fs 0)"
  by (rule read_dir_limited_agrees [OF vfs_ok_new])

text \<open>
  (C18) In a consistent file system with inode numbers left, a write at an offset into an existing file, by a
  path that is valid as given and with an end below \<open>2 ^ 64\<close>, succeeds and changes exactly the bytes
  written: the others stay, and a gap after the old end is filled with zeros.
\<close>

theorem pwrite_bytes:
  assumes "vfs_ok fs" "room_for_path fs" "validate_path path = Inr ()" "fst (read_file path now fs) = Inr old"
    and "unat offset + length content < 2 ^ 64"
  shows "\<exists>fs' new. pwrite path content offset now fs = (Inr (), fs') \<and> fst (read_file path now fs') = Inr new \<and>
    length new = max (length old) (unat offset + length content) \<and>
    (\<forall>i<length new. new ! i =
       (if unat offset \<le> i \<and> i < unat offset + length content then content ! (i - unat offset)
        else if i < length old then old ! i else 0))"
  using memory_store.pwrite_data [of fs path now old offset content] assms
  unfolding store_ready_def pwrite_def pwritten_def by blast

theorem pwrite_bytes_witness:
  "\<exists>fs' new. pwrite ''/f'' [5] 3 2 (fs_step (1, Write_file ''/f'' [7]) (new_memory_fs 0)) = (Inr (), fs') \<and>
     fst (read_file ''/f'' 2 fs') = Inr new \<and> length new = 4"
proof -
  let ?fs = "fs_step (1, Write_file ''/f'' [7]) (new_memory_fs 0)"
  have e: "fs_enabled (1, Write_file ''/f'' [7]) (new_memory_fs 0)" by code_simp
  have f: "room_for_path ?fs" "validate_path ''/f'' = Inr ()" "fst (read_file ''/f'' 2 ?fs) = Inr [7]" by code_simp+
  have l: "unat (3 :: u64) + length [5 :: u8] < 2 ^ 64" by simp
  from pwrite_bytes [OF vfs_system.step_inv [OF vfs_ok_new e] f l] show ?thesis by fastforce
qed

text \<open>
  (C3) In a consistent file system a successful rename to another path that is not the root moves the entry
  with everything below it: afterwards a path below the new name
  has the inode of the corresponding path below the old name, nothing is left below the old name, and all
  other paths keep their inodes.
\<close>

theorem rename_moves_subtree:
  assumes "vfs_ok fs" "resolve_exact_path fs old_path = Inr (abs_path os)" "resolve_exact_path fs new_path = Inr (abs_path ns)"
    and "proper_list os" "proper_list ns" "os \<noteq> ns" "ns \<noteq> []" "rename old_path new_path now fs = (Inr (), fs')" "proper_list cs"
  shows "bt_get (fs_path_index fs') (abs_path cs) =
    (if prefix ns cs then bt_get (fs_path_index fs) (abs_path (os @ drop (length ns) cs))
     else if prefix os cs then None else bt_get (fs_path_index fs) (abs_path cs))"
proof (rule rename_checks [of fs new_path old_path now], goal_cases)
  case (5 os' ns' ino i fs1)
  have same: "os' = os" "ns' = ns" using 5(1-4) assms(2-5) by (simp_all add: abs_path_inject)
  note facts = rename_result [OF assms(1) 5, unfolded same]
  from facts(5) obtain i1 where i1: "bt_get (fs_inodes fs1) ino = Some i1" "in_kind i1 = in_kind i" by blast
  from facts(1) facts(6) [of cs] move_entry_result(2) [OF facts(2-4) i1, of cs] assms(8,9) show ?case
    by (auto simp: move_lookup_def)
qed (use assms in \<open>simp_all add: abs_path_inject\<close>)

theorem rename_moves_subtree_witness:
  "bt_get (fs_path_index (fs_step (2, Rename ''/d'' ''/e'') (fs_step (1, Create_dir ''/d'') (new_memory_fs 0)))) ''/e'' = Some 2"
proof -
  let ?fs = "fs_step (1, Create_dir ''/d'') (new_memory_fs 0)"
  have e: "fs_enabled (1, Create_dir ''/d'') (new_memory_fs 0)" by code_simp
  have p: "abs_path [''d''] = ''/d''" "abs_path [''e''] = ''/e''" "proper_list [''d'']" "proper_list [''e'']" by code_simp+
  have r: "resolve_exact_path ?fs ''/d'' = Inr (abs_path [''d''])" "resolve_exact_path ?fs ''/e'' = Inr (abs_path [''e''])"
    "bt_get (fs_path_index ?fs) ''/d'' = Some 2" "fst (rename ''/d'' ''/e'' 2 ?fs) = Inr ()" by code_simp+
  then have s: "rename ''/d'' ''/e'' 2 ?fs = (Inr (), fs_step (2, Rename ''/d'' ''/e'') ?fs)"
    by (cases "rename ''/d'' ''/e'' 2 ?fs") (simp add: fs_step_def)
  have "bt_get (fs_path_index (fs_step (2, Rename ''/d'' ''/e'') ?fs)) (abs_path [''e'']) =
    (if prefix [''e''] [''e''] then bt_get (fs_path_index ?fs) (abs_path ([''d''] @ drop (length [''e'']) [''e'']))
     else if prefix [''d''] [''e''] then None else bt_get (fs_path_index ?fs) (abs_path [''e'']))"
    by (rule rename_moves_subtree [OF vfs_system.step_inv [OF vfs_ok_new e] r(1,2) p(3,4) _ _ s p(4)])
       simp_all
  then show ?thesis using r(3) by (simp add: p)
qed

end
