(* ===== verification/Permission_Glob.thy ===== *)
theory Permission_Glob
  imports Rust_Prelude
begin

text \<open>
  The pattern matcher of permission rules (\<open>permission_glob_matches\<close> in \<open>crates/kernel/src/permissions.rs\<close>):
  a backtracking search over indices with a table of results, and the language of a pattern it decides.
\<close>

section \<open>The matcher\<close>

type_synonym glob_memo = "nat \<times> nat \<Rightarrow> bool option"

definition skip_stars :: "string \<Rightarrow> nat \<Rightarrow> nat" where
  "skip_stars pattern i = i + length (takeWhile (\<lambda>c. c = CHR ''*'') (drop i pattern))"

lemma skip_stars_greater:
  assumes "i < length pattern" "pattern ! i = CHR ''*''"
  shows "i < skip_stars pattern i" "skip_stars pattern i \<le> length pattern"
proof -
  have "drop i pattern = CHR ''*'' # drop (Suc i) pattern" using Cons_nth_drop_Suc [OF assms(1)] assms(2) by simp
  then show "i < skip_stars pattern i" by (simp add: skip_stars_def)
  show "skip_stars pattern i \<le> length pattern"
    using length_takeWhile_le [of "\<lambda>c. c = CHR ''*''" "drop i pattern"] assms(1) by (simp add: skip_stars_def)
qed

text \<open>
  \<open>glob_loop\<close> is the inner loop of a run of stars from \<open>i\<close> to \<open>n\<close>: it moves the value index on while the
  run may cover the character.  A match found there is returned at once and not recorded.
\<close>

function (sequential)
  glob_at :: "string \<Rightarrow> string \<Rightarrow> nat \<Rightarrow> nat \<Rightarrow> glob_memo \<Rightarrow> bool \<times> glob_memo" and
  glob_loop :: "string \<Rightarrow> string \<Rightarrow> nat \<Rightarrow> nat \<Rightarrow> nat \<Rightarrow> nat \<Rightarrow> glob_memo \<Rightarrow> bool \<times> glob_memo" where
  "glob_at pattern val i j memo =
     (case memo (i, j) of
        Some result \<Rightarrow> (result, memo)
      | None \<Rightarrow>
          if length pattern \<le> i then (j = length val, memo((i, j) \<mapsto> (j = length val)))
          else if pattern ! i = CHR ''?'' then
            (if j < length val \<and> val ! j \<noteq> CHR ''/'' then
               (case glob_at pattern val (i + 1) (j + 1) memo of
                  (result, memo1) \<Rightarrow> (result, memo1((i, j) \<mapsto> result)))
             else (False, memo((i, j) \<mapsto> False)))
          else if pattern ! i = CHR ''*'' then
            (case glob_at pattern val (skip_stars pattern i) j memo of
               (True, memo1) \<Rightarrow> (True, memo1((i, j) \<mapsto> True))
             | (False, memo1) \<Rightarrow> glob_loop pattern val i (skip_stars pattern i) j j memo1)
          else if j < length val \<and> pattern ! i = val ! j then
            (case glob_at pattern val (i + 1) (j + 1) memo of
               (result, memo1) \<Rightarrow> (result, memo1((i, j) \<mapsto> result)))
          else (False, memo((i, j) \<mapsto> False)))"
| "glob_loop pattern val i n j k memo =
     (if k < length val \<and> (1 < n - i \<or> val ! k \<noteq> CHR ''/'') then
        (case glob_at pattern val n (k + 1) memo of
           (True, memo1) \<Rightarrow> (True, memo1)
         | (False, memo1) \<Rightarrow> glob_loop pattern val i n j (k + 1) memo1)
      else (False, memo((i, j) \<mapsto> False)))"
  by pat_completeness auto
termination
  by (relation "inv_image (less_than <*lex*> less_than) (\<lambda>x. case x of
        Inl (p, v, i, j, m) \<Rightarrow> (length p - i, 0)
      | Inr (p, v, i, n, j, k, m) \<Rightarrow> (length p - n, Suc (length v - k)))")
     (auto simp: diff_less_mono2 skip_stars_greater)

declare glob_at.simps [simp del] glob_loop.simps [simp del]

definition permission_glob_matches :: "string \<Rightarrow> string \<Rightarrow> bool" where
  "permission_glob_matches pattern val = fst (glob_at pattern val 0 0 (\<lambda>_. None))"

section \<open>The language of a pattern\<close>

text \<open>
  A question mark stands for one character but the separator, a star for characters other than the
  separator, and two or more stars in a row for anything.
\<close>

inductive glob :: "string \<Rightarrow> string \<Rightarrow> bool" where
  glob_end: "glob [] []"
| glob_any: "c \<noteq> CHR ''/'' \<Longrightarrow> glob p v \<Longrightarrow> glob (CHR ''?'' # p) (c # v)"
| glob_star: "take 1 p \<noteq> ''*'' \<Longrightarrow> CHR ''/'' \<notin> set u \<Longrightarrow> glob p v \<Longrightarrow> glob (CHR ''*'' # p) (u @ v)"
| glob_stars: "take 1 p \<noteq> ''*'' \<Longrightarrow> 2 \<le> n \<Longrightarrow> glob p v \<Longrightarrow> glob (replicate n (CHR ''*'') @ p) (u @ v)"
| glob_literal: "c \<noteq> CHR ''?'' \<Longrightarrow> c \<noteq> CHR ''*'' \<Longrightarrow> glob p v \<Longrightarrow> glob (c # p) (c # v)"

inductive_simps glob_Nil: "glob [] v"

section \<open>The matcher decides the language\<close>

lemma replicate_Cons: "1 \<le> n \<Longrightarrow> replicate n x @ p = x # replicate (n - 1) x @ p"
  by (cases n) simp_all

lemma replicate_head: "1 \<le> n \<Longrightarrow> replicate n x @ p = c # q \<Longrightarrow> c = x"
  by (cases n) auto

lemma star_run:
  "take 1 p \<noteq> [x] \<Longrightarrow> takeWhile (\<lambda>c. c = x) (replicate n x @ p) = replicate n x \<and> dropWhile (\<lambda>c. c = x) (replicate n x @ p) = p"
  by (induction n) (cases p; simp)+

lemma glob_any_iff: "glob (CHR ''?'' # p) v \<longleftrightarrow> (\<exists>c w. v = c # w \<and> c \<noteq> CHR ''/'' \<and> glob p w)"
proof
  assume "glob (CHR ''?'' # p) v"
  then show "\<exists>c w. v = c # w \<and> c \<noteq> CHR ''/'' \<and> glob p w"
    by (rule glob.cases) (simp_all add: replicate_Cons)
qed (auto intro: glob.intros)

lemma glob_literal_iff:
  assumes "c \<noteq> CHR ''?''" "c \<noteq> CHR ''*''"
  shows "glob (c # p) v \<longleftrightarrow> (\<exists>w. v = c # w \<and> glob p w)"
proof
  assume "glob (c # p) v"
  then show "\<exists>w. v = c # w \<and> glob p w"
    by (rule glob.cases) (use assms in \<open>auto simp: replicate_Cons\<close>)
qed (use assms in \<open>auto intro: glob.intros\<close>)

lemma star_unique:
  assumes "take 1 p \<noteq> [x]" "take 1 q \<noteq> [x]" "replicate n x @ p = replicate m x @ q"
  shows "n = m \<and> p = q"
proof -
  have "replicate n x = replicate m x" "p = q"
    using star_run [OF assms(1), of n] star_run [OF assms(2), of m] unfolding assms(3) by auto
  then show ?thesis using arg_cong [of "replicate n x" "replicate m x" length] by simp
qed

lemma glob_stars_iff:
  assumes "1 \<le> n" "take 1 p \<noteq> ''*''"
  shows "glob (replicate n (CHR ''*'') @ p) v \<longleftrightarrow>
    (\<exists>u w. v = u @ w \<and> (1 < n \<or> CHR ''/'' \<notin> set u) \<and> glob p w)" (is "?l = ?r")
proof
  assume ?l
  then show ?r
  proof (rule glob.cases)
    fix p' u v'
    assume a: "replicate n (CHR ''*'') @ p = CHR ''*'' # p'" "v = u @ v'" "take 1 p' \<noteq> ''*''" "CHR ''/'' \<notin> set u" "glob p' v'"
    have "replicate n (CHR ''*'') @ p = replicate 1 (CHR ''*'') @ p'" using a(1) by simp
    then have "n = 1 \<and> p = p'" by (rule star_unique [OF assms(2) a(3)])
    then show ?r using a(2,4,5) by (intro exI [of _ u] exI [of _ v']) simp
  next
    fix p' m v' u
    assume a: "replicate n (CHR ''*'') @ p = replicate m (CHR ''*'') @ p'" "v = u @ v'" "take 1 p' \<noteq> ''*''" "2 \<le> m" "glob p' v'"
    from star_unique [OF assms(2) a(3,1)] show ?r using a(2,4,5) by (intro exI [of _ u] exI [of _ v']) simp
  next
    assume "replicate n (CHR ''*'') @ p = []"
    with assms(1) show ?r by simp
  next
    fix c p'
    assume a: "replicate n (CHR ''*'') @ p = c # p'" "c \<noteq> CHR ''*''"
    from replicate_head [OF assms(1) a(1)] a(2) show ?r by simp
  next
    fix p'
    assume "replicate n (CHR ''*'') @ p = CHR ''?'' # p'"
    from replicate_head [OF assms(1) this] show ?r by simp
  qed
next
  assume ?r
  then obtain u w where u: "v = u @ w" "1 < n \<or> CHR ''/'' \<notin> set u" "glob p w" by blast
  show ?l
  proof (cases "1 < n")
    case True
    with glob_stars [OF assms(2), of n w u] u show ?thesis by simp
  next
    case False
    with assms(1) have "n = 1" by simp
    with glob_star [OF assms(2), of u w] u show ?thesis by simp
  qed
qed

lemma takeWhile_run:
  "xs = replicate (length (takeWhile (\<lambda>c. c = x) xs)) x @ drop (length (takeWhile (\<lambda>c. c = x) xs)) xs \<and>
     take 1 (drop (length (takeWhile (\<lambda>c. c = x) xs)) xs) \<noteq> [x]"
  by (induction xs) auto

lemma stars_at:
  assumes "i < length p" "p ! i = CHR ''*''"
  shows "drop i p = replicate (skip_stars p i - i) (CHR ''*'') @ drop (skip_stars p i) p"
    and "take 1 (drop (skip_stars p i) p) \<noteq> ''*''"
proof -
  have "drop (length (takeWhile (\<lambda>c. c = CHR ''*'') (drop i p))) (drop i p) = drop (skip_stars p i) p"
    by (simp add: skip_stars_def add.commute)
  moreover have "length (takeWhile (\<lambda>c. c = CHR ''*'') (drop i p)) = skip_stars p i - i"
    by (simp add: skip_stars_def)
  moreover note takeWhile_run [of "drop i p" "CHR ''*''"]
  ultimately show "drop i p = replicate (skip_stars p i - i) (CHR ''*'') @ drop (skip_stars p i) p"
    "take 1 (drop (skip_stars p i) p) \<noteq> ''*''" by argo+
qed

text \<open>What the inner loop still looks for, from the value index \<open>k\<close> on.\<close>

definition covers :: "bool \<Rightarrow> string \<Rightarrow> string \<Rightarrow> nat \<Rightarrow> bool" where
  "covers crosses p v k \<longleftrightarrow> (\<exists>u w. drop k v = u @ w \<and> u \<noteq> [] \<and> (crosses \<or> CHR ''/'' \<notin> set u) \<and> glob p w)"

lemma covers_step:
  "covers crosses p v k \<longleftrightarrow> k < length v \<and> (crosses \<or> v ! k \<noteq> CHR ''/'') \<and> (glob p (drop (k + 1) v) \<or> covers crosses p v (k + 1))"
proof (cases "k < length v")
  case True
  then have d: "drop k v = v ! k # drop (k + 1) v" using Cons_nth_drop_Suc [OF True] by simp
  have "(\<exists>u w. v ! k # drop (k + 1) v = u @ w \<and> u \<noteq> [] \<and> (crosses \<or> CHR ''/'' \<notin> set u) \<and> glob p w) \<longleftrightarrow>
      (crosses \<or> v ! k \<noteq> CHR ''/'') \<and> (\<exists>u w. drop (k + 1) v = u @ w \<and> (crosses \<or> CHR ''/'' \<notin> set u) \<and> glob p w)"
    (is "?a \<longleftrightarrow> ?b")
  proof
    assume ?a
    then obtain u w where u: "v ! k # drop (k + 1) v = u @ w" "u \<noteq> []" "crosses \<or> CHR ''/'' \<notin> set u" "glob p w" by blast
    then obtain u' where "u = v ! k # u'" "drop (k + 1) v = u' @ w" by (cases u) auto
    with u show ?b by auto
  next
    assume ?b
    then obtain u w where "crosses \<or> v ! k \<noteq> CHR ''/''" "drop (k + 1) v = u @ w" "crosses \<or> CHR ''/'' \<notin> set u" "glob p w" by blast
    then show ?a by (intro exI [of _ "v ! k # u"] exI [of _ w]) auto
  qed
  moreover have "(\<exists>u w. drop (k + 1) v = u @ w \<and> (crosses \<or> CHR ''/'' \<notin> set u) \<and> glob p w) \<longleftrightarrow>
      glob p (drop (k + 1) v) \<or> covers crosses p v (k + 1)"
    (is "?c \<longleftrightarrow> ?d")
  proof
    assume ?c
    then obtain u w where u: "drop (k + 1) v = u @ w" "crosses \<or> CHR ''/'' \<notin> set u" "glob p w" by blast
    then show ?d by (cases "u = []") (auto simp: covers_def)
  next
    assume ?d
    then show ?c
    proof
      assume "glob p (drop (k + 1) v)"
      then show ?c by (intro exI [of _ "[]"] exI [of _ "drop (k + 1) v"]) simp
    qed (auto simp: covers_def)
  qed
  ultimately show ?thesis using True unfolding covers_def d by simp
qed (simp add: covers_def)

definition memo_sound :: "string \<Rightarrow> string \<Rightarrow> glob_memo \<Rightarrow> bool" where
  "memo_sound p v m \<longleftrightarrow> (\<forall>i j r. m (i, j) = Some r \<longrightarrow> r = glob (drop i p) (drop j v))"

lemma memo_sound_upd: "memo_sound p v m \<Longrightarrow> r = glob (drop i p) (drop j v) \<Longrightarrow> memo_sound p v (m((i, j) \<mapsto> r))"
  by (auto simp: memo_sound_def)

lemma glob_star_at:
  assumes "i < length p" "p ! i = CHR ''*''"
  shows "glob (drop i p) (drop j v) \<longleftrightarrow>
    glob (drop (skip_stars p i) p) (drop j v) \<or> covers (1 < skip_stars p i - i) (drop (skip_stars p i) p) v j"
proof -
  have "1 \<le> skip_stars p i - i" using skip_stars_greater(1) [OF assms] by simp
  note iff = glob_stars_iff [OF this stars_at(2) [OF assms], of "drop j v", folded stars_at(1) [OF assms]]
  show ?thesis
  proof
    assume "glob (drop i p) (drop j v)"
    then obtain u w where u: "drop j v = u @ w" "1 < skip_stars p i - i \<or> CHR ''/'' \<notin> set u" "glob (drop (skip_stars p i) p) w"
      unfolding iff by blast
    then show "glob (drop (skip_stars p i) p) (drop j v) \<or> covers (1 < skip_stars p i - i) (drop (skip_stars p i) p) v j"
      by (cases "u = []") (auto simp: covers_def)
  next
    assume "glob (drop (skip_stars p i) p) (drop j v) \<or> covers (1 < skip_stars p i - i) (drop (skip_stars p i) p) v j"
    then show "glob (drop i p) (drop j v)"
    proof
      assume "glob (drop (skip_stars p i) p) (drop j v)"
      then show ?thesis unfolding iff by (intro exI [of _ "[]"] exI [of _ "drop j v"]) simp
    next
      assume "covers (1 < skip_stars p i - i) (drop (skip_stars p i) p) v j"
      then show ?thesis unfolding iff covers_def by blast
    qed
  qed
qed

lemma glob_question_at:
  assumes "i < length p" "p ! i = CHR ''?''"
  shows "glob (drop i p) (drop j v) \<longleftrightarrow> j < length v \<and> v ! j \<noteq> CHR ''/'' \<and> glob (drop (i + 1) p) (drop (j + 1) v)"
proof -
  have "drop i p = CHR ''?'' # drop (i + 1) p" using Cons_nth_drop_Suc [OF assms(1)] assms(2) by simp
  moreover have "drop j v = v ! j # drop (j + 1) v" if "j < length v" using Cons_nth_drop_Suc [OF that] by simp
  ultimately show ?thesis by (cases "j < length v") (simp_all add: glob_any_iff)
qed

lemma glob_literal_at:
  assumes "i < length p" "p ! i \<noteq> CHR ''?''" "p ! i \<noteq> CHR ''*''"
  shows "glob (drop i p) (drop j v) \<longleftrightarrow> j < length v \<and> p ! i = v ! j \<and> glob (drop (i + 1) p) (drop (j + 1) v)"
proof -
  have "drop i p = p ! i # drop (i + 1) p" using Cons_nth_drop_Suc [OF assms(1)] by simp
  moreover have "drop j v = v ! j # drop (j + 1) v" if "j < length v" using Cons_nth_drop_Suc [OF that] by simp
  ultimately show ?thesis by (cases "j < length v") (auto simp: glob_literal_iff [OF assms(2,3)])
qed


text \<open>One step of the search, given that the calls it makes are right.\<close>

definition right_at :: "string \<Rightarrow> string \<Rightarrow> nat \<Rightarrow> nat \<Rightarrow> bool \<times> glob_memo \<Rightarrow> bool" where
  "right_at p v i j r \<longleftrightarrow> fst r = glob (drop i p) (drop j v) \<and> memo_sound p v (snd r)"

lemma right_upd: "memo_sound p v m \<Longrightarrow> r = glob (drop i p) (drop j v) \<Longrightarrow> right_at p v i j (r, m((i, j) \<mapsto> r))"
  by (simp add: right_at_def memo_sound_upd)

lemma right_record:
  "right_at p v i' j' x \<Longrightarrow> glob (drop i p) (drop j v) = glob (drop i' p) (drop j' v) \<Longrightarrow>
     right_at p v i j (case x of (r, m) \<Rightarrow> (r, m((i, j) \<mapsto> r)))"
  by (cases x) (auto simp: right_at_def memo_sound_upd)

lemma right_end:
  assumes "m (i, j) = None" "memo_sound p v m" "length p \<le> i" "j \<le> length v"
  shows "right_at p v i j (glob_at p v i j m)"
proof -
  have "glob_at p v i j m = (j = length v, m((i, j) \<mapsto> (j = length v)))"
    using assms(1,3) by (subst glob_at.simps) simp
  moreover have "(j = length v) = glob (drop i p) (drop j v)" using assms(3,4) by (auto simp: glob_Nil)
  ultimately show ?thesis using right_upd [OF assms(2)] by simp
qed

lemma right_question:
  assumes "m (i, j) = None" "memo_sound p v m" "i < length p" "p ! i = CHR ''?''"
    and "j < length v \<and> v ! j \<noteq> CHR ''/'' \<Longrightarrow> right_at p v (i + 1) (j + 1) (glob_at p v (i + 1) (j + 1) m)"
  shows "right_at p v i j (glob_at p v i j m)"
proof (cases "j < length v \<and> v ! j \<noteq> CHR ''/''")
  case True
  with assms have "glob_at p v i j m = (case glob_at p v (i + 1) (j + 1) m of (r, m1) \<Rightarrow> (r, m1((i, j) \<mapsto> r)))"
    by (subst glob_at.simps) simp
  with right_record [OF assms(5) [OF True], of i j] glob_question_at [OF assms(3,4), of j v] True show ?thesis by simp
next
  case False
  with assms have "glob_at p v i j m = (False, m((i, j) \<mapsto> False))" by (subst glob_at.simps) auto
  with right_upd [OF assms(2), of False i j] glob_question_at [OF assms(3,4), of j v] False show ?thesis by auto
qed

lemma right_literal:
  assumes "m (i, j) = None" "memo_sound p v m" "i < length p" "p ! i \<noteq> CHR ''?''" "p ! i \<noteq> CHR ''*''"
    and "j < length v \<and> p ! i = v ! j \<Longrightarrow> right_at p v (i + 1) (j + 1) (glob_at p v (i + 1) (j + 1) m)"
  shows "right_at p v i j (glob_at p v i j m)"
proof (cases "j < length v \<and> p ! i = v ! j")
  case True
  with assms have "glob_at p v i j m = (case glob_at p v (i + 1) (j + 1) m of (r, m1) \<Rightarrow> (r, m1((i, j) \<mapsto> r)))"
    by (subst glob_at.simps) simp
  with right_record [OF assms(6) [OF True], of i j] glob_literal_at [OF assms(3-5), of j v] True show ?thesis by simp
next
  case False
  with assms have "glob_at p v i j m = (False, m((i, j) \<mapsto> False))" by (subst glob_at.simps) auto
  with right_upd [OF assms(2), of False i j] glob_literal_at [OF assms(3-5), of j v] False show ?thesis by auto
qed

lemma right_star:
  assumes "m (i, j) = None" "i < length p" "p ! i = CHR ''*''"
    and "right_at p v (skip_stars p i) j (glob_at p v (skip_stars p i) j m)"
    and "\<And>m1. glob_at p v (skip_stars p i) j m = (False, m1) \<Longrightarrow> memo_sound p v m1 \<Longrightarrow>
      glob (drop i p) (drop j v) = covers (1 < skip_stars p i - i) (drop (skip_stars p i) p) v j \<Longrightarrow>
      right_at p v i j (glob_loop p v i (skip_stars p i) j j m1)"
  shows "right_at p v i j (glob_at p v i j m)"
proof -
  obtain r m1 where r: "glob_at p v (skip_stars p i) j m = (r, m1)" by (cases "glob_at p v (skip_stars p i) j m")
  with assms(4) have IH: "r = glob (drop (skip_stars p i) p) (drop j v)" "memo_sound p v m1" by (simp_all add: right_at_def)
  show ?thesis
  proof (cases r)
    case True
    with assms(1-3) r have "glob_at p v i j m = (True, m1((i, j) \<mapsto> True))" by (subst glob_at.simps) simp
    with right_upd [OF IH(2), of True i j] True IH glob_star_at [OF assms(2,3)] show ?thesis by simp
  next
    case False
    with assms(1-3) r have "glob_at p v i j m = glob_loop p v i (skip_stars p i) j j m1" by (subst glob_at.simps) simp
    with assms(5) [of m1] r False IH glob_star_at [OF assms(2,3)] show ?thesis by simp
  qed
qed

lemma glob_at_correct:
  "memo_sound p v m \<Longrightarrow> i \<le> length p \<Longrightarrow> j \<le> length v \<Longrightarrow> right_at p v i j (glob_at p v i j m)"
  "memo_sound p v m \<Longrightarrow> n \<le> length p \<Longrightarrow> k \<le> length v \<Longrightarrow>
     glob (drop i p) (drop j v) = covers (1 < n - i) (drop n p) v k \<Longrightarrow> right_at p v i j (glob_loop p v i n j k m)"
proof (induction p v i j m and p v i n j k m rule: glob_at_glob_loop.induct)
  case (1 p v i j m)
  show ?case
  proof (cases "m (i, j)")
    case (Some r)
    with "1.prems"(1) show ?thesis by (subst glob_at.simps) (simp add: memo_sound_def right_at_def)
  next
    case None
    consider "length p \<le> i" | "i < length p" "p ! i = CHR ''?''" | "i < length p" "p ! i = CHR ''*''"
      | "i < length p" "p ! i \<noteq> CHR ''?''" "p ! i \<noteq> CHR ''*''" by fastforce
    then show ?thesis
    proof cases
      case 1
      show ?thesis by (rule right_end [OF None "1.prems"(1) 1 "1.prems"(3)])
    next
      case 2
      show ?thesis by (rule right_question [OF None "1.prems"(1) 2]) (use 2 "1.IH"(1) [OF None] "1.prems" in simp)
    next
      case 3
      show ?thesis
        by (rule right_star [of m i j p v, OF None 3]) (use 3 "1.IH"(2,3) [OF None] "1.prems" skip_stars_greater(2) [OF 3] in auto)
    next
      case 4
      show ?thesis by (rule right_literal [OF None "1.prems"(1) 4]) (use 4 "1.IH"(4) [OF None] "1.prems" in simp)
    qed
  qed
next
  case (2 p v i n j k m)
  note step = covers_step [of "1 < n - i" "drop n p" v k]
  show ?case
  proof (cases "k < length v \<and> (1 < n - i \<or> v ! k \<noteq> CHR ''/'')")
    case True
    obtain r m1 where r: "glob_at p v n (k + 1) m = (r, m1)" by (cases "glob_at p v n (k + 1) m")
    have IH: "r = glob (drop n p) (drop (k + 1) v)" "memo_sound p v m1"
      using "2.IH"(1) [OF True] True "2.prems" r by (simp_all add: right_at_def)
    show ?thesis
      using True r IH step "2.prems" "2.IH"(2) [OF True r [symmetric]]
      by (cases r; subst glob_loop.simps) (simp_all add: right_at_def)
  next
    case False
    with step "2.prems" right_upd [of p v m False i j] show ?thesis by (subst glob_loop.simps) auto
  qed
qed

section \<open>Properties\<close>

text \<open>
  (C5) The memoised search for a match accepts exactly the language of the pattern: a question mark stands
  for one character but the separator, a star for any characters but the separator, two or more stars for
  anything.
\<close>

theorem permission_glob_correct: "permission_glob_matches pattern val \<longleftrightarrow> glob pattern val"
  using glob_at_correct(1) [of pattern val "\<lambda>_. None" 0 0]
  by (simp add: permission_glob_matches_def right_at_def memo_sound_def)

end
