(* ===== verification/Permissions.thy ===== *)
theory Permissions
  imports Vfs_Store Permission_Glob
begin

text \<open>
  Access policy of \<open>crates/kernel/src/permissions.rs\<close>: requests and decisions, the checks on commands,
  network and environment, and \<open>PermissionedFileSystem\<close>, which asks the policy about the real path behind
  every path before it passes an operation on.  A policy is a set of functions supplied by the embedder;
  the wrapped file system is \<open>MemoryFileSystem\<close>.
\<close>

section \<open>Decisions and requests\<close>

record permission_decision =
  pd_allow :: bool
  pd_reason :: "string option"

definition allow_decision :: permission_decision where
  "allow_decision = \<lparr>pd_allow = True, pd_reason = None\<rparr>"

definition deny_decision :: "string \<Rightarrow> permission_decision" where
  "deny_decision reason = \<lparr>pd_allow = False, pd_reason = Some reason\<rparr>"

record permission_error =
  perr_code :: string
  perr_message :: string

definition access_denied :: "string \<Rightarrow> string option \<Rightarrow> permission_error" where
  "access_denied subject reason =
     \<lparr>perr_code = ''EACCES'',
      perr_message = (case reason of
         Some r \<Rightarrow> ''permission denied, '' @ subject @ '': '' @ r
       | None \<Rightarrow> ''permission denied, '' @ subject)\<rparr>"

datatype fs_operation =
    Fs_read | Fs_write | Fs_mkdir | Fs_create_dir | Fs_read_dir | Fs_stat | Fs_remove | Fs_rename | Fs_exists
  | Fs_symlink | Fs_read_link | Fs_link | Fs_chmod | Fs_chown | Fs_utimes | Fs_truncate | Fs_mount_sensitive

fun as_str :: "fs_operation \<Rightarrow> string" where
  "as_str Fs_read = ''read''"
| "as_str Fs_write = ''write''"
| "as_str Fs_mkdir = ''mkdir''"
| "as_str Fs_create_dir = ''createDir''"
| "as_str Fs_read_dir = ''readdir''"
| "as_str Fs_stat = ''stat''"
| "as_str Fs_remove = ''rm''"
| "as_str Fs_rename = ''rename''"
| "as_str Fs_exists = ''exists''"
| "as_str Fs_symlink = ''symlink''"
| "as_str Fs_read_link = ''readlink''"
| "as_str Fs_link = ''link''"
| "as_str Fs_chmod = ''chmod''"
| "as_str Fs_chown = ''chown''"
| "as_str Fs_utimes = ''utimes''"
| "as_str Fs_truncate = ''truncate''"
| "as_str Fs_mount_sensitive = ''mount''"

record fs_access_request =
  fr_vm_id :: string
  fr_op :: fs_operation
  fr_path :: string

datatype network_operation = Net_fetch | Net_http | Net_dns | Net_listen

record network_access_request =
  nr_vm_id :: string
  nr_op :: network_operation
  nr_resource :: string

record command_access_request =
  cr_vm_id :: string
  cr_command :: string
  cr_args :: "string list"
  cr_cwd :: "string option"
  cr_env :: "(string, string) btreemap"

datatype environment_operation = Env_read | Env_write

record env_access_request =
  er_vm_id :: string
  er_op :: environment_operation
  er_key :: string
  er_value :: "string option"

record permissions =
  pm_filesystem :: "(fs_access_request \<Rightarrow> permission_decision) option"
  pm_network :: "(network_access_request \<Rightarrow> permission_decision) option"
  pm_child_process :: "(command_access_request \<Rightarrow> permission_decision) option"
  pm_environment :: "(env_access_request \<Rightarrow> permission_decision) option"

definition allow_all :: permissions where
  "allow_all =
     \<lparr>pm_filesystem = Some (\<lambda>_. allow_decision), pm_network = Some (\<lambda>_. allow_decision),
      pm_child_process = Some (\<lambda>_. allow_decision), pm_environment = Some (\<lambda>_. allow_decision)\<rparr>"

section \<open>Environment, commands and network\<close>

definition filter_env :: "string \<Rightarrow> (string, string) btreemap \<Rightarrow> permissions \<Rightarrow> (string, string) btreemap" where
  "filter_env vm_id env perms =
     (case pm_environment perms of
        None \<Rightarrow> bt_empty
      | Some check \<Rightarrow>
          bt_filter (\<lambda>key v. pd_allow (check \<lparr>er_vm_id = vm_id, er_op = Env_read, er_key = key, er_value = Some v\<rparr>)) env)"

definition check_command_execution ::
  "string \<Rightarrow> permissions \<Rightarrow> string \<Rightarrow> string list \<Rightarrow> string option \<Rightarrow> (string, string) btreemap \<Rightarrow> permission_error + unit" where
  "check_command_execution vm_id perms command args cwd env =
     (case pm_child_process perms of
        None \<Rightarrow> Inr ()
      | Some check \<Rightarrow>
          let decision = check \<lparr>cr_vm_id = vm_id, cr_command = command, cr_args = args, cr_cwd = cwd, cr_env = env\<rparr>
          in if pd_allow decision then Inr ()
             else Inl (access_denied (''spawn '' @ quoted command) (pd_reason decision)))"

definition check_network_access ::
  "string \<Rightarrow> permissions \<Rightarrow> network_operation \<Rightarrow> string \<Rightarrow> permission_error + unit" where
  "check_network_access vm_id perms op resource =
     (case pm_network perms of
        None \<Rightarrow> Inr ()
      | Some check \<Rightarrow>
          let decision = check \<lparr>nr_vm_id = vm_id, nr_op = op, nr_resource = resource\<rparr>
          in if pd_allow decision then Inr () else Inl (access_denied resource (pd_reason decision)))"

section \<open>The checked file system\<close>

record permissioned_fs =
  pf_inner :: memory_fs
  pf_vm_id :: string
  pf_permissions :: permissions

definition new_permissioned_fs :: "memory_fs \<Rightarrow> string \<Rightarrow> permissions \<Rightarrow> permissioned_fs" where
  "new_permissioned_fs fs vm_id perms = \<lparr>pf_inner = fs, pf_vm_id = vm_id, pf_permissions = perms\<rparr>"

definition check_fs :: "permissioned_fs \<Rightarrow> fs_operation \<Rightarrow> string \<Rightarrow> vfs_error + unit" where
  "check_fs pf op path =
     and_then (validate_path path) (\<lambda>_.
       case pm_filesystem (pf_permissions pf) of
         None \<Rightarrow> Inl (Access_denied (as_str op) path None)
       | Some check \<Rightarrow>
           let decision = check \<lparr>fr_vm_id = pf_vm_id pf, fr_op = op, fr_path = path\<rparr>
           in if pd_allow decision then Inr () else Inl (Access_denied (as_str op) path (pd_reason decision)))"

definition resolved_existing_path :: "permissioned_fs \<Rightarrow> string \<Rightarrow> vfs_error + string" where
  "resolved_existing_path pf path = realpath (pf_inner pf) path"

text \<open>
  The loop that climbs from the parent to the nearest existing ancestor.  The candidate is kept as its
  components, last one first; the result is the real path of the ancestor and the segments climbed over.
\<close>

fun climb :: "memory_fs \<Rightarrow> string list \<Rightarrow> string list \<Rightarrow> vfs_error + string \<times> string list" where
  "climb fs [] unresolved =
     (case realpath fs ''/'' of
        Inr resolved \<Rightarrow> Inr (resolved, unresolved)
      | Inl e \<Rightarrow> if vfs_error_code e \<in> {''ENOENT'', ''ENOTDIR''} then Inr (''/'', unresolved) else Inl e)"
| "climb fs (c # cs) unresolved =
     (case realpath fs (abs_path (rev (c # cs))) of
        Inr resolved \<Rightarrow> Inr (resolved, unresolved)
      | Inl e \<Rightarrow> if vfs_error_code e \<in> {''ENOENT'', ''ENOTDIR''} then climb fs cs (unresolved @ [c]) else Inl e)"

definition resolved_destination_path :: "permissioned_fs \<Rightarrow> string \<Rightarrow> vfs_error + string" where
  "resolved_destination_path pf path =
     (let normalized = normalize_path path; parts = path_parts normalized
      in if normalized = ''/'' then Inr normalized
         else
           and_then (climb (pf_inner pf) (rev (butlast parts)) []) (\<lambda>(resolved_parent, unresolved).
             Inr (child_path (fold (\<lambda>segment resolved. child_path resolved segment) (rev unresolved) resolved_parent)
                   (last parts))))"

definition permission_subject :: "permissioned_fs \<Rightarrow> fs_operation \<Rightarrow> string \<Rightarrow> vfs_error + string" where
  "permission_subject pf op path =
     and_then (validate_path path) (\<lambda>_.
       if op \<in> {Fs_read, Fs_read_dir, Fs_stat, Fs_read_link, Fs_chmod, Fs_chown, Fs_utimes, Fs_truncate} then
         resolved_existing_path pf path
       else if op \<in> {Fs_exists, Fs_write} then
         (case resolved_existing_path pf path of Inr q \<Rightarrow> Inr q | Inl _ \<Rightarrow> resolved_destination_path pf path)
       else resolved_destination_path pf path)"

definition check_subject :: "permissioned_fs \<Rightarrow> fs_operation \<Rightarrow> string \<Rightarrow> vfs_error + unit" where
  "check_subject pf op path = and_then (permission_subject pf op path) (check_fs pf op)"

definition check_existing_subject :: "permissioned_fs \<Rightarrow> fs_operation \<Rightarrow> string \<Rightarrow> vfs_error + unit" where
  "check_existing_subject pf op path =
     and_then (validate_path path) (\<lambda>_. and_then (resolved_existing_path pf path) (check_fs pf op))"

definition check_destination_subject :: "permissioned_fs \<Rightarrow> fs_operation \<Rightarrow> string \<Rightarrow> vfs_error + unit" where
  "check_destination_subject pf op path =
     and_then (validate_path path) (\<lambda>_. and_then (resolved_destination_path pf path) (check_fs pf op))"

definition check_path :: "permissioned_fs \<Rightarrow> fs_operation \<Rightarrow> string \<Rightarrow> vfs_error + unit" where
  "check_path pf op path = check_subject pf op path"

definition check_virtual_path :: "permissioned_fs \<Rightarrow> fs_operation \<Rightarrow> string \<Rightarrow> vfs_error + unit" where
  "check_virtual_path pf op path = check_fs pf op path"

definition perm_try_exists :: "permissioned_fs \<Rightarrow> string \<Rightarrow> vfs_error + bool" where
  "perm_try_exists pf path =
     (case check_subject pf Fs_exists path of
        Inl e \<Rightarrow> if vfs_error_code e \<in> {''EACCES'', ''ENOENT'', ''ENOTDIR'', ''ELOOP''} then Inr False else Inl e
      | Inr _ \<Rightarrow> Inr (exists_path (pf_inner pf) path))"

section \<open>Operations\<close>

text \<open>A check, and then the operation of the wrapped file system.\<close>

definition checked :: "(vfs_error + unit) \<Rightarrow> (memory_fs \<Rightarrow> (vfs_error + 'a) \<times> memory_fs) \<Rightarrow>
    permissioned_fs \<Rightarrow> (vfs_error + 'a) \<times> permissioned_fs" where
  "checked check operation pf =
     (case check of
        Inl e \<Rightarrow> (Inl e, pf)
      | Inr _ \<Rightarrow> (case operation (pf_inner pf) of (r, fs) \<Rightarrow> (r, pf\<lparr>pf_inner := fs\<rparr>)))"

definition perm_read_file where
  "perm_read_file path now pf = checked (check_subject pf Fs_read path) (read_file path now) pf"

definition perm_read_dir where
  "perm_read_dir path now pf = checked (check_subject pf Fs_read_dir path) (read_dir path now) pf"

definition perm_read_dir_limited where
  "perm_read_dir_limited path limit now pf =
     checked (check_subject pf Fs_read_dir path) (read_dir_limited path limit now) pf"

definition perm_read_dir_with_types where
  "perm_read_dir_with_types path now pf =
     checked (check_subject pf Fs_read_dir path) (read_dir_with_types path now) pf"

definition perm_write_file where
  "perm_write_file path data now pf = checked (check_subject pf Fs_write path) (write_file path data now) pf"

definition perm_create_file_exclusive where
  "perm_create_file_exclusive path data now pf =
     checked (check_subject pf Fs_write path) (create_file_exclusive path data now) pf"

definition perm_append_file where
  "perm_append_file path data now pf = checked (check_subject pf Fs_write path) (append_file path data now) pf"

definition perm_create_dir where
  "perm_create_dir path now pf = checked (check_subject pf Fs_create_dir path) (create_dir path now) pf"

definition perm_mkdir where
  "perm_mkdir path recursive now pf = checked (check_subject pf Fs_mkdir path) (mkdir path recursive now) pf"

definition perm_exists :: "permissioned_fs \<Rightarrow> string \<Rightarrow> bool" where
  "perm_exists pf path = (case perm_try_exists pf path of Inl _ \<Rightarrow> False | Inr b \<Rightarrow> b)"

definition perm_stat where
  "perm_stat path pf = checked (check_subject pf Fs_stat path) (\<lambda>fs. (stat fs path, fs)) pf"

definition perm_remove_file where
  "perm_remove_file path now pf = checked (check_subject pf Fs_remove path) (remove_file path now) pf"

definition perm_remove_dir where
  "perm_remove_dir path pf = checked (check_subject pf Fs_remove path) (remove_dir path) pf"

definition perm_rename where
  "perm_rename old_path new_path now pf =
     checked (and_then (check_subject pf Fs_rename old_path) (\<lambda>_. check_subject pf Fs_rename new_path))
       (rename old_path new_path now) pf"

definition perm_realpath where
  "perm_realpath path pf = checked (check_subject pf Fs_read path) (\<lambda>fs. (realpath fs path, fs)) pf"

definition perm_symlink where
  "perm_symlink target link_path now pf =
     checked (check_subject pf Fs_symlink link_path) (symlink target link_path now) pf"

definition perm_read_link where
  "perm_read_link path pf =
     checked (check_fs pf Fs_read_link (normalize_path path)) (\<lambda>fs. (read_link fs path, fs)) pf"

definition perm_lstat where
  "perm_lstat path pf = checked (check_fs pf Fs_stat (normalize_path path)) (\<lambda>fs. (lstat fs path, fs)) pf"

definition perm_link where
  "perm_link old_path new_path now pf =
     checked (and_then (check_existing_subject pf Fs_link old_path) (\<lambda>_. check_destination_subject pf Fs_link new_path))
       (link_file old_path new_path now) pf"

definition perm_chmod where
  "perm_chmod path mode now pf = checked (check_subject pf Fs_chmod path) (chmod path mode now) pf"

definition perm_chown where
  "perm_chown path uid gid now pf = checked (check_subject pf Fs_chown path) (chown path uid gid now) pf"

definition perm_utimes where
  "perm_utimes path atime_ms mtime_ms now pf =
     checked (check_subject pf Fs_utimes path) (utimes path atime_ms mtime_ms now) pf"

definition perm_utimes_spec where
  "perm_utimes_spec path atime mtime follow now pf =
     checked (check_subject pf Fs_utimes path) (utimes_spec path atime mtime follow now) pf"

definition perm_truncate where
  "perm_truncate path len now pf = checked (check_subject pf Fs_truncate path) (truncate_file path len now) pf"

definition perm_pread where
  "perm_pread path offset len now pf = checked (check_subject pf Fs_read path) (pread path offset len now) pf"

text \<open>\<open>pwrite\<close> is the default method of the trait, over the checked reads and writes.\<close>

definition perm_pwrite where
  "perm_pwrite path content offset now =
     default_pwrite (\<lambda>p. perm_read_file p now) (\<lambda>p c. perm_write_file p c now) path content offset"

section \<open>Paths and their real paths\<close>

definition allowed :: "permissioned_fs \<Rightarrow> fs_operation \<Rightarrow> string \<Rightarrow> bool" where
  "allowed pf op path \<longleftrightarrow>
     (\<exists>check. pm_filesystem (pf_permissions pf) = Some check \<and>
        pd_allow (check \<lparr>fr_vm_id = pf_vm_id pf, fr_op = op, fr_path = path\<rparr>))"

lemma check_fs_allowed: "check_fs pf op path = Inr () \<Longrightarrow> allowed pf op path"
  by (auto simp: check_fs_def allowed_def err_simps Let_def split: option.splits if_splits)

lemma realpath_access:
  assumes "realpath fs path = Inr q"
  shows "\<exists>ino. bt_get (fs_path_index fs) q = Some ino \<and> (\<forall>opn. inode_id_for_existing_path fs path opn True = Inr ino)"
proof -
  from assms have r: "resolve_path_with_options fs path True 0 = Inr q" "bt_contains (fs_path_index fs) q"
    by (auto simp: realpath_def resolve_path_def err_simps split: if_splits)
  with resolve_normalized [OF r(1)] show ?thesis
    by (auto simp: bt_contains_iff inode_id_for_existing_path_def resolve_path_def)
qed

lemma check_existing:
  assumes "check_subject pf op path = Inr ()"
    and "op \<in> {Fs_read, Fs_read_dir, Fs_stat, Fs_read_link, Fs_chmod, Fs_chown, Fs_utimes, Fs_truncate}"
  shows "\<exists>q. allowed pf op q \<and> realpath (pf_inner pf) path = Inr q"
  using assms check_fs_allowed [of pf op]
  by (auto simp: check_subject_def permission_subject_def resolved_existing_path_def err_simps)

lemma check_write:
  assumes "check_subject pf Fs_write path = Inr ()" "realpath (pf_inner pf) path = Inr q"
  shows "allowed pf Fs_write q"
  using assms check_fs_allowed [of pf Fs_write]
  by (auto simp: check_subject_def permission_subject_def resolved_existing_path_def err_simps)

text \<open>
  Resolving a path up to its last component goes the same way as resolving its parent; only the validity of
  the text of a link's target can make the second fail alone.
\<close>

lemma components_normalize [simp]: "components (normalize_path p) = components p"
  by (simp add: normalize_path_eq components_proper)

lemma join_with_empty: "proper_list ws \<Longrightarrow> join_with ''/'' ws = '''' \<longleftrightarrow> ws = []"
  by (cases ws rule: list.exhaust; cases "tl ws") (auto simp: proper_def)

lemma components_redirect:
  "proper_list rest \<Longrightarrow> components (redirect_path candidate target rest) = components (redirect_path candidate target []) @ rest"
  using components_join_proper [of rest] join_with_empty [of rest] by (simp add: redirect_path_def Let_def)

lemma walk_parent:
  assumes "resolve_walk fs False (abs_path pre) (cs @ [c]) = Inr w" "proper_list pre" "proper_list (cs @ [c])"
  shows "(\<exists>candidate target rest. proper_list rest \<and>
        resolve_walk fs True (abs_path pre) cs = Inr (Redirect (redirect_path candidate target rest)) \<and>
        w = Redirect (redirect_path candidate target (rest @ [c]))) \<or>
      resolve_walk fs True (abs_path pre) cs = Inr (Resolved (abs_path (pre @ cs))) \<and> w = Resolved (abs_path (pre @ cs @ [c]))"
  using assms
proof (induction cs arbitrary: pre)
  case Nil
  then show ?case by (auto simp: Let_def split: option.splits inode_kind.splits)
next
  case (Cons d cs)
  have ne: "cs @ [c] \<noteq> []" by simp
  have step: ?case if "resolve_walk fs False (abs_path (pre @ [d])) (cs @ [c]) = Inr w"
    "resolve_walk fs True (abs_path pre) (d # cs) = resolve_walk fs True (abs_path (pre @ [d])) cs"
    using Cons.IH [OF that(1)] Cons.prems(2,3) that(2) by simp
  show ?case
  proof (cases "inode_at fs (abs_path (pre @ [d]))")
    case None
    with Cons.prems show ?thesis
      by (intro step) (auto simp: inode_at_def Let_def ne split: option.splits)
  next
    case (Some i)
    then obtain ino where ino: "lookup_path fs (pre @ [d]) = Some ino" "bt_get (fs_inodes fs) ino = Some i"
      by (auto simp: inode_at_def split: option.splits)
    show ?thesis
    proof (cases "in_kind i")
      case (Symbolic_link target)
      with ino Cons.prems have "w = Redirect (redirect_path (abs_path (pre @ [d])) target (cs @ [c]))"
        "resolve_walk fs True (abs_path pre) (d # cs) = Inr (Redirect (redirect_path (abs_path (pre @ [d])) target cs))"
        by (simp_all add: Let_def)
      with Cons.prems(3) show ?thesis by (intro disjI1 exI conjI) auto
    next
      case Directory
      with ino Cons.prems show ?thesis by (intro step) (simp_all add: Let_def)
    qed (use ino Cons.prems in \<open>simp add: Let_def\<close>)
  qed
qed

lemma validate_error_code:
  "validate_path p = Inl e \<Longrightarrow> vfs_error_code e \<noteq> ''ENOENT'' \<and> vfs_error_code e \<noteq> ''ENOTDIR''"
  by (auto simp: validate_path_def split: option.splits if_splits)

lemma resolve_parent:
  assumes "resolve_path_with_options fs path False depth = Inr q" "components path = cs @ [c]" "components parent = cs"
  shows "case resolve_path_with_options fs parent True depth of
      Inr r \<Rightarrow> \<exists>ds. r = abs_path ds \<and> proper_list ds \<and> q = abs_path (ds @ [c])
    | Inl e \<Rightarrow> vfs_error_code e \<noteq> ''ENOENT'' \<and> vfs_error_code e \<noteq> ''ENOTDIR''"
  using assms
proof (induction "MAX_SYMLINK_DEPTH + 1 - depth" arbitrary: path parent depth cs)
  case 0
  then show ?case by (simp add: resolve_path_with_options.simps [of fs path] err_simps split: if_splits)
next
  case (Suc n)
  let ?res = "resolve_path_with_options fs"
  have pr: "proper_list (cs @ [c])" using components_proper [of path] Suc.prems(2) by simp
  have norm: "normalize_path path = abs_path (cs @ [c])" "normalize_path parent = abs_path cs"
    using Suc.prems(2,3) by (simp_all add: normalize_path_eq)
  have d: "\<not> MAX_SYMLINK_DEPTH < depth" using Suc.hyps(2) by simp
  show ?case
  proof (cases "validate_path parent")
    case (Inl e)
    then show ?thesis using validate_error_code [OF Inl] by (subst resolve_path_with_options.simps) simp
  next
    case (Inr u)
    from Suc.prems(1) pr have path: "?res path False depth = (case resolve_walk fs False (abs_path []) (cs @ [c]) of
        Inl e \<Rightarrow> Inl e | Inr (Resolved p) \<Rightarrow> Inr p | Inr (Redirect p) \<Rightarrow> ?res p False (depth + 1))"
      using d norm by (subst resolve_path_with_options.simps) (auto simp: resolve_path_with_options.simps [of fs path] err_simps)
    have parent: "?res parent True depth = (if cs = [] then Inr ''/'' else case resolve_walk fs True (abs_path []) cs of
        Inl e \<Rightarrow> Inl e | Inr (Resolved p) \<Rightarrow> Inr p | Inr (Redirect p) \<Rightarrow> ?res p True (depth + 1))"
      using d norm Inr pr by (subst resolve_path_with_options.simps) simp
    from path Suc.prems(1) obtain w where w: "resolve_walk fs False (abs_path []) (cs @ [c]) = Inr w"
      by (auto split: sum.splits)
    from walk_parent [OF w] pr consider
        (redirect) candidate target rest where "proper_list rest"
          "resolve_walk fs True (abs_path []) cs = Inr (Redirect (redirect_path candidate target rest))"
          "w = Redirect (redirect_path candidate target (rest @ [c]))"
      | (resolved) "resolve_walk fs True (abs_path []) cs = Inr (Resolved (abs_path cs))" "w = Resolved (abs_path (cs @ [c]))"
      by auto
    then show ?thesis
    proof cases
      case redirect
      let ?p = "redirect_path candidate target (rest @ [c])" and ?parent = "redirect_path candidate target rest"
      have "components ?p = components ?parent @ [c]"
        using components_redirect [of "rest @ [c]" candidate target] components_redirect [of rest candidate target] redirect(1) pr
        by simp
      moreover have "?res ?p False (depth + 1) = Inr q" using path w redirect(3) Suc.prems(1) by simp
      moreover have "cs \<noteq> []" using redirect(2) by auto
      ultimately show ?thesis
        using Suc.hyps(1) [of "depth + 1" ?p "components ?parent" ?parent] Suc.hyps(2) parent redirect(2) by simp
    next
      case resolved
      have "?res parent True depth = Inr (abs_path cs)" using parent resolved(1) by simp
      moreover have "q = abs_path (cs @ [c])" using path w Suc.prems(1) resolved(2) by simp
      ultimately show ?thesis using pr by auto
    qed
  qed
qed


text \<open>The subject of an operation on a directory entry is the path the operation acts on.\<close>

lemma destination_subject:
  assumes ok: "vfs_ok (pf_inner pf)" and q: "resolve_exact_path (pf_inner pf) path = Inr q"
    and dir: "q \<noteq> ''/'' \<Longrightarrow> bt_contains (fs_path_index (pf_inner pf)) (dirname q)"
    and s: "resolved_destination_path pf path = Inr subject"
  shows "subject = q"
proof (cases "components path" rule: rev_cases)
  case Nil
  then have "normalize_path path = ''/''" by (simp add: normalize_path_eq)
  moreover have "q = ''/''"
    using q calculation by (auto simp: resolve_exact_path_def resolve_path_with_options.simps [of _ path] err_simps split: if_splits)
  ultimately show ?thesis using s by (simp add: resolved_destination_path_def)
next
  case (snoc cs c)
  let ?fs = "pf_inner pf"
  have pr: "proper_list (cs @ [c])" using components_proper [of path] snoc by simp
  have comp: "components (abs_path cs) = cs" using pr by simp
  note par = resolve_parent [OF q [unfolded resolve_exact_path_def] snoc comp]
  have "\<exists>r. climb ?fs (rev cs) [] = Inr (r, []) \<and> q = child_path r c \<or>
      (\<exists>e. climb ?fs (rev cs) [] = Inl e)"
  proof (cases "resolve_path_with_options ?fs (abs_path cs) True 0")
    case (Inl e)
    then have "realpath ?fs (abs_path cs) = Inl e" by (simp add: realpath_def resolve_path_def)
    with par Inl pr show ?thesis by (cases cs rule: rev_cases) auto
  next
    case (Inr r)
    with par pr obtain ds where ds: "r = abs_path ds" "proper_list ds" "q = abs_path (ds @ [c])" by auto
    with dir pr have "bt_contains (fs_path_index ?fs) r" by simp
    with Inr have "realpath ?fs (abs_path cs) = Inr r" by (simp add: realpath_def resolve_path_def)
    with ds pr show ?thesis by (cases cs rule: rev_cases) auto
  qed
  moreover have "path_parts (normalize_path path) = cs @ [c]" "normalize_path path \<noteq> ''/''"
    using snoc pr by (simp_all add: normalize_path_eq)
  ultimately show ?thesis using s by (auto simp: resolved_destination_path_def Let_def)
qed

section \<open>Which inodes an operation touches\<close>

definition untouched :: "memory_fs \<Rightarrow> memory_fs \<Rightarrow> u64 \<Rightarrow> bool" where
  "untouched fs fs' n \<longleftrightarrow> (\<forall>i. bt_get (fs_inodes fs) n = Some i \<longrightarrow> bt_get (fs_inodes fs') n = Some i)"

lemma untouched_refl [simp]: "untouched fs fs n"
  by (simp add: untouched_def)

lemma untouched_trans: "untouched a b n \<Longrightarrow> untouched b c n \<Longrightarrow> untouched a c n"
  by (simp add: untouched_def)

lemma untouched_put [simp]: "n \<noteq> ino \<Longrightarrow> untouched fs (put_inode ino i fs') n \<longleftrightarrow> untouched fs fs' n"
  by (simp add: untouched_def)

lemma touched_put: "\<not> untouched fs (put_inode ino i fs) n \<Longrightarrow> n = ino"
  using untouched_put [of n ino fs i fs] by auto

lemma untouched_paths [simp]:
  "untouched fs (bind_path p ino fs') n \<longleftrightarrow> untouched fs fs' n" "untouched fs (unbind_path p fs') n \<longleftrightarrow> untouched fs fs' n"
  by (simp_all add: untouched_def)

lemma untouched_extends: "extends fs fs' \<Longrightarrow> untouched fs fs' n"
  by (simp add: untouched_def extends_def)

lemma untouched_create: "vfs_ok fs \<Longrightarrow> untouched fs (snd (allocate_inode kind mode now fs)) n"
  using next_ino_fresh [of fs] by (auto simp: untouched_def allocate_inode_sel)

lemma untouched_decrement: "decrement_link_count ino fs = Inr fs' \<Longrightarrow> n \<noteq> ino \<Longrightarrow> untouched fs fs' n"
  by (auto simp: decrement_link_count_def err_simps Let_def untouched_def split: if_splits)

lemma untouched_commit: "(\<And>fs'. r = Inr fs' \<Longrightarrow> untouched fs fs' n) \<Longrightarrow> untouched fs (snd (commit r fs)) n"
  by (cases r) (simp_all add: commit_def)

text \<open>Operations on the inode at the end of a path.\<close>

lemma untouched_mut:
  assumes "\<And>opn. inode_id_for_existing_path fs path opn True = Inr ino" "n \<noteq> ino"
  shows "untouched fs (snd (read_file path now fs)) n" "untouched fs (snd (truncate_file path len now fs)) n"
    "untouched fs (snd (pread path offset sz now fs)) n" "untouched fs (snd (update_metadata path opn True f fs)) n"
    "untouched fs (snd (utimes_spec path atime mtime True t fs)) n"
proof -
  have m: "inode_mut_for_existing_path fs path opn True = Inr (k, i) \<Longrightarrow> k = ino" for opn k i
    using assms(1) by (auto simp: inode_mut_for_existing_path_def err_simps)
  show "untouched fs (snd (read_file path now fs)) n" "untouched fs (snd (truncate_file path len now fs)) n"
    "untouched fs (snd (pread path offset sz now fs)) n" "untouched fs (snd (update_metadata path opn True f fs)) n"
    using assms(2) by (auto simp: read_file_def truncate_file_def pread_def update_metadata_def Let_def dest!: m
        split: sum.splits inode_kind.splits)
  show "untouched fs (snd (utimes_spec path atime mtime True t fs)) n"
    using assms(2) by (auto simp: utimes_spec_def Let_def split_beta err_simps dest!: m split: sum.splits)
qed

lemma untouched_append:
  assumes "vfs_ok fs" "realpath fs path = Inr q" "bt_get (fs_path_index fs) q = Some ino" "n \<noteq> ino"
  shows "untouched fs (snd (append_file path data now fs)) n" "untouched fs (snd (read_dir_with_types path now fs)) n"
    "untouched fs (snd (read_dir_limited path limit now fs)) n"
proof -
  from assms(2) have r: "resolve_path fs path 0 = Inr q" by (auto simp: realpath_def err_simps split: if_splits)
  from resolve_path_result [OF r] obtain cs where cs: "q = abs_path cs" "good cs" "plain fs True cs" by blast
  have m: "inode_mut_for_existing_path fs q opn False = Inr (k, i) \<Longrightarrow> k = ino" for opn k i
    using inode_id_plain [OF vfs_ok_indexed [OF assms(1)] cs(2) plain_weaken [OF cs(3), of False]] assms(3) cs(1)
    by (auto simp: inode_mut_for_existing_path_def err_simps)
  show "untouched fs (snd (append_file path data now fs)) n"
    using assms(4) r by (auto simp: append_file_def err_simps dest!: m split: sum.splits inode_kind.splits)
  show "untouched fs (snd (read_dir_with_types path now fs)) n" "untouched fs (snd (read_dir_limited path limit now fs)) n"
    using assms(4) r
    by (auto simp: read_dir_with_types_def read_dir_limited_def touch_directory_def Let_def err_simps dest!: m split: sum.splits)
qed

lemma snd_read_dir: "snd (read_dir path now fs) = snd (read_dir_with_types path now fs)"
  by (auto simp: read_dir_def split: prod.split sum.split)

lemma untouched_write:
  assumes ok: "vfs_ok fs" "room_for_path fs"
    and n: "\<And>q. realpath fs path = Inr q \<Longrightarrow> bt_get (fs_path_index fs) q \<noteq> Some n"
  shows "untouched fs (snd (write_file path data now fs)) n \<and> untouched fs (snd (create_file_exclusive path data now fs)) n"
proof (cases "resolve_path fs path 0")
  case (Inl e)
  then show ?thesis by (simp add: write_file_def create_file_exclusive_def)
next
  case (Inr q)
  from resolve_path_result [OF Inr] obtain cs where cs: "q = abs_path cs" "good cs" "plain fs True cs" by blast
  show ?thesis
  proof (rule write_file_result [OF ok Inr [unfolded cs(1)] cs(2,3), of data now], goal_cases)
    case (1 fs1)
    note ext = untouched_extends [OF 1(2), of n]
    show ?case
    proof (cases "lookup_path fs cs")
      case None
      with 1(8) untouched_trans [OF ext untouched_create [OF 1(1)]] show ?thesis by (simp add: create_node_def)
    next
      case (Some ino)
      then obtain i where i: "bt_get (fs_inodes fs1) ino = Some i"
        using 1(6) indexedD [OF vfs_ok_indexed [OF 1(1)]] by fastforce
      have "realpath fs path = Inr q" using Inr Some cs(1) by (simp add: realpath_def bt_contains_iff)
      with n Some cs(1) have "n \<noteq> ino" by auto
      with Some i 1(9) ext show ?thesis by (cases "in_kind i") simp_all
    qed
  qed
qed

text \<open>
  Creation touches no existing inode.  For \<open>mkdir\<close>, which may leave the tree through a dangling link, it is
  enough that numbers are given out in ascending order.
\<close>

definition ascending :: "memory_fs \<Rightarrow> bool" where
  "ascending fs \<longleftrightarrow> (\<forall>n i. bt_get (fs_inodes fs) n = Some i \<longrightarrow> n < fs_next_ino fs)"

lemma vfs_ok_ascending: "vfs_ok fs \<Longrightarrow> ascending fs"
  by (auto simp: ascending_def inode_ok_def dest: vfs_ok_inode)

lemma mkdir_part_fresh:
  assumes "ascending fs" "fs_next_ino fs \<noteq> - 1" "mkdir_part raw is_last now fs = Inr (resolved, fs1)"
  shows "ascending fs1 \<and> untouched fs fs1 n \<and> (fs_next_ino fs1 = fs_next_ino fs \<or> fs_next_ino fs1 = fs_next_ino fs + 1)"
proof -
  note less = less_succ_word [OF assms(2)]
  have old: "m < fs_next_ino fs + 1" if "bt_get (fs_inodes fs) m = Some i" for m i
    using assms(1) that less unfolding ascending_def by (blast intro: order.strict_trans)
  show ?thesis
    using assms old less
    by (auto simp: mkdir_part_def err_simps Let_def split_beta allocate_inode_sel ascending_def untouched_def
        split: option.splits if_splits)
qed

lemma untouched_mkdir_parts:
  "ascending fs \<Longrightarrow> unat (fs_next_ino fs) + length parts < 2 ^ 64 \<Longrightarrow>
     untouched fs (snd (mkdir_parts current parts now fs)) n"
proof (induction parts arbitrary: current fs)
  case (Cons part parts)
  show ?case
  proof (cases "mkdir_part (child_path current part) (parts = []) now fs")
    case (Inr x)
    then obtain resolved fs1 where x: "mkdir_part (child_path current part) (parts = []) now fs = Inr (resolved, fs1)"
      by (cases x) auto
    have room: "fs_next_ino fs \<noteq> - 1 \<and> unat (fs_next_ino fs + 1) + length parts < 2 ^ 64"
      using room_succ Cons.prems(2) by simp
    note s = mkdir_part_fresh [OF Cons.prems(1) conjunct1 [OF room] x, of n]
    have "unat (fs_next_ino fs1) + length parts < 2 ^ 64" using s room Cons.prems(2) by auto
    then show ?thesis using untouched_trans [of fs fs1 n] Cons.IH [of fs1 resolved] s x by simp
  qed simp
qed simp

lemma untouched_creation:
  assumes ok: "vfs_ok fs"
  shows "untouched fs (snd (create_dir path now fs)) n" "untouched fs (snd (symlink target path now fs)) n"
proof -
  show "untouched fs (snd (create_dir path now fs)) n"
    unfolding create_dir_def
    by (rule untouched_commit)
       (use untouched_create [OF ok, of Directory "S_IFDIR OR 0x1ED" now n] in
         \<open>auto simp: err_simps Let_def split_beta split: option.splits if_splits\<close>)
  show "untouched fs (snd (symlink target path now fs)) n"
    unfolding symlink_def symlink_with_metadata_def
    by (rule untouched_commit)
       (use next_ino_fresh [OF ok] in \<open>auto simp: err_simps Let_def allocate_inode_sel untouched_def split: if_splits\<close>)
qed

text \<open>Operations on a directory entry.\<close>

definition entry_inode :: "memory_fs \<Rightarrow> string \<Rightarrow> u64 \<Rightarrow> bool" where
  "entry_inode fs path n \<longleftrightarrow> (\<exists>q. resolve_exact_path fs path = Inr q \<and> bt_get (fs_path_index fs) q = Some n)"

lemma untouched_drop: "drop_path q ino i now fs = Inr fs' \<Longrightarrow> n \<noteq> ino \<Longrightarrow> untouched fs fs' n"
  using untouched_decrement [of ino "unbind_path q (put_inode ino (set_ctime now i) fs)" fs' n]
  by (auto simp: drop_path_def untouched_def)

lemma untouched_remove:
  assumes "\<not> entry_inode fs path n"
  shows "untouched fs (snd (remove_file path now fs)) n" "untouched fs (snd (remove_dir path fs)) n"
proof -
  show "untouched fs (snd (remove_file path now fs)) n"
    unfolding remove_file_def
    by (rule untouched_commit)
       (use assms in \<open>auto simp: remove_exact_path_def err_simps entry_inode_def dest!: untouched_drop split: if_splits\<close>)
  have d: "decrement_link_count ino (unbind_path q fs) = Inr fs' \<Longrightarrow> n \<noteq> ino \<Longrightarrow> untouched fs fs' n" for ino q fs'
    using untouched_decrement [of ino "unbind_path q fs" fs' n] by (simp add: untouched_def)
  show "untouched fs (snd (remove_dir path fs)) n"
    unfolding remove_dir_def
    by (rule untouched_commit) (use assms in \<open>auto simp: err_simps entry_inode_def dest!: d split: if_splits\<close>)
qed

lemma untouched_remove_existing:
  "remove_existing_destination path now fs = Inr fs' \<Longrightarrow> \<not> entry_inode fs path n \<Longrightarrow> untouched fs fs' n"
  by (auto simp: remove_existing_destination_def err_simps entry_inode_def intro: untouched_drop split: option.splits if_splits)

lemma untouched_rename:
  assumes "\<not> entry_inode fs old_path n" "\<not> entry_inode fs new_path n"
  shows "untouched fs (snd (rename old_path new_path now fs)) n"
proof -
  have m: "untouched fs (move_subtree p q f) n \<longleftrightarrow> untouched fs f n" for p q f
    by (simp add: untouched_def move_subtree_frame)
  show ?thesis
    unfolding rename_def
    by (rule untouched_commit)
       (use assms in \<open>auto simp: err_simps Let_def m entry_inode_def dest!: untouched_remove_existing [of new_path now fs _ n]
          split: if_splits\<close>)
qed

lemma untouched_link:
  "(\<And>opn. inode_id_for_existing_path fs old_path opn True = Inr ino) \<Longrightarrow> n \<noteq> ino \<Longrightarrow>
     untouched fs (snd (link_file old_path new_path now fs)) n"
  unfolding link_file_def by (rule untouched_commit) (auto simp: err_simps split: if_splits)

section \<open>Complete mediation\<close>

definition mediated :: "permissioned_fs \<Rightarrow> u64 \<Rightarrow> bool" where
  "mediated pf n \<longleftrightarrow> (\<exists>op q. allowed pf op q \<and> bt_get (fs_path_index (pf_inner pf)) q = Some n)"

lemma checked_touches:
  assumes "\<not> untouched (pf_inner pf) (pf_inner (snd (checked check operation pf))) n"
  shows "check = Inr () \<and> \<not> untouched (pf_inner pf) (snd (operation (pf_inner pf))) n"
  using assms by (auto simp: checked_def split_beta split: sum.splits)

lemma mediated_existing:
  assumes "check_subject pf op path = Inr ()"
    and "op \<in> {Fs_read, Fs_read_dir, Fs_stat, Fs_read_link, Fs_chmod, Fs_chown, Fs_utimes, Fs_truncate}"
    and "\<And>q ino. realpath (pf_inner pf) path = Inr q \<Longrightarrow> bt_get (fs_path_index (pf_inner pf)) q = Some ino \<Longrightarrow>
      (\<And>opn. inode_id_for_existing_path (pf_inner pf) path opn True = Inr ino) \<Longrightarrow> n \<noteq> ino \<Longrightarrow> untouched (pf_inner pf) fs' n"
    and "\<not> untouched (pf_inner pf) fs' n"
  shows "mediated pf n"
proof -
  from check_existing [OF assms(1,2)] obtain q where q: "allowed pf op q" "realpath (pf_inner pf) path = Inr q" by blast
  from realpath_access [OF q(2)] obtain ino where ino: "bt_get (fs_path_index (pf_inner pf)) q = Some ino"
    "\<And>opn. inode_id_for_existing_path (pf_inner pf) path opn True = Inr ino" by blast
  from assms(3) [OF q(2) ino] assms(4) have "n = ino" by blast
  with q(1) ino(1) show ?thesis by (auto simp: mediated_def)
qed

lemma mediated_entry:
  assumes ok: "vfs_ok (pf_inner pf)" and c: "check_subject pf op path = Inr ()" and op: "op \<in> {Fs_remove, Fs_rename}"
    and e: "entry_inode (pf_inner pf) path n"
  shows "mediated pf n"
proof -
  from e obtain q where q: "resolve_exact_path (pf_inner pf) path = Inr q" "bt_get (fs_path_index (pf_inner pf)) q = Some n"
    by (auto simp: entry_inode_def)
  from resolve_exact_result [OF q(1)] obtain cs where cs: "q = abs_path cs" "good cs" by blast
  from c op obtain subject where s: "resolved_destination_path pf path = Inr subject" "allowed pf op subject"
    using check_fs_allowed [of pf op] by (auto simp: check_subject_def permission_subject_def err_simps)
  have "bt_contains (fs_path_index (pf_inner pf)) (dirname q)" if "q \<noteq> ''/''"
  proof -
    from that cs have "cs = butlast cs @ [last cs]" by auto
    then have "directory_at (pf_inner pf) (butlast cs)"
      using vfs_ok_parent [OF ok, of "butlast cs" "last cs" n] q(2) cs by simp
    from directory_at_lookup [OF this] cs show ?thesis by (auto simp: bt_contains_iff)
  qed
  from destination_subject [OF ok q(1) this s(1)] s(2) q(2) show ?thesis by (auto simp: mediated_def)
qed

lemma mediated_write:
  assumes "check_subject pf Fs_write path = Inr ()" "realpath (pf_inner pf) path = Inr q"
    "bt_get (fs_path_index (pf_inner pf)) q = Some n"
  shows "mediated pf n"
  using check_write [OF assms(1,2)] assms(3) by (auto simp: mediated_def)

definition perm_outcome :: "(vfs_error + 'a) \<times> permissioned_fs \<Rightarrow> (vfs_error + unit) \<times> permissioned_fs" where
  "perm_outcome r = (map_sum id (\<lambda>_. ()) (fst r), snd r)"

lemma snd_perm_outcome [simp]: "snd (perm_outcome r) = snd r"
  by (simp add: perm_outcome_def)

fun perm_run :: "u64 \<times> fs_op \<Rightarrow> permissioned_fs \<Rightarrow> (vfs_error + unit) \<times> permissioned_fs" where
  "perm_run (now, Read_file p) pf = perm_outcome (perm_read_file p now pf)"
| "perm_run (now, Write_file p data) pf = perm_write_file p data now pf"
| "perm_run (now, Create_file_exclusive p data) pf = perm_create_file_exclusive p data now pf"
| "perm_run (now, Append_file p data) pf = perm_outcome (perm_append_file p data now pf)"
| "perm_run (now, Read_dir p) pf = perm_outcome (perm_read_dir p now pf)"
| "perm_run (now, Read_dir_limited p limit) pf = perm_outcome (perm_read_dir_limited p limit now pf)"
| "perm_run (now, Read_dir_with_types p) pf = perm_outcome (perm_read_dir_with_types p now pf)"
| "perm_run (now, Create_dir p) pf = perm_create_dir p now pf"
| "perm_run (now, Mkdir p recursive) pf = perm_mkdir p recursive now pf"
| "perm_run (now, Remove_file p) pf = perm_remove_file p now pf"
| "perm_run (now, Remove_dir p) pf = perm_remove_dir p pf"
| "perm_run (now, Rename p q) pf = perm_rename p q now pf"
| "perm_run (now, Symlink target p) pf = perm_symlink target p now pf"
| "perm_run (now, Link p q) pf = perm_link p q now pf"
| "perm_run (now, Chmod p mode) pf = perm_chmod p mode now pf"
| "perm_run (now, Chown p uid gid) pf = perm_chown p uid gid now pf"
| "perm_run (now, Utimes p a m) pf = perm_utimes p a m now pf"
| "perm_run (now, Utimes_spec p a m follow t) pf = perm_utimes_spec p a m follow t pf"
| "perm_run (now, Truncate p len) pf = perm_truncate p len now pf"
| "perm_run (now, Pread p offset len) pf = perm_outcome (perm_pread p offset len now pf)"
| "perm_run (now, Pwrite p data offset) pf = perm_pwrite p data offset now pf"
| "perm_run (now, Stat p) pf = perm_outcome (perm_stat p pf)"
| "perm_run (now, Lstat p) pf = perm_outcome (perm_lstat p pf)"
| "perm_run (now, Read_link p) pf = perm_outcome (perm_read_link p pf)"
| "perm_run (now, Realpath p) pf = perm_outcome (perm_realpath p pf)"
| "perm_run (now, Exists p) pf = perm_outcome (perm_try_exists pf p, pf)"

text \<open>Inode numbers are 64-bit counters; the operations that create files need some left.\<close>

fun numbers_left :: "fs_op \<Rightarrow> memory_fs \<Rightarrow> bool" where
  "numbers_left (Write_file p data) fs = room_for_path fs"
| "numbers_left (Create_file_exclusive p data) fs = room_for_path fs"
| "numbers_left (Pwrite p data offset) fs = room_for_path fs"
| "numbers_left (Mkdir p recursive) fs = (unat (fs_next_ino fs) + length (components p) < 2 ^ 64)"
| "numbers_left _ fs = True"

abbreviation touches :: "permissioned_fs \<Rightarrow> permissioned_fs \<Rightarrow> u64 \<Rightarrow> bool" where
  "touches pf pf' n \<equiv> \<not> untouched (pf_inner pf) (pf_inner pf') n"

lemma perm_inode_mediated:
  "touches pf (snd (perm_read_file path now pf)) n \<Longrightarrow> mediated pf n"
  "touches pf (snd (perm_pread path offset sz now pf)) n \<Longrightarrow> mediated pf n"
  "touches pf (snd (perm_truncate path len now pf)) n \<Longrightarrow> mediated pf n"
  "touches pf (snd (perm_chmod path mode now pf)) n \<Longrightarrow> mediated pf n"
  "touches pf (snd (perm_chown path uid gid now pf)) n \<Longrightarrow> mediated pf n"
  "touches pf (snd (perm_utimes path a m now pf)) n \<Longrightarrow> mediated pf n"
  "touches pf (snd (perm_utimes_spec path a' m' True t pf)) n \<Longrightarrow> mediated pf n"
  unfolding perm_read_file_def perm_pread_def perm_truncate_def perm_chmod_def perm_chown_def perm_utimes_def perm_utimes_spec_def
  by (drule checked_touches, elim conjE, erule (1) mediated_existing [rotated 3];
      simp add: untouched_mut chmod_def chown_def utimes_def)+

lemma perm_listing_mediated:
  assumes "vfs_ok (pf_inner pf)"
  shows "touches pf (snd (perm_read_dir path now pf)) n \<Longrightarrow> mediated pf n"
    "touches pf (snd (perm_read_dir_limited path limit now pf)) n \<Longrightarrow> mediated pf n"
    "touches pf (snd (perm_read_dir_with_types path now pf)) n \<Longrightarrow> mediated pf n"
  unfolding perm_read_dir_def perm_read_dir_limited_def perm_read_dir_with_types_def
  by (drule checked_touches, elim conjE, erule (1) mediated_existing [rotated 3];
      simp add: snd_read_dir untouched_append [OF assms])+

lemma append_unresolved:
  assumes ok: "vfs_ok fs" and e: "realpath fs path = Inl e"
  shows "snd (append_file path data now fs) = fs"
proof (cases "resolve_path fs path 0")
  case (Inr q)
  from resolve_path_result [OF this] obtain cs where cs: "q = abs_path cs" "good cs" "plain fs True cs" by blast
  have "lookup_path fs cs = None" using e Inr cs(1) by (auto simp: realpath_def bt_contains_iff err_simps split: if_splits)
  with Inr inode_id_plain [OF vfs_ok_indexed [OF ok] cs(2) plain_weaken [OF cs(3), of False]] cs(1) show ?thesis
    by (auto simp: append_file_def inode_mut_for_existing_path_def err_simps)
qed (simp add: append_file_def)

lemma perm_write_mediated:
  assumes ok: "vfs_ok (pf_inner pf)"
  shows "touches pf (snd (perm_append_file path data now pf)) n \<Longrightarrow> mediated pf n"
    "room_for_path (pf_inner pf) \<Longrightarrow> touches pf (snd (perm_write_file path data now pf)) n \<Longrightarrow> mediated pf n"
    "room_for_path (pf_inner pf) \<Longrightarrow> touches pf (snd (perm_create_file_exclusive path data now pf)) n \<Longrightarrow> mediated pf n"
proof -
  assume "touches pf (snd (perm_append_file path data now pf)) n"
  then have c: "check_subject pf Fs_write path = Inr ()" "\<not> untouched (pf_inner pf) (snd (append_file path data now (pf_inner pf))) n"
    unfolding perm_append_file_def by (blast dest: checked_touches)+
  then obtain q where q: "realpath (pf_inner pf) path = Inr q"
    using append_unresolved [OF ok, of path] by (cases "realpath (pf_inner pf) path") auto
  with realpath_access obtain ino where ino: "bt_get (fs_path_index (pf_inner pf)) q = Some ino" by blast
  with c(2) untouched_append(1) [OF ok q ino] have "n = ino" by blast
  with mediated_write [OF c(1) q] ino show "mediated pf n" by simp
next
  assume r: "room_for_path (pf_inner pf)"
  note w = untouched_write [OF ok r, of path n]
  show "touches pf (snd (perm_write_file path data now pf)) n \<Longrightarrow> mediated pf n"
    "touches pf (snd (perm_create_file_exclusive path data now pf)) n \<Longrightarrow> mediated pf n"
    unfolding perm_write_file_def perm_create_file_exclusive_def using w mediated_write [of pf path _ n]
    by (blast dest: checked_touches)+
qed

lemma perm_pwrite_mediated:
  assumes ok: "vfs_ok (pf_inner pf)" and room: "room_for_path (pf_inner pf)"
    and t: "touches pf (snd (perm_pwrite path data offset now pf)) n"
  shows "mediated pf n"
proof -
  obtain r pf1 where r: "perm_read_file path now pf = (r, pf1)" by fastforce
  let ?fs1 = "pf_inner pf1"
  have s: "?fs1 = pf_inner pf \<or> ?fs1 = snd (read_file path now (pf_inner pf))" "pf1 = pf\<lparr>pf_inner := ?fs1\<rparr>"
    using r by (auto simp: perm_read_file_def checked_def split: sum.splits prod.splits)
  have f: "fs_path_index (snd (read_file path now (pf_inner pf))) = fs_path_index (pf_inner pf)"
    "fs_next_ino (snd (read_file path now (pf_inner pf))) = fs_next_ino (pf_inner pf)"
    by (auto simp: read_file_def split: sum.splits inode_kind.splits)
  have ok1: "vfs_ok ?fs1" using s(1) ok safe_read_file [OF ok, of path now] by (auto simp: safe_def)
  have room1: "room_for_path ?fs1" using s(1) room f(2) by (auto simp: room_for_path_def)
  have med: "mediated pf1 n \<Longrightarrow> mediated pf n"
    using s f(1) unfolding mediated_def allowed_def
    by (metis permissioned_fs.select_convs(2,3) permissioned_fs.surjective permissioned_fs.update_convs(1))
  consider "touches pf pf1 n" | content where "touches pf1 (snd (perm_write_file path content now pf1)) n"
    using t untouched_trans [of "pf_inner pf" "pf_inner pf1" n]
    by (auto simp: perm_pwrite_def default_pwrite_def r split: sum.splits option.splits)
  then show ?thesis
  proof cases
    case 1
    with perm_inode_mediated(1) [of pf path now n] r show ?thesis by simp
  next
    case 2
    from perm_write_mediated(2) [OF ok1 room1 this] med show ?thesis by blast
  qed
qed

lemma perm_entry_mediated:
  assumes ok: "vfs_ok (pf_inner pf)"
  shows "touches pf (snd (perm_remove_file path now pf)) n \<Longrightarrow> mediated pf n"
    "touches pf (snd (perm_remove_dir path pf)) n \<Longrightarrow> mediated pf n"
    "touches pf (snd (perm_rename path new_path now pf)) n \<Longrightarrow> mediated pf n"
proof -
  note med = mediated_entry [OF ok, of Fs_remove path n] mediated_entry [OF ok, of Fs_rename path n]
    mediated_entry [OF ok, of Fs_rename new_path n]
  show "touches pf (snd (perm_remove_file path now pf)) n \<Longrightarrow> mediated pf n"
    "touches pf (snd (perm_remove_dir path pf)) n \<Longrightarrow> mediated pf n"
    unfolding perm_remove_file_def perm_remove_dir_def using med(1)
    by (blast dest: checked_touches intro: untouched_remove)+
  show "mediated pf n" if t: "touches pf (snd (perm_rename path new_path now pf)) n"
  proof -
    from checked_touches [OF t [unfolded perm_rename_def]]
    have "check_subject pf Fs_rename path = Inr ()" "check_subject pf Fs_rename new_path = Inr ()"
      "entry_inode (pf_inner pf) path n \<or> entry_inode (pf_inner pf) new_path n"
      using untouched_rename [of "pf_inner pf" path n new_path now] by (auto simp: err_simps)
    with med show ?thesis by blast
  qed
qed

lemma perm_link_mediated:
  assumes "touches pf (snd (perm_link path new_path now pf)) n"
  shows "mediated pf n"
proof -
  from checked_touches [OF assms [unfolded perm_link_def]]
  have c: "check_existing_subject pf Fs_link path = Inr ()" "\<not> untouched (pf_inner pf) (snd (link_file path new_path now (pf_inner pf))) n"
    by (auto simp: err_simps)
  then obtain q where q: "realpath (pf_inner pf) path = Inr q" "allowed pf Fs_link q"
    using check_fs_allowed [of pf Fs_link] by (auto simp: check_existing_subject_def resolved_existing_path_def err_simps)
  from realpath_access [OF q(1)] obtain ino where ino: "bt_get (fs_path_index (pf_inner pf)) q = Some ino"
    "\<And>opn. inode_id_for_existing_path (pf_inner pf) path opn True = Inr ino" by blast
  from c(2) untouched_link [OF ino(2)] have "n = ino" by blast
  with q(2) ino(1) show ?thesis by (auto simp: mediated_def)
qed

lemma perm_creation_untouched:
  assumes ok: "vfs_ok (pf_inner pf)"
  shows "\<not> touches pf (snd (perm_create_dir path now pf)) n" "\<not> touches pf (snd (perm_symlink target path now pf)) n"
    "unat (fs_next_ino (pf_inner pf)) + length (components path) < 2 ^ 64 \<Longrightarrow>
       \<not> touches pf (snd (perm_mkdir path recursive now pf)) n"
proof -
  show "\<not> touches pf (snd (perm_create_dir path now pf)) n" "\<not> touches pf (snd (perm_symlink target path now pf)) n"
    unfolding perm_create_dir_def perm_symlink_def using untouched_creation [OF ok] by (blast dest: checked_touches)+
  assume "unat (fs_next_ino (pf_inner pf)) + length (components path) < 2 ^ 64"
  then have "untouched (pf_inner pf) (snd (mkdir path recursive now (pf_inner pf))) n"
    using untouched_creation(1) [OF ok] untouched_mkdir_parts [OF vfs_ok_ascending [OF ok], of "components path"]
    by (simp add: mkdir_def Let_def normalize_path_eq components_proper)
  then show "\<not> touches pf (snd (perm_mkdir path recursive now pf)) n"
    unfolding perm_mkdir_def by (blast dest: checked_touches)
qed

lemma perm_query_untouched [simp]:
  "\<not> touches pf (snd (perm_stat path pf)) n" "\<not> touches pf (snd (perm_lstat path pf)) n"
  "\<not> touches pf (snd (perm_read_link path pf)) n" "\<not> touches pf (snd (perm_realpath path pf)) n"
  by (auto simp: perm_stat_def perm_lstat_def perm_read_link_def perm_realpath_def checked_def split: sum.splits)

text \<open>\<open>utimes_spec\<close> on a link itself is checked against the target of the link.\<close>

definition mediated_by_target :: "permissioned_fs \<Rightarrow> fs_op \<Rightarrow> u64 \<Rightarrow> bool" where
  "mediated_by_target pf c n \<longleftrightarrow> (\<exists>p a m t link q. c = Utimes_spec p a m False t \<and>
     resolve_exact_path (pf_inner pf) (normalize_path p) = Inr link \<and> bt_get (fs_path_index (pf_inner pf)) link = Some n \<and>
     realpath (pf_inner pf) p = Inr q \<and> allowed pf Fs_utimes q)"

lemma utimes_link_mediated:
  assumes "touches pf (snd (perm_utimes_spec path a m follow t pf)) n"
  shows "mediated pf n \<or> mediated_by_target pf (Utimes_spec path a m follow t) n"
proof (cases follow)
  case True
  with assms perm_inode_mediated(7) show ?thesis by auto
next
  case False
  from checked_touches [OF assms [unfolded perm_utimes_spec_def]]
  have c: "check_subject pf Fs_utimes path = Inr ()" "\<not> untouched (pf_inner pf) (snd (utimes_spec path a m False t (pf_inner pf))) n"
    using False by auto
  from c(2) have "\<exists>i. inode_mut_for_existing_path (pf_inner pf) path ''utimes'' False = Inr (n, i)"
    by (auto simp: utimes_spec_def Let_def split_beta err_simps split: sum.splits dest!: touched_put)
  then obtain link where "resolve_exact_path (pf_inner pf) (normalize_path path) = Inr link"
    "bt_get (fs_path_index (pf_inner pf)) link = Some n"
    by (auto simp: inode_mut_for_existing_path_def inode_id_for_existing_path_def Let_def err_simps)
  with check_existing [OF c(1)] False show ?thesis by (auto simp: mediated_by_target_def)
qed

lemma touch_mediated:
  assumes ok: "vfs_ok (pf_inner pf)" and en: "numbers_left c (pf_inner pf)"
    and t: "touches pf (snd (perm_run (now, c) pf)) n"
  shows "mediated pf n \<or> mediated_by_target pf c n"
  using en t
  by (cases c)
     (simp_all only: perm_run.simps snd_perm_outcome numbers_left.simps perm_query_untouched perm_creation_untouched [OF ok]
        not_not,
      simp_all add: ok perm_inode_mediated perm_listing_mediated perm_write_mediated perm_pwrite_mediated perm_entry_mediated
        perm_link_mediated,
      erule utimes_link_mediated)

lemma check_fs_denied: "(\<And>p. \<not> allowed pf op p) \<Longrightarrow> check_fs pf op path \<noteq> Inr ()"
  using check_fs_allowed by blast

lemma denied_checks:
  assumes "\<And>op p. \<not> allowed pf op p"
  shows "check_subject pf op path \<noteq> Inr ()" "check_existing_subject pf op path \<noteq> Inr ()" "check_fs pf op path \<noteq> Inr ()"
  using check_fs_denied [of pf op] assms
  by (auto simp: check_subject_def check_existing_subject_def err_simps)

lemma checked_denied:
  "check \<noteq> Inr () \<Longrightarrow> \<exists>e. checked check operation pf = (Inl e, pf)"
  "check \<noteq> Inr () \<Longrightarrow> \<exists>e. perm_outcome (checked check operation pf) = (Inl e, pf)"
  by (cases check; simp add: checked_def perm_outcome_def)+

lemma and_then_denied: "a \<noteq> Inr () \<Longrightarrow> and_then a (\<lambda>_. b) \<noteq> Inr ()"
  by (auto simp: err_simps)

lemmas perm_operation_defs =
  perm_read_file_def perm_read_dir_def perm_read_dir_limited_def perm_read_dir_with_types_def perm_write_file_def
  perm_create_file_exclusive_def
  perm_append_file_def perm_create_dir_def perm_mkdir_def perm_stat_def perm_remove_file_def perm_remove_dir_def
  perm_rename_def perm_realpath_def perm_symlink_def perm_read_link_def perm_lstat_def perm_link_def perm_chmod_def
  perm_chown_def perm_utimes_def perm_utimes_spec_def perm_truncate_def perm_pread_def

lemma exists_denied:
  assumes "\<And>op p. \<not> allowed pf op p"
  shows "perm_try_exists pf path \<noteq> Inr True" "\<not> perm_exists pf path"
  using denied_checks(1) [OF assms, of Fs_exists path]
  by (auto simp: perm_exists_def perm_try_exists_def split: sum.splits if_splits)

text \<open>A link that is no longer followed: the subject of a write to it is its own path.\<close>

lemma link_subject:
  assumes ok: "vfs_ok (pf_inner pf)" and l: "inode_at (pf_inner pf) link = Some i" "in_kind i = Symbolic_link target"
    and par: "realpath (pf_inner pf) (dirname link) = Inr (dirname link)"
  shows "resolved_destination_path pf link = Inr link"
proof -
  from l(1) obtain ino where ino: "bt_get (fs_path_index (pf_inner pf)) link = Some ino" "bt_get (fs_inodes (pf_inner pf)) ino = Some i"
    by (auto simp: inode_at_def split: option.splits)
  from vfs_ok_key [OF ok ino(1)] obtain cs where cs: "proper_list cs" "link = abs_path cs" by blast
  have "cs \<noteq> []" using vfs_ok_root [OF ok] l cs by (auto simp: directory_at_def)
  then obtain ds c where ds: "cs = ds @ [c]" by (cases cs rule: rev_cases) auto
  have "dirname link = abs_path ds" using dirname_abs_path [OF cs(1)] cs(2) ds by (metis butlast_snoc)
  with par have "realpath (pf_inner pf) (abs_path ds) = Inr (abs_path ds)" by simp
  with cs ds have "climb (pf_inner pf) (rev ds) [] = Inr (abs_path ds, [])" by (cases ds rule: rev_cases) auto
  with cs ds show ?thesis by (simp add: resolved_destination_path_def Let_def normalize_path_eq)
qed

lemma write_dangling:
  assumes ok: "vfs_ok fs" "room_for_path fs" and q: "resolve_path fs path 0 = Inr q" "bt_get (fs_path_index fs) q = None"
  obtains fs' where "write_file path data now fs = (Inr (), fs')" "map_option in_kind (inode_at fs' q) = Some (File data)"
proof -
  from resolve_path_result [OF q(1)] obtain cs where cs: "q = abs_path cs" "good cs" "plain fs True cs" by blast
  show thesis
  proof (rule write_file_result [OF ok q(1) [unfolded cs(1)] cs(2,3), of data now], goal_cases)
    case (1 fs1)
    with q(2) cs(1) show ?thesis by (intro that) (auto simp: create_node_def allocate_inode_sel inode_at_def)
  qed
qed

section \<open>Properties\<close>

text \<open>
  (C4) Complete mediation in a consistent file system with inode numbers left.  Whatever operation of the
  checked file system runs, when it changes or frees an inode that was there before, the policy of the
  machine has allowed an operation on a real path of that very inode: links in the path given by the
  caller do not lead around the policy.  The one exception is \<open>utimes_spec\<close> on a link itself, which is
  allowed by the real path of the link's target.
\<close>

theorem every_change_authorised:
  assumes "vfs_ok (pf_inner pf)" "numbers_left c (pf_inner pf)"
    and "bt_get (fs_inodes (pf_inner pf)) n = Some i"
    and "bt_get (fs_inodes (pf_inner (snd (perm_run (now, c) pf)))) n \<noteq> Some i"
  shows "\<exists>check op q. pm_filesystem (pf_permissions pf) = Some check \<and>
      pd_allow (check \<lparr>fr_vm_id = pf_vm_id pf, fr_op = op, fr_path = q\<rparr>) \<and>
      (bt_get (fs_path_index (pf_inner pf)) q = Some n \<or>
       (\<exists>p a m t link. c = Utimes_spec p a m False t \<and> op = Fs_utimes \<and> realpath (pf_inner pf) p = Inr q \<and>
          resolve_exact_path (pf_inner pf) (normalize_path p) = Inr link \<and>
          bt_get (fs_path_index (pf_inner pf)) link = Some n))"
proof -
  have "touches pf (snd (perm_run (now, c) pf)) n" using assms(3,4) by (auto simp: untouched_def)
  from touch_mediated [OF assms(1,2) this] show ?thesis
    unfolding mediated_def mediated_by_target_def allowed_def by blast
qed

theorem every_change_authorised_witness:
  "\<exists>check op q. pm_filesystem allow_all = Some check \<and>
      pd_allow (check \<lparr>fr_vm_id = ''vm'', fr_op = op, fr_path = q\<rparr>) \<and>
      bt_get (fs_path_index (new_memory_fs 5)) q = Some 1"
proof -
  define pf where "pf = new_permissioned_fs (new_memory_fs 5) ''vm'' allow_all"
  have pf: "pf_inner pf = new_memory_fs 5" "pf_vm_id pf = ''vm''" "pf_permissions pf = allow_all"
    by (simp_all add: pf_def new_permissioned_fs_def)
  have i: "bt_get (fs_inodes (pf_inner pf)) 1 =
      Some \<lparr>in_metadata = new_metadata Directory (S_IFDIR OR 0x1ED) 1 5, in_kind = Directory\<rparr>"
    unfolding pf by code_simp
  have c: "bt_get (fs_inodes (pf_inner (snd (perm_run (7, Chmod ''/'' 0) pf)))) 1 \<noteq>
      Some \<lparr>in_metadata = new_metadata Directory (S_IFDIR OR 0x1ED) 1 5, in_kind = Directory\<rparr>"
    unfolding pf_def by code_simp
  show ?thesis using every_change_authorised [OF _ _ i c] by (simp add: pf vfs_ok_new)
qed

text \<open>
  (C22) Without a policy, or with one that allows nothing, every operation other than \<open>exists\<close> is an error,
  \<open>exists\<close> never answers that a path is there (the trait method answers no), and every operation leaves
  the whole file system as it was, time stamps included.
\<close>

theorem denied_by_default:
  assumes "\<forall>check r. pm_filesystem (pf_permissions pf) = Some check \<longrightarrow> \<not> pd_allow (check r)"
  shows "snd (perm_run (now, c) pf) = pf \<and> ((\<exists>e. fst (perm_run (now, c) pf) = Inl e) \<or> (\<exists>path. c = Exists path)) \<and>
    (\<forall>path. perm_try_exists pf path \<noteq> Inr True \<and> \<not> perm_exists pf path)"
proof -
  have d: "\<not> allowed pf op p" for op p using assms by (auto simp: allowed_def)
  note deny = denied_checks [OF d] and_then_denied [OF denied_checks(1) [OF d]] and_then_denied [OF denied_checks(2) [OF d]]
  have "\<exists>e. perm_pwrite path data offset now pf = (Inl e, pf)" for path data offset
    using checked_denied [OF deny(1) [of Fs_read path], of "read_file path now" pf]
    by (auto simp: perm_pwrite_def default_pwrite_def perm_read_file_def)
  then have "(\<exists>path. c = Exists path) \<or> (\<exists>e. perm_run (now, c) pf = (Inl e, pf))"
    by (cases c) (simp_all only: perm_run.simps perm_operation_defs deny checked_denied not_False_eq_True simp_thms, blast)
  then have "snd (perm_run (now, c) pf) = pf \<and> ((\<exists>e. fst (perm_run (now, c) pf) = Inl e) \<or> (\<exists>path. c = Exists path))"
    by (elim disjE exE) (simp_all del: perm_run.simps add: perm_run.simps(26))
  with exists_denied [OF d] show ?thesis by blast
qed

theorem denied_by_default_witness:
  "let pf = new_permissioned_fs (new_memory_fs 0) ''vm'' (allow_all\<lparr>pm_filesystem := None\<rparr>)
   in snd (perm_run (7, Write_file ''/a'' []) pf) = pf \<and> (\<exists>e. fst (perm_run (7, Write_file ''/a'' []) pf) = Inl e) \<and>
      \<not> perm_exists pf ''/''"
  using denied_by_default [of "new_permissioned_fs (new_memory_fs 0) ''vm'' (allow_all\<lparr>pm_filesystem := None\<rparr>)" 7 "Write_file ''/a'' []"]
    denied_by_default [of "new_permissioned_fs (new_memory_fs 0) ''vm'' (allow_all\<lparr>pm_filesystem := None\<rparr>)" 7 "Exists ''/''"]
  by (simp add: new_permissioned_fs_def Let_def)

text \<open>
  (C23) In a consistent file system, a read that returns data returns the content of a file whose real path
  the policy allows to be read.
\<close>

theorem permitted_read:
  assumes "vfs_ok (pf_inner pf)" "perm_read_file path now pf = (Inr data, pf')"
  shows "\<exists>check q i. pm_filesystem (pf_permissions pf) = Some check \<and>
      pd_allow (check \<lparr>fr_vm_id = pf_vm_id pf, fr_op = Fs_read, fr_path = q\<rparr>) \<and>
      realpath (pf_inner pf) path = Inr q \<and> inode_at (pf_inner pf) q = Some i \<and> in_kind i = File data"
proof -
  from assms(2) have c: "check_subject pf Fs_read path = Inr ()" and r: "fst (read_file path now (pf_inner pf)) = Inr data"
    by (auto simp: perm_read_file_def checked_def split: sum.splits prod.splits)
  from check_existing [OF c] obtain q where q: "allowed pf Fs_read q" "realpath (pf_inner pf) path = Inr q" by auto
  from q(2) have res: "resolve_path (pf_inner pf) path 0 = Inr q" by (auto simp: realpath_def err_simps split: if_splits)
  from resolve_path_result [OF res] obtain cs where cs: "q = abs_path cs" by blast
  from realpath_access [OF q(2)] indexedD [OF vfs_ok_indexed [OF assms(1)]] obtain i where i: "inode_at (pf_inner pf) q = Some i"
    by (fastforce simp: inode_at_def)
  from read_file_at [OF assms(1) res [unfolded cs] i [unfolded cs], of now] r have "in_kind i = File data"
    by (auto split: inode_kind.splits)
  with q i show ?thesis by (auto simp: allowed_def)
qed

theorem permitted_read_witness:
  "let pf = new_permissioned_fs (snd (write_file ''/a'' [65] 1 (new_memory_fs 0))) ''vm'' allow_all
   in \<exists>check q i. pm_filesystem (pf_permissions pf) = Some check \<and>
      pd_allow (check \<lparr>fr_vm_id = pf_vm_id pf, fr_op = Fs_read, fr_path = q\<rparr>) \<and>
      realpath (pf_inner pf) ''/a'' = Inr q \<and> inode_at (pf_inner pf) q = Some i \<and> in_kind i = File [65]"
proof -
  define fs where "fs = snd (write_file ''/a'' [65] 1 (new_memory_fs 0))"
  have e: "fs_enabled (1, Write_file ''/a'' [65]) (new_memory_fs 0)" by code_simp
  have ok: "vfs_ok fs" using vfs_system.step_inv [OF vfs_ok_new e] by (simp add: fs_def fs_step_def)
  have "fst (perm_read_file ''/a'' 2 (new_permissioned_fs fs ''vm'' allow_all)) = Inr [65]" unfolding fs_def by code_simp
  then obtain pf' where "perm_read_file ''/a'' 2 (new_permissioned_fs fs ''vm'' allow_all) = (Inr [65], pf')"
    by (metis prod.collapse)
  from permitted_read [OF _ this] ok show ?thesis unfolding fs_def [symmetric] Let_def
    by (simp add: new_permissioned_fs_def)
qed

text \<open>
  (C26) The policy is not asked about the target of a dangling link: when it allows writing the path of a
  link, given by a real parent, and refuses the missing path the link leads to, writing to the link still
  succeeds and creates the file at the refused path.
\<close>

theorem dangling_link_escapes_policy:
  assumes "vfs_ok (pf_inner pf)" "room_for_path (pf_inner pf)"
    and "inode_at (pf_inner pf) link = Some i" "in_kind i = Symbolic_link target"
    and "realpath (pf_inner pf) (dirname link) = Inr (dirname link)"
    and "resolve_path (pf_inner pf) link 0 = Inr q" "bt_get (fs_path_index (pf_inner pf)) q = None"
    and "pm_filesystem (pf_permissions pf) = Some check"
    and "pd_allow (check \<lparr>fr_vm_id = pf_vm_id pf, fr_op = Fs_write, fr_path = link\<rparr>)"
    and "\<not> pd_allow (check \<lparr>fr_vm_id = pf_vm_id pf, fr_op = Fs_write, fr_path = q\<rparr>)"
  shows "check_fs pf Fs_write q \<noteq> Inr () \<and> fst (perm_write_file link data now pf) = Inr () \<and>
    map_option in_kind (inode_at (pf_inner (snd (perm_write_file link data now pf))) q) = Some (File data)"
proof -
  obtain fs' where w: "write_file link data now (pf_inner pf) = (Inr (), fs')" "map_option in_kind (inode_at fs' q) = Some (File data)"
    using write_dangling [OF assms(1,2,6,7)] by blast
  have v: "validate_path link = Inr ()"
    using assms(6) by (auto simp: resolve_path_def resolve_path_with_options.simps [of _ link] err_simps split: if_splits)
  have "\<exists>e. realpath (pf_inner pf) link = Inl e" using assms(6,7) by (auto simp: realpath_def bt_contains_iff err_simps)
  then have "permission_subject pf Fs_write link = Inr link"
    using v link_subject [OF assms(1,3-5)] by (auto simp: permission_subject_def resolved_existing_path_def err_simps)
  then have "check_subject pf Fs_write link = Inr ()" using v assms(8,9) by (simp add: check_subject_def check_fs_def)
  then have "perm_write_file link data now pf = (Inr (), pf\<lparr>pf_inner := fs'\<rparr>)" using w by (simp add: perm_write_file_def checked_def)
  moreover have "check_fs pf Fs_write q \<noteq> Inr ()" using assms(8,10) by (auto simp: check_fs_def err_simps)
  ultimately show ?thesis using w(2) by simp
qed

theorem dangling_link_escapes_policy_witness:
  "let pf = new_permissioned_fs (snd (symlink ''/x'' ''/l'' 0 (new_memory_fs 0))) ''vm''
         (allow_all\<lparr>pm_filesystem := Some (\<lambda>r. \<lparr>pd_allow = fr_path r = ''/l'', pd_reason = None\<rparr>)\<rparr>)
   in check_fs pf Fs_write ''/x'' \<noteq> Inr () \<and> fst (perm_write_file ''/l'' [65] 1 pf) = Inr () \<and>
      map_option in_kind (inode_at (pf_inner (snd (perm_write_file ''/l'' [65] 1 pf))) ''/x'') = Some (File [65])"
proof -
  define fs where "fs = snd (symlink ''/x'' ''/l'' 0 (new_memory_fs 0))"
  define pf where "pf = new_permissioned_fs fs ''vm''
     (allow_all\<lparr>pm_filesystem := Some (\<lambda>r. \<lparr>pd_allow = fr_path r = ''/l'', pd_reason = None\<rparr>)\<rparr>)"
  have e: "fs_enabled (0, Symlink ''/x'' ''/l'') (new_memory_fs 0)" by code_simp
  have ok: "vfs_ok fs" using vfs_system.step_inv [OF vfs_ok_new e] by (simp add: fs_def fs_step_def)
  have r: "room_for_path fs" "realpath fs ''/'' = Inr ''/''" "dirname ''/l'' = ''/''"
    "resolve_path fs ''/l'' 0 = Inr ''/x''" "bt_get (fs_path_index fs) ''/x'' = None"
    "map_option in_kind (inode_at fs ''/l'') = Some (Symbolic_link ''/x'')"
    unfolding fs_def by code_simp+
  then obtain i where i: "inode_at fs ''/l'' = Some i" "in_kind i = Symbolic_link ''/x''" by auto
  have pf: "pf_inner pf = fs" "pf_vm_id pf = ''vm''"
    "pm_filesystem (pf_permissions pf) = Some (\<lambda>r. \<lparr>pd_allow = fr_path r = ''/l'', pd_reason = None\<rparr>)"
    by (simp_all add: pf_def new_permissioned_fs_def)
  show ?thesis unfolding fs_def [symmetric] pf_def [symmetric] Let_def
    using dangling_link_escapes_policy [OF _ _ _ i(2), of pf "''/l''" "''/x''" _ "[65]" 1] by (simp add: pf ok r i)
qed

end
