(* ===== verification/Spec2Isabelle.thy ===== *)
theory Spec2Isabelle
  imports File_Lock Pipe_Stream Pty Process_Table Permissions
begin

text \<open>
  Verification of the virtual kernel of code-runtime, the Rust crate \<open>src/crates/kernel\<close>: the user-space
  kernel that gives sandboxed programs processes, file descriptors, pipes, terminals, a file system and an
  access policy.

  \<^bold>\<open>The program and its parts.\<close>  A kernel process is an entry of the process table (\<open>process_table.rs\<close>) with
  a driver that runs it, an identity (\<open>user.rs\<close>) and a file descriptor table (\<open>fd_table.rs\<close>).  A descriptor
  refers to a reference-counted file description, which names a path of a file system, or an end of a pipe
  (\<open>pipe_manager.rs\<close>) or of a pseudo-terminal (\<open>pty.rs\<close>).  Waiting goes through a change counter with readiness bits (\<open>poll.rs\<close>).  The in-memory
  file system (\<open>vfs.rs\<close>) stores inodes behind a flat index of paths, and a wrapper asks the machine's policy
  before each call (\<open>permissions.rs\<close>).

  \<^bold>\<open>Conventions.\<close>  \<open>u8\<close> to \<open>u64\<close> are words of their width, so additions wrap as in a release build of the
  source where it does not use a checked operation; \<open>usize\<close> is \<open>nat\<close>, signed integers are \<open>int\<close>.  A \<open>Result\<close>
  is a sum with the error on the left and \<open>?\<close> is \<^const>\<open>and_then\<close>; \<open>BTreeMap\<close> is the sorted map of
  \<open>BTree_Map\<close>.  A method with \<open>&mut self\<close> takes the state and returns the new one.  Errors are constructors
  with the data of their message; an \<open>expect\<close> that could fail is an error value of its own (\<open>Panicked\<close>), which
  the safety theorems exclude.  State behind one mutex makes each locked section one step; blocking calls are
  split where the source waits on the condition variable, and time is an argument.

  \<^bold>\<open>Theories.\<close>
  \<^item> \<open>Rust_Prelude\<close>: integer and \<open>Result\<close> vocabulary, the collections of lemmas, and the locale
    \<open>guarded_system\<close>: a start state, events with guards, a step and an invariant, from which it derives that
    every valid run keeps the invariant.  Every component's state machine is an interpretation of it.
  \<^item> \<open>BTree_Map\<close>: the map, its iteration order, and the laws of insertion, removal and ranges.
  \<^item> \<open>Fd_Table\<close> (\<open>FileDescription\<close>, \<open>ProcessFdTable\<close>, \<open>FdTableManager\<close>): tables per process over a store of shared
    descriptions.  The locale \<open>balanced_table_op\<close> is the contract of a table operation, that it changes the
    counts of the store by exactly what it changes in the table; it is interpreted for \<open>open\<close>, \<open>open_with\<close>, \<open>close\<close>,
    \<open>dup\<close>, \<open>dup2\<close> and \<open>fcntl\<close>.  Shown: exact reference counts along every run of these operations (with
    \<open>open_with\<close> on free descriptors, without \<open>create_with_stdio\<close>, which miscounts), the allocation of descriptors,
    \<open>dup2\<close>, \<open>fork\<close>, the \<open>F_SETFL\<close>/\<open>F_GETFL\<close> round trip, and the leak of \<open>create_with_stdio\<close>.
  \<^item> \<open>File_Lock\<close> (\<open>FlockOperation\<close>, \<open>FileLockManager\<close>): mutual exclusion in every reachable state and a refinement
    of the \<open>flock\<close> contract over the relation of who holds what.
  \<^item> \<open>Poll\<close> (\<open>PollEvents\<close>, \<open>PollNotifier\<close>): readiness bits, and that a change after a snapshot is never missed.
  \<^item> \<open>Chunk_Buffer\<close> (\<open>drain_buffer\<close>, \<open>buffer_size\<close>): chunked byte buffers as an instance of the locale
    \<open>byte_queue\<close>.
  \<^item> \<open>Pipe\<close> and \<open>Pipe_Stream\<close> (\<open>PipeManager\<close>): each end of a pipe, blocked readers, direct delivery.  \<open>Pipe\<close> has the
    operations, the life cycle invariant, atomic writes, polling and notifications.  \<open>Pipe_Stream\<close> puts the operations
    in arbitrary order beside ledgers of accepted and returned bytes: a pipe is a FIFO byte stream as long as
    one reader waits at a time and no wait times out on delivered bytes, and an end of file comes after the last byte.  The
    interleavings in which the code loses bytes are theorems too.
  \<^item> \<open>Line_Discipline\<close>, \<open>Two_Ended\<close> and \<open>Pty\<close> (\<open>PtyManager\<close>): terminal settings, the line discipline as a
    refinement of an abstract line editor, the life cycle of objects with two ends, and the manager with its
    blocking reads.  Shown: erasing undoes typing, newline translation, the life cycle in every run, that typed lines
    reach the reader, and which part of a write that fails half way takes effect.
  \<^item> \<open>User\<close> (\<open>UserManager\<close>, \<open>ProcessIdentity\<close>): the user database.
  \<^item> \<open>Signals\<close> and \<open>Process_Table\<close> (\<open>SignalSet\<close>, \<open>ProcessTable\<close>): registration, signals with masks and pending
    sets, groups and sessions, exit, orphaned groups, \<open>waitpid\<close> and zombie reaping.  Signal delivery to drivers is the
    list of batches the source collects under its lock and delivers after it.  Shown: the tree invariant (for processes
    registered with a living parent or none), exit status kept until the wait that returns it, \<open>waitpid\<close> and \<open>sigprocmask\<close> exactly, orphaned stopped groups continued,
    no cascades of deliveries.
  \<^item> \<open>Vfs_Path\<close>, \<open>Vfs\<close>, \<open>Vfs_Tree\<close>, \<open>Vfs_Safety\<close>, \<open>Vfs_Store\<close> (\<open>MemoryFileSystem\<close>, the trait \<open>VirtualFileSystem\<close>):
    path functions; all operations; resolution through symbolic links and the invariant \<^const>\<open>vfs_ok\<close> of index,
    inodes and link counts; its preservation by every operation; and what users see: data written reads back, listings
    are complete, renames move subtrees, real paths are canonical, cycles of links end in \<open>ELOOP\<close>.  The
    trait's default methods are proved once in the locale \<open>file_store\<close>, which the in-memory file system
    interprets.
  \<^item> \<open>Permission_Glob\<close> and \<open>Permissions\<close> (\<open>permission_glob_matches\<close>, \<open>PermissionedFileSystem\<close>): the memoised
    matcher against an inductive definition of its language, and complete mediation: no inode changes
    without the policy having allowed an operation on a real path of it, with two gaps in the code stated as
    such: time stamps of a link itself, and files created through a dangling link.  The code is
    generic in the file system it wraps; here that is \<open>MemoryFileSystem\<close>.

  \<^bold>\<open>Bounds and termination.\<close>  Every definition is total.  Path resolution recurses on the number of redirections
  left below \<open>MAX_SYMLINK_DEPTH\<close>, the bound of the source, and on the path left to walk; the matcher on the
  pattern and the value left.  There is no fuel.  The guards of the state machines exclude what the
  source does not survive either: 64-bit inode numbers and link counts must not wrap, offsets must fit, and
  some calls are kept out on which the code leaves its invariant: a recursive \<open>mkdir\<close> through a dangling link, a
  rename onto the root, \<open>open_with\<close> on a used descriptor, and the registration of a process under a dead
  parent or with a deliverable signal pending.  Each theorem over runs names the guards it relies on.

  \<^bold>\<open>Not modelled.\<close>  The system calls of \<open>kernel.rs\<close>, which combine these parts, sockets (\<open>socket_table.rs\<close>), name
  resolution (\<open>dns.rs\<close>), resource limits (\<open>resource_accounting.rs\<close>), the command registry and the file systems
  besides the in-memory one (\<open>mount_table.rs\<close>, \<open>overlay_fs.rs\<close>, \<open>root_fs.rs\<close>, \<open>device_layer.rs\<close>).  Outside the kernel
  crate, the execution engines, the V8 binding, the sidecars and the TypeScript packages drive external
  runtimes or move messages and are not covered.  Within the modelled files, the operating system's threads,
  clock and condition variables appear as the order of steps, time arguments and wake-up counters; the drivers'
  and policies' own code is a parameter.
\<close>

end
